(* ===== verification/Hammer2_Prelude.thy ===== *)
theory Hammer2_Prelude
  imports Main "HOL-Library.Word" "HOL-Library.Monad_Syntax"
begin

unbundle bit_operations_syntax

text \<open>
  What the component theories share: the machine types of the C sources, the
  assertion macro \<open>KKASSERT\<close>, the error flags of \<^verbatim>\<open>hammer2.h\<close>, and the generic
  lemmas on words, bit masks and lists the component proofs rest on.

  A C function that can fail an assertion returns an \<open>option\<close>: \<open>None\<close> is a failed
  \<open>KKASSERT\<close> (a \<open>BUG()\<close> of the \<open>HAMMER2_INVARIANTS\<close> build), a dereference of a null
  pointer, or a loop that does not end.  \<open>hpanic\<close> is the one of the default build: it
  marks the device in error and the caller goes on along its error path.
  Error codes are ordinary values, because the source accumulates them by OR.
\<close>

section \<open>Machine types\<close>

type_synonym u8 = "8 word"
type_synonym u16 = "16 word"
type_synonym u32 = "32 word"
type_synonym u64 = "64 word"

type_synonym hammer2_tid_t = u64
type_synonym hammer2_off_t = u64
type_synonym hammer2_key_t = u64
type_synonym hammer2_bitmap_t = u64
type_synonym h2error = u32

named_theorems h2_simps \<open>rewrite rules for the component operations\<close>

section \<open>Assertions\<close>

definition KKASSERT :: "bool \<Rightarrow> unit option" where
  "KKASSERT b = (if b then Some () else None)"

lemma KKASSERT_True [simp]: "KKASSERT True = Some ()"
  by (simp add: KKASSERT_def)

lemma KKASSERT_False [simp]: "KKASSERT False = None"
  by (simp add: KKASSERT_def)

lemma KKASSERT_bind_eq_Some [simp]:
  "KKASSERT b \<bind> f = Some x \<longleftrightarrow> b \<and> f () = Some x"
  by (simp add: KKASSERT_def)

lemma KKASSERT_bind_if [h2_simps]: "b \<Longrightarrow> KKASSERT b \<bind> f = f ()"
  by (simp add: KKASSERT_def)

section \<open>Error flags (hammer2.h)\<close>

abbreviation (input) HAMMER2_ERROR_EIO :: h2error where "HAMMER2_ERROR_EIO \<equiv> 0x00000001"
abbreviation (input) HAMMER2_ERROR_CHECK :: h2error where "HAMMER2_ERROR_CHECK \<equiv> 0x00000002"
abbreviation (input) HAMMER2_ERROR_BADBREF :: h2error where "HAMMER2_ERROR_BADBREF \<equiv> 0x00000010"
abbreviation (input) HAMMER2_ERROR_ENOSPC :: h2error where "HAMMER2_ERROR_ENOSPC \<equiv> 0x00000020"
abbreviation (input) HAMMER2_ERROR_ENOENT :: h2error where "HAMMER2_ERROR_ENOENT \<equiv> 0x00000040"
abbreviation (input) HAMMER2_ERROR_ENOTEMPTY :: h2error where "HAMMER2_ERROR_ENOTEMPTY \<equiv> 0x00000080"
abbreviation (input) HAMMER2_ERROR_EAGAIN :: h2error where "HAMMER2_ERROR_EAGAIN \<equiv> 0x00000100"
abbreviation (input) HAMMER2_ERROR_ENOTDIR :: h2error where "HAMMER2_ERROR_ENOTDIR \<equiv> 0x00000200"
abbreviation (input) HAMMER2_ERROR_EISDIR :: h2error where "HAMMER2_ERROR_EISDIR \<equiv> 0x00000400"
abbreviation (input) HAMMER2_ERROR_EINPROGRESS :: h2error where "HAMMER2_ERROR_EINPROGRESS \<equiv> 0x00000800"
abbreviation (input) HAMMER2_ERROR_ABORTED :: h2error where "HAMMER2_ERROR_ABORTED \<equiv> 0x00001000"
abbreviation (input) HAMMER2_ERROR_EOF :: h2error where "HAMMER2_ERROR_EOF \<equiv> 0x00002000"
abbreviation (input) HAMMER2_ERROR_EINVAL :: h2error where "HAMMER2_ERROR_EINVAL \<equiv> 0x00004000"
abbreviation (input) HAMMER2_ERROR_EEXIST :: h2error where "HAMMER2_ERROR_EEXIST \<equiv> 0x00008000"
abbreviation (input) HAMMER2_ERROR_EDEADLK :: h2error where "HAMMER2_ERROR_EDEADLK \<equiv> 0x00010000"
abbreviation (input) HAMMER2_ERROR_ESRCH :: h2error where "HAMMER2_ERROR_ESRCH \<equiv> 0x00020000"
abbreviation (input) HAMMER2_ERROR_ETIMEDOUT :: h2error where "HAMMER2_ERROR_ETIMEDOUT \<equiv> 0x00040000"
abbreviation (input) HAMMER2_ERROR_ENOTCONN :: h2error where "HAMMER2_ERROR_ENOTCONN \<equiv> 0x00080000"
abbreviation (input) HAMMER2_ERROR_EOPNOTSUPP :: h2error where "HAMMER2_ERROR_EOPNOTSUPP \<equiv> 0x10000000"

section \<open>Words and bit masks\<close>

text \<open>A run of \<open>n\<close> one bits starting at bit \<open>j\<close>: the masks of the freemap.\<close>

abbreviation bitrun :: "nat \<Rightarrow> nat \<Rightarrow> 'a::len word" where
  "bitrun j n \<equiv> push_bit j (mask n)"

lemma bit_bitrun:
  "bit (bitrun j n :: 'a::len word) k \<longleftrightarrow> j \<le> k \<and> k < j + n \<and> k < LENGTH('a)"
  by (auto simp: bit_push_bit_iff bit_mask_iff)

lemma and_bitrun_eq_0:
  "((w :: 'a::len word) AND bitrun j n) = 0 \<longleftrightarrow>
     (\<forall>k. j \<le> k \<and> k < j + n \<and> k < LENGTH('a) \<longrightarrow> \<not> bit w k)"
  by (auto simp: bit_eq_iff bit_and_iff bit_bitrun dest: bit_imp_le_length)

lemma bit_or_bitrun:
  "bit ((w :: 'a::len word) OR bitrun j n) k \<longleftrightarrow>
     bit w k \<or> (j \<le> k \<and> k < j + n \<and> k < LENGTH('a))"
  by (simp add: bit_or_iff bit_bitrun)

lemma mask_2_eq: "(mask 2 :: 'a::len word) = 3"
  by (simp add: mask_eq_exp_minus_1)

lemma bitrun_2: "push_bit j (3 :: 'a::len word) = bitrun j 2"
  by (simp add: mask_2_eq)

lemma unat_of_nat_small: "n < 2 ^ LENGTH('a) \<Longrightarrow> unat (of_nat n :: 'a::len word) = n"
  by (simp add: unat_of_nat take_bit_nat_eq_self)

lemma sint_small: "unat (w :: 'a::len word) < 2 ^ (LENGTH('a) - 1) \<Longrightarrow> sint w = int (unat w)"
proof -
  assume "unat w < 2 ^ (LENGTH('a) - 1)"
  then have "int (unat w) < int (2 ^ (LENGTH('a) - 1))" by (simp only: of_nat_less_iff)
  then have "uint w < 2 ^ (LENGTH('a) - 1)" by simp
  moreover have "0 \<le> uint w" by simp
  ultimately have "signed_take_bit (LENGTH('a) - 1) (uint w) = uint w"
    by (intro signed_take_bit_int_eq_self) (auto intro: order_trans [of _ 0])
  then show "sint w = int (unat w)" by (simp add: sint_uint)
qed

section \<open>Lists\<close>

lemma sum_list_update_nat:
  fixes f :: "'a \<Rightarrow> nat"
  assumes "i < length xs"
  shows "(\<Sum>x\<leftarrow>xs[i := y]. f x) + f (xs ! i) = (\<Sum>x\<leftarrow>xs. f x) + f y"
  using assms
proof (induction xs arbitrary: i)
  case (Cons a xs)
  then show ?case by (cases i) (auto simp: add.commute add.left_commute)
qed simp

lemma all_set_update:
  "\<forall>x \<in> set xs. P x \<Longrightarrow> P y \<Longrightarrow> \<forall>x \<in> set (xs[i := y]). P x"
  by (auto dest: set_update_subset_insert [THEN subsetD])

lemma down_closed_card:
  assumes "finite U" "\<And>i. Suc i \<in> U \<Longrightarrow> i \<in> U"
  shows "U = {..<card U}"
proof -
  have down: "j \<in> U" if "i \<in> U" "j \<le> i" for i j
    using that(2,1) by (induction i rule: dec_induct) (auto intro: assms(2))
  have "\<exists>n. U = {..<n}"
  proof (cases "U = {}")
    case False
    have "U = {..<Suc (Max U)}"
    proof
      show "U \<subseteq> {..<Suc (Max U)}" using assms(1) by (auto simp: less_Suc_eq_le)
      show "{..<Suc (Max U)} \<subseteq> U"
        using down [OF Max_in [OF assms(1) False]] by (auto simp: less_Suc_eq_le)
    qed
    then show ?thesis by blast
  qed auto
  then show ?thesis by (metis card_lessThan)
qed

lemma filter_prefix:
  assumes "\<And>i. i < length vs \<Longrightarrow> P (vs ! i) \<longleftrightarrow> i < n"
  shows "filter P vs = take n vs"
proof -
  have "filter P (take n vs) = take n vs"
    using assms by (intro filter_True) (auto simp: in_set_conv_nth)
  moreover have "filter P (drop n vs) = []"
    using assms by (auto simp: filter_empty_conv in_set_conv_nth)
  ultimately show ?thesis
    by (metis append_Nil2 append_take_drop_id filter_append)
qed

lemma sum_list_take:
  "n \<le> length vs \<Longrightarrow> (\<Sum>v \<leftarrow> take n vs. f v) = (\<Sum>j < n. f (vs ! j))"
  by (induction n) (auto simp: take_Suc_conv_app_nth add.commute)

lemma unat_sum_words:
  fixes n :: nat
  shows "(\<Sum>j < n. unat (f j :: 'a::len word)) < 2 ^ LENGTH('a) \<Longrightarrow>
   unat (\<Sum>j < n. f j) = (\<Sum>j < n. unat (f j))"
proof (induction n)
  case (Suc n)
  then have "unat (\<Sum>j < n. f j) = (\<Sum>j < n. unat (f j))" by simp
  with Suc.prems show ?case by (simp add: unat_word_ariths(1))
qed simp

text \<open>Prefix sums: which summand a value falls in.\<close>

lemma prefix_sum_mono: "(i :: nat) \<le> j \<Longrightarrow> (\<Sum>k < i. f k :: nat) \<le> (\<Sum>k < j. f k)"
  by (intro sum_mono2) auto

lemma prefix_sum_find:
  fixes n :: nat
  shows "(x :: nat) < (\<Sum>k < n. f k) \<Longrightarrow> \<exists>i < n. (\<Sum>k < i. f k) \<le> x \<and> x < (\<Sum>k < i. f k) + f i"
proof (induction n)
  case (Suc n)
  show ?case
  proof (cases "x < (\<Sum>k < n. f k)")
    case True
    with Suc.IH show ?thesis by (auto intro: less_SucI)
  next
    case False
    with Suc.prems show ?thesis by (intro exI [of _ n]) auto
  qed
qed simp

lemma prefix_sum_unique:
  fixes i j :: nat
  assumes "(\<Sum>k < i. f k :: nat) \<le> x" "x < (\<Sum>k < i. f k) + f i"
    "(\<Sum>k < j. f k) \<le> x" "x < (\<Sum>k < j. f k) + f j"
  shows "i = j"
proof (rule ccontr)
  assume "i \<noteq> j"
  then consider "Suc i \<le> j" | "Suc j \<le> i" by linarith
  then show False
  proof cases
    case 1
    from prefix_sum_mono [OF 1, of f] assms show False by simp
  next
    case 2
    from prefix_sum_mono [OF 2, of f] assms show False by simp
  qed
qed

end
