(* ===== verification/Hammer2_Disk.thy ===== *)
theory Hammer2_Disk
  imports Hammer2_Prelude
begin

unbundle bit_operations_syntax

text \<open>
  The on-disk format of \<^verbatim>\<open>hammer2_disk.h\<close>: the size, radix and mask constants, the
  media structures as records, and the byte views of the unions that sit inside a
  block reference.  The constants are polymorphic abbreviations, so one name serves
  the \<open>int\<close>, \<open>size_t\<close> and 64-bit uses the C preprocessor gives it.
\<close>

section \<open>Sizes and radixes\<close>

abbreviation (input) HAMMER2_ALLOC_MIN :: "'a::numeral" where "HAMMER2_ALLOC_MIN \<equiv> 1024"
abbreviation (input) HAMMER2_RADIX_MIN :: "'a::numeral" where "HAMMER2_RADIX_MIN \<equiv> 10"
abbreviation (input) HAMMER2_ALLOC_MAX :: "'a::numeral" where "HAMMER2_ALLOC_MAX \<equiv> 65536"
abbreviation (input) HAMMER2_RADIX_MAX :: "'a::numeral" where "HAMMER2_RADIX_MAX \<equiv> 16"
abbreviation (input) HAMMER2_SEGRADIX :: "'a::numeral" where "HAMMER2_SEGRADIX \<equiv> 22"
abbreviation (input) HAMMER2_SEGSIZE :: "'a::numeral" where "HAMMER2_SEGSIZE \<equiv> 4194304"
abbreviation (input) HAMMER2_SEGMASK :: "'a::numeral" where "HAMMER2_SEGMASK \<equiv> 4194303"
abbreviation (input) HAMMER2_PBUFRADIX :: "'a::numeral" where "HAMMER2_PBUFRADIX \<equiv> 16"
abbreviation (input) HAMMER2_PBUFSIZE :: "'a::numeral" where "HAMMER2_PBUFSIZE \<equiv> 65536"
abbreviation (input) HAMMER2_PBUFMASK :: "'a::numeral" where "HAMMER2_PBUFMASK \<equiv> 65535"
abbreviation (input) HAMMER2_LBUFRADIX :: "'a::numeral" where "HAMMER2_LBUFRADIX \<equiv> 14"
abbreviation (input) HAMMER2_LBUFSIZE :: "'a::numeral" where "HAMMER2_LBUFSIZE \<equiv> 16384"
abbreviation (input) HAMMER2_ZONE_MASK :: "'a::numeral" where "HAMMER2_ZONE_MASK \<equiv> 2147483647"
abbreviation (input) HAMMER2_ZONE_SEG :: "'a::numeral" where "HAMMER2_ZONE_SEG \<equiv> 4194304"
abbreviation (input) HAMMER2_VOLUME_ALIGN :: "'a::numeral" where "HAMMER2_VOLUME_ALIGN \<equiv> 8388608"
abbreviation (input) HAMMER2_OFF_MASK_RADIX :: "'a::numeral" where "HAMMER2_OFF_MASK_RADIX \<equiv> 0x3F"

subsection \<open>Freemap geometry\<close>

abbreviation (input) HAMMER2_ZONE_FREEMAP_INC :: "'a::numeral" where "HAMMER2_ZONE_FREEMAP_INC \<equiv> 5"
abbreviation (input) HAMMER2_ZONE_FREEMAP_00 :: "'a::one" where "HAMMER2_ZONE_FREEMAP_00 \<equiv> 1"
abbreviation (input) HAMMER2_ZONE_FREEMAP_END :: "'a::numeral" where "HAMMER2_ZONE_FREEMAP_END \<equiv> 41"
abbreviation (input) HAMMER2_NFREEMAPS :: "'a::numeral" where "HAMMER2_NFREEMAPS \<equiv> 8"

abbreviation (input) HAMMER2_FREEMAP_LEVEL5_RADIX :: "'a::numeral" where "HAMMER2_FREEMAP_LEVEL5_RADIX \<equiv> 62"
abbreviation (input) HAMMER2_FREEMAP_LEVEL4_RADIX :: "'a::numeral" where "HAMMER2_FREEMAP_LEVEL4_RADIX \<equiv> 54"
abbreviation (input) HAMMER2_FREEMAP_LEVEL3_RADIX :: "'a::numeral" where "HAMMER2_FREEMAP_LEVEL3_RADIX \<equiv> 46"
abbreviation (input) HAMMER2_FREEMAP_LEVEL2_RADIX :: "'a::numeral" where "HAMMER2_FREEMAP_LEVEL2_RADIX \<equiv> 38"
abbreviation (input) HAMMER2_FREEMAP_LEVEL1_RADIX :: "'a::numeral" where "HAMMER2_FREEMAP_LEVEL1_RADIX \<equiv> 30"
abbreviation (input) HAMMER2_FREEMAP_LEVEL0_RADIX :: "'a::numeral" where "HAMMER2_FREEMAP_LEVEL0_RADIX \<equiv> 22"
abbreviation (input) HAMMER2_FREEMAP_LEVELN_PSIZE :: "'a::numeral" where "HAMMER2_FREEMAP_LEVELN_PSIZE \<equiv> 32768"
abbreviation (input) HAMMER2_FREEMAP_LEVEL1_SIZE :: "'a::numeral" where "HAMMER2_FREEMAP_LEVEL1_SIZE \<equiv> 1073741824"
abbreviation (input) HAMMER2_FREEMAP_LEVEL1_MASK :: "'a::numeral" where "HAMMER2_FREEMAP_LEVEL1_MASK \<equiv> 1073741823"
abbreviation (input) HAMMER2_FREEMAP_LEVEL0_SIZE :: "'a::numeral" where "HAMMER2_FREEMAP_LEVEL0_SIZE \<equiv> 4194304"
abbreviation (input) HAMMER2_FREEMAP_LEVEL0_MASK :: "'a::numeral" where "HAMMER2_FREEMAP_LEVEL0_MASK \<equiv> 4194303"
abbreviation (input) HAMMER2_FREEMAP_COUNT :: "'a::numeral" where "HAMMER2_FREEMAP_COUNT \<equiv> 256"
abbreviation (input) HAMMER2_FREEMAP_BLOCK_RADIX :: "'a::numeral" where "HAMMER2_FREEMAP_BLOCK_RADIX \<equiv> 14"
abbreviation (input) HAMMER2_FREEMAP_BLOCK_SIZE :: "'a::numeral" where "HAMMER2_FREEMAP_BLOCK_SIZE \<equiv> 16384"
abbreviation (input) HAMMER2_FREEMAP_BLOCK_MASK :: "'a::numeral" where "HAMMER2_FREEMAP_BLOCK_MASK \<equiv> 16383"
abbreviation (input) HAMMER2_BMAP_ELEMENTS :: "'a::numeral" where "HAMMER2_BMAP_ELEMENTS \<equiv> 8"
abbreviation (input) HAMMER2_BMAP_BITS_PER_ELEMENT :: "'a::numeral" where "HAMMER2_BMAP_BITS_PER_ELEMENT \<equiv> 64"
abbreviation (input) HAMMER2_BMAP_INDEX_RADIX :: "'a::numeral" where "HAMMER2_BMAP_INDEX_RADIX \<equiv> 5"
abbreviation (input) HAMMER2_BMAP_BLOCKS_PER_ELEMENT :: "'a::numeral" where "HAMMER2_BMAP_BLOCKS_PER_ELEMENT \<equiv> 32"
abbreviation (input) HAMMER2_BMAP_INDEX_SIZE :: "'a::numeral" where "HAMMER2_BMAP_INDEX_SIZE \<equiv> 524288"
abbreviation (input) HAMMER2_BMAP_SIZE :: "'a::numeral" where "HAMMER2_BMAP_SIZE \<equiv> 4194304"

text \<open>\<open>H2FMBASE(key, radix)\<close> is \<open>rounddown2(key, 1 << radix)\<close>; \<open>H2FMZONEBASE\<close> rounds to 1GB.\<close>

definition H2FMBASE :: "hammer2_key_t \<Rightarrow> nat \<Rightarrow> hammer2_key_t" where
  "H2FMBASE key radix = key AND NOT (mask radix)"

definition H2FMZONEBASE :: "hammer2_key_t \<Rightarrow> hammer2_key_t" where
  "H2FMZONEBASE key = key AND NOT HAMMER2_FREEMAP_LEVEL1_MASK"

section \<open>Block reference types and methods\<close>

abbreviation (input) HAMMER2_BREF_TYPE_EMPTY :: u8 where "HAMMER2_BREF_TYPE_EMPTY \<equiv> 0"
abbreviation (input) HAMMER2_BREF_TYPE_INODE :: u8 where "HAMMER2_BREF_TYPE_INODE \<equiv> 1"
abbreviation (input) HAMMER2_BREF_TYPE_INDIRECT :: u8 where "HAMMER2_BREF_TYPE_INDIRECT \<equiv> 2"
abbreviation (input) HAMMER2_BREF_TYPE_DATA :: u8 where "HAMMER2_BREF_TYPE_DATA \<equiv> 3"
abbreviation (input) HAMMER2_BREF_TYPE_DIRENT :: u8 where "HAMMER2_BREF_TYPE_DIRENT \<equiv> 4"
abbreviation (input) HAMMER2_BREF_TYPE_FREEMAP_NODE :: u8 where "HAMMER2_BREF_TYPE_FREEMAP_NODE \<equiv> 5"
abbreviation (input) HAMMER2_BREF_TYPE_FREEMAP_LEAF :: u8 where "HAMMER2_BREF_TYPE_FREEMAP_LEAF \<equiv> 6"
abbreviation (input) HAMMER2_BREF_TYPE_INVALID :: u8 where "HAMMER2_BREF_TYPE_INVALID \<equiv> 7"
abbreviation (input) HAMMER2_BREF_TYPE_FREEMAP :: u8 where "HAMMER2_BREF_TYPE_FREEMAP \<equiv> 254"
abbreviation (input) HAMMER2_BREF_TYPE_VOLUME :: u8 where "HAMMER2_BREF_TYPE_VOLUME \<equiv> 255"

definition HAMMER2_ENC_CHECK :: "u8 \<Rightarrow> u8" where
  "HAMMER2_ENC_CHECK n = push_bit 4 (n AND 15)"

definition HAMMER2_DEC_CHECK :: "u8 \<Rightarrow> u8" where
  "HAMMER2_DEC_CHECK n = drop_bit 4 n AND 15"

definition HAMMER2_ENC_COMP :: "u8 \<Rightarrow> u8" where
  "HAMMER2_ENC_COMP n = n AND 15"

definition HAMMER2_DEC_COMP :: "u8 \<Rightarrow> u8" where
  "HAMMER2_DEC_COMP n = n AND 15"

section \<open>Media structures\<close>

record uuid =
  time_low :: u32
  time_mid :: u16
  time_hi_and_version :: u16
  clock_seq_hi_and_reserved :: u8
  clock_seq_low :: u8
  node :: "u8 list"

text \<open>
  The two unions of a block reference are kept as the bytes they are on the media:
  \<open>br_embed\<close> is \<open>embed.buf[16]\<close> and \<open>br_check\<close> is \<open>check.buf[64]\<close>; the members the
  code reads are views of those bytes in the host's (little-endian) order.
\<close>

record hammer2_blockref =
  br_type :: u8
  br_methods :: u8
  br_copyid :: u8
  br_keybits :: u8
  br_vradix :: u8
  br_flags :: u8
  br_leaf_count :: u16
  br_key :: hammer2_key_t
  br_mirror_tid :: hammer2_tid_t
  br_modify_tid :: hammer2_tid_t
  br_data_off :: hammer2_off_t
  br_update_tid :: hammer2_tid_t
  br_embed :: "u8 list"
  br_check :: "u8 list"

definition blockref_zero :: hammer2_blockref where
  "blockref_zero = \<lparr> br_type = 0, br_methods = 0, br_copyid = 0, br_keybits = 0,
     br_vradix = 0, br_flags = 0, br_leaf_count = 0, br_key = 0, br_mirror_tid = 0,
     br_modify_tid = 0, br_data_off = 0, br_update_tid = 0,
     br_embed = replicate 16 0, br_check = replicate 64 0 \<rparr>"

text \<open>A freemap entry of a level 1 leaf; \<open>reserved\<close> fields of the structure are not used.\<close>

record hammer2_bmap_data =
  bm_linear :: int
  bm_class :: u16
  bm_avail :: u32
  bm_bitmapq :: "hammer2_bitmap_t list"

section \<open>Byte views\<close>

fun le_word :: "u8 list \<Rightarrow> 'a::len word" where
  "le_word [] = 0"
| "le_word (b # bs) = ucast b OR push_bit 8 (le_word bs)"

fun le_bytes :: "nat \<Rightarrow> 'a::len word \<Rightarrow> u8 list" where
  "le_bytes 0 w = []"
| "le_bytes (Suc n) w = ucast w # le_bytes n (drop_bit 8 w)"

lemma length_le_bytes [simp]: "length (le_bytes n w) = n"
  by (induction n arbitrary: w) auto

lemma le_word_le_bytes: "le_word (le_bytes n w) = take_bit (8 * n) (w :: 'a::len word)"
proof (induction n arbitrary: w)
  case (Suc n)
  have "ucast (ucast w :: u8) OR push_bit 8 (take_bit (8 * n) (drop_bit 8 w))
      = take_bit (8 + 8 * n) w"
    by (rule bit_word_eqI)
      (auto simp: bit_or_iff bit_push_bit_iff bit_take_bit_iff bit_drop_bit_eq bit_ucast_iff)
  with Suc show ?case by simp
qed simp

lemma le_word_le_bytes_full: "LENGTH('a) \<le> 8 * n \<Longrightarrow> le_word (le_bytes n w) = (w :: 'a::len word)"
  by (simp add: le_word_le_bytes take_bit_word_eq_self)

definition stats_data_count :: "u8 list \<Rightarrow> u64" where
  "stats_data_count e = le_word (take 8 e)"

definition stats_inode_count :: "u8 list \<Rightarrow> u64" where
  "stats_inode_count e = le_word (take 8 (drop 8 e))"

definition stats_bytes :: "u64 \<Rightarrow> u64 \<Rightarrow> u8 list" where
  "stats_bytes d i = le_bytes 8 d @ le_bytes 8 i"

lemma stats_views [simp]:
  "stats_data_count (stats_bytes d i) = d"
  "stats_inode_count (stats_bytes d i) = i"
  "length (stats_bytes d i) = 16"
  by (simp_all add: stats_data_count_def stats_inode_count_def stats_bytes_def le_word_le_bytes_full)

lemma methods_roundtrip:
  "HAMMER2_DEC_CHECK (HAMMER2_ENC_CHECK c OR HAMMER2_ENC_COMP p) = c AND 15"
  "HAMMER2_DEC_COMP (HAMMER2_ENC_CHECK c OR HAMMER2_ENC_COMP p) = p AND 15"
proof -
  have 15: "(15 :: u8) = mask 4" by (simp add: mask_eq_exp_minus_1)
  show "HAMMER2_DEC_CHECK (HAMMER2_ENC_CHECK c OR HAMMER2_ENC_COMP p) = c AND 15"
    unfolding HAMMER2_DEC_CHECK_def HAMMER2_ENC_CHECK_def HAMMER2_ENC_COMP_def 15
    by (rule bit_word_eqI)
      (auto simp: bit_or_iff bit_and_iff bit_mask_iff bit_drop_bit_eq bit_push_bit_iff)
  show "HAMMER2_DEC_COMP (HAMMER2_ENC_CHECK c OR HAMMER2_ENC_COMP p) = p AND 15"
    unfolding HAMMER2_DEC_COMP_def HAMMER2_ENC_CHECK_def HAMMER2_ENC_COMP_def 15
    by (rule bit_word_eqI)
      (auto simp: bit_or_iff bit_and_iff bit_mask_iff bit_push_bit_iff)
qed

end
