(* ===== verification/Hammer2_Subr.thy ===== *)
theory Hammer2_Subr
  imports Hammer2_Disk
begin

unbundle bit_operations_syntax

text \<open>
  \<^verbatim>\<open>hammer2_subr.c\<close> and the inline conversions at the end of \<^verbatim>\<open>hammer2.h\<close>: object
  type mappings, time and id conversions, the directory hash, allocation radixes,
  the logical and physical block size of a file offset, the I/O statistics and the
  mapping between error flags and errno.

  The kernel's \<open>crc32c\<close> is not part of the sources; it is the argument \<open>crc32c\<close>
  (running value, then the bytes).
\<close>

section \<open>Object types\<close>

abbreviation (input) HAMMER2_OBJTYPE_UNKNOWN :: u8 where "HAMMER2_OBJTYPE_UNKNOWN \<equiv> 0"
abbreviation (input) HAMMER2_OBJTYPE_DIRECTORY :: u8 where "HAMMER2_OBJTYPE_DIRECTORY \<equiv> 1"
abbreviation (input) HAMMER2_OBJTYPE_REGFILE :: u8 where "HAMMER2_OBJTYPE_REGFILE \<equiv> 2"
abbreviation (input) HAMMER2_OBJTYPE_FIFO :: u8 where "HAMMER2_OBJTYPE_FIFO \<equiv> 4"
abbreviation (input) HAMMER2_OBJTYPE_CDEV :: u8 where "HAMMER2_OBJTYPE_CDEV \<equiv> 5"
abbreviation (input) HAMMER2_OBJTYPE_BDEV :: u8 where "HAMMER2_OBJTYPE_BDEV \<equiv> 6"
abbreviation (input) HAMMER2_OBJTYPE_SOFTLINK :: u8 where "HAMMER2_OBJTYPE_SOFTLINK \<equiv> 7"
abbreviation (input) HAMMER2_OBJTYPE_SOCKET :: u8 where "HAMMER2_OBJTYPE_SOCKET \<equiv> 9"
abbreviation (input) HAMMER2_OBJTYPE_WHITEOUT :: u8 where "HAMMER2_OBJTYPE_WHITEOUT \<equiv> 10"

datatype dtype = DT_UNKNOWN | DT_FIFO | DT_CHR | DT_DIR | DT_BLK | DT_REG | DT_LNK | DT_SOCK

datatype vtype = VNON | VREG | VDIR | VBLK | VCHR | VLNK | VSOCK | VFIFO | VBAD

definition hammer2_get_dtype :: "u8 \<Rightarrow> dtype" where
  "hammer2_get_dtype t =
    (if t = HAMMER2_OBJTYPE_UNKNOWN then DT_UNKNOWN
     else if t = HAMMER2_OBJTYPE_DIRECTORY then DT_DIR
     else if t = HAMMER2_OBJTYPE_REGFILE then DT_REG
     else if t = HAMMER2_OBJTYPE_FIFO then DT_FIFO
     else if t = HAMMER2_OBJTYPE_CDEV then DT_CHR
     else if t = HAMMER2_OBJTYPE_BDEV then DT_BLK
     else if t = HAMMER2_OBJTYPE_SOFTLINK then DT_LNK
     else if t = HAMMER2_OBJTYPE_SOCKET then DT_SOCK
     else DT_UNKNOWN)"

definition hammer2_get_vtype :: "u8 \<Rightarrow> vtype" where
  "hammer2_get_vtype t =
    (if t = HAMMER2_OBJTYPE_UNKNOWN then VBAD
     else if t = HAMMER2_OBJTYPE_DIRECTORY then VDIR
     else if t = HAMMER2_OBJTYPE_REGFILE then VREG
     else if t = HAMMER2_OBJTYPE_FIFO then VFIFO
     else if t = HAMMER2_OBJTYPE_CDEV then VCHR
     else if t = HAMMER2_OBJTYPE_BDEV then VBLK
     else if t = HAMMER2_OBJTYPE_SOFTLINK then VLNK
     else if t = HAMMER2_OBJTYPE_SOCKET then VSOCK
     else VBAD)"

fun hammer2_get_obj_type :: "vtype \<Rightarrow> u8" where
  "hammer2_get_obj_type VDIR = HAMMER2_OBJTYPE_DIRECTORY"
| "hammer2_get_obj_type VREG = HAMMER2_OBJTYPE_REGFILE"
| "hammer2_get_obj_type VFIFO = HAMMER2_OBJTYPE_FIFO"
| "hammer2_get_obj_type VSOCK = HAMMER2_OBJTYPE_SOCKET"
| "hammer2_get_obj_type VCHR = HAMMER2_OBJTYPE_CDEV"
| "hammer2_get_obj_type VBLK = HAMMER2_OBJTYPE_BDEV"
| "hammer2_get_obj_type VLNK = HAMMER2_OBJTYPE_SOFTLINK"
| "hammer2_get_obj_type _ = HAMMER2_OBJTYPE_UNKNOWN"

section \<open>Times and ids\<close>

record timespec64 =
  tv_sec :: int
  tv_nsec :: int

definition hammer2_time_to_timespec :: "u64 \<Rightarrow> timespec64" where
  "hammer2_time_to_timespec xtime =
     \<lparr> tv_sec = uint (xtime div 1000000),
       tv_nsec = uint (ucast (xtime mod 1000000) :: u32) * 1000 \<rparr>"

definition hammer2_timespec_to_time :: "timespec64 \<Rightarrow> u64" where
  "hammer2_timespec_to_time ts =
     ucast (word_of_int (tv_nsec ts div 1000) :: u32) + word_of_int (tv_sec ts) * 1000000"

text \<open>\<open>hammer2_update_time\<close> stores the clock reading \<open>ts\<close> it is given by the kernel.\<close>

definition hammer2_update_time :: "timespec64 \<Rightarrow> u64" where
  "hammer2_update_time ts = word_of_int (tv_sec ts) * 1000000 + word_of_int (tv_nsec ts div 1000)"

definition hammer2_to_unix_xid :: "uuid \<Rightarrow> u32" where
  "hammer2_to_unix_xid u = le_word (take 4 (drop 2 (node u)))"

definition hammer2_guid_to_uuid :: "u32 \<Rightarrow> uuid" where
  "hammer2_guid_to_uuid guid =
     \<lparr> time_low = 0, time_mid = 0, time_hi_and_version = 0, clock_seq_hi_and_reserved = 0,
       clock_seq_low = 0, node = [0, 0] @ le_bytes 4 guid \<rparr>"

section \<open>The directory hash\<close>

definition hammer2_icrc32 :: "(u32 \<Rightarrow> u8 list \<Rightarrow> u32) \<Rightarrow> u8 list \<Rightarrow> u32" where
  "hammer2_icrc32 crc32c buf = NOT (crc32c (NOT 0) buf)"

text \<open>The bytes \<open>'.'\<close>, \<open>'-'\<close>, \<open>'_'\<close> and \<open>'~'\<close> end a field of the name.\<close>

definition dirhash_sep :: "u8 \<Rightarrow> bool" where
  "dirhash_sep c \<longleftrightarrow> c = 46 \<or> c = 45 \<or> c = 95 \<or> c = 126"

text \<open>The loop over \<open>i\<close> with the field start \<open>j\<close> and the final field after it.\<close>

function dirhash_m32 ::
    "(u32 \<Rightarrow> u8 list \<Rightarrow> u32) \<Rightarrow> u8 list \<Rightarrow> nat \<Rightarrow> nat \<Rightarrow> u32 \<Rightarrow> u32" where
  "dirhash_m32 crc32c aname i j crcx =
     (let field = take (i - j) (drop j aname);
          crcx' = (if i \<noteq> j then crcx + hammer2_icrc32 crc32c field else crcx)
      in if i < length aname
         then (if dirhash_sep (aname ! i)
               then dirhash_m32 crc32c aname (Suc i) (Suc i) crcx'
               else dirhash_m32 crc32c aname (Suc i) j crcx)
         else crcx')"
  by pat_completeness auto
termination
  by (relation "measure (\<lambda>(c, aname, i, j, x). length aname - i)") auto

declare dirhash_m32.simps [simp del]

text \<open>Reference view of the hash: the fields of a name, that is the pieces between the separators.\<close>

fun dirhash_fields :: "u8 list \<Rightarrow> u8 list \<Rightarrow> u8 list list" where
  "dirhash_fields acc [] = [acc]"
| "dirhash_fields acc (c # cs) =
     (if dirhash_sep c then acc # dirhash_fields [] cs else dirhash_fields (acc @ [c]) cs)"

definition hammer2_dirhash :: "(u32 \<Rightarrow> u8 list \<Rightarrow> u32) \<Rightarrow> u8 list \<Rightarrow> hammer2_key_t" where
  "hammer2_dirhash crc32c aname =
     (let crcx = dirhash_m32 crc32c aname 0 0 0 OR 0x80000000;
          key = push_bit 32 (ucast crcx :: u64);
          l16 = hammer2_icrc32 crc32c aname;
          l16' = l16 XOR push_bit 16 l16;
          key' = key OR ucast (l16' AND 0xFFFF0000)
      in key' OR 0x8000)"

section \<open>Radixes and block sizes\<close>

text \<open>The loop \<open>while ((size_t)1 << radix < bytes) ++radix\<close>.\<close>

function getradix_loop :: "nat \<Rightarrow> nat \<Rightarrow> nat" where
  "getradix_loop radix bytes =
     (if 2 ^ radix < bytes then getradix_loop (Suc radix) bytes else radix)"
  by pat_completeness auto
termination
proof (relation "measure (\<lambda>(radix, bytes). bytes - radix)")
  fix radix bytes :: nat
  assume "2 ^ radix < bytes"
  moreover have "radix < 2 ^ radix" by (rule less_exp)
  ultimately have "radix < bytes" by linarith
  then show "((Suc radix, bytes), radix, bytes) \<in> measure (\<lambda>(radix, bytes). bytes - radix)"
    by auto
qed simp

declare getradix_loop.simps [simp del]

definition hammer2_getradix :: "nat \<Rightarrow> nat" where
  "hammer2_getradix bytes =
     getradix_loop
       (if bytes = HAMMER2_PBUFSIZE then HAMMER2_PBUFRADIX
        else if bytes \<ge> HAMMER2_LBUFSIZE then HAMMER2_LBUFRADIX
        else if bytes \<ge> HAMMER2_ALLOC_MIN then HAMMER2_RADIX_MIN
        else 0) bytes"

text \<open>\<open>hammer2_calc_logical\<close>: the block size, the base of \<open>uoff\<close> and the rounded-up end of file.\<close>

definition hammer2_calc_logical :: "hammer2_off_t \<Rightarrow> hammer2_off_t \<Rightarrow> int \<times> hammer2_key_t \<times> hammer2_key_t"
  where
  "hammer2_calc_logical meta_size uoff =
     (HAMMER2_PBUFSIZE, uoff AND NOT HAMMER2_PBUFMASK,
      (meta_size + HAMMER2_PBUFMASK) AND NOT HAMMER2_PBUFMASK)"

definition hammer2_get_logical :: int where
  "hammer2_get_logical = fst (hammer2_calc_logical 0 0)"

function calc_physical_loop :: "int \<Rightarrow> int \<Rightarrow> int" where
  "calc_physical_loop pblksize eofbytes =
     (if pblksize \<ge> eofbytes \<and> pblksize \<ge> HAMMER2_ALLOC_MIN
      then calc_physical_loop (pblksize div 2) eofbytes else pblksize)"
  by pat_completeness auto
termination
  by (relation "measure (\<lambda>(p, e). nat p)") auto

declare calc_physical_loop.simps [simp del]

definition hammer2_calc_physical :: "hammer2_off_t \<Rightarrow> hammer2_key_t \<Rightarrow> int" where
  "hammer2_calc_physical meta_size lbase =
     (let lblksize = fst (hammer2_calc_logical meta_size lbase)
      in if lbase + word_of_int lblksize \<le> meta_size then lblksize
         else if lbase \<ge> meta_size then 0
         else calc_physical_loop lblksize (sint (ucast (meta_size - lbase) :: u32)) * 2)"

section \<open>I/O statistics\<close>

record hammer2_iostat_unit =
  io_count :: u64
  io_bytes :: u64

record hammer2_iostat =
  ios_inode :: hammer2_iostat_unit
  ios_indirect :: hammer2_iostat_unit
  ios_data :: hammer2_iostat_unit
  ios_dirent :: hammer2_iostat_unit
  ios_freemap_node :: hammer2_iostat_unit
  ios_freemap_leaf :: hammer2_iostat_unit
  ios_freemap :: hammer2_iostat_unit
  ios_volume :: hammer2_iostat_unit

definition iostat_bump :: "u64 \<Rightarrow> hammer2_iostat_unit \<Rightarrow> hammer2_iostat_unit" where
  "iostat_bump bytes p = p\<lparr> io_count := io_count p + 1, io_bytes := io_bytes p + bytes \<rparr>"

definition hammer2_inc_iostat :: "hammer2_iostat \<Rightarrow> u8 \<Rightarrow> u64 \<Rightarrow> hammer2_iostat option" where
  "hammer2_inc_iostat ios btype bytes = do {
     r \<leftarrow> (if btype = HAMMER2_BREF_TYPE_INODE then Some (ios_inode_update (iostat_bump bytes) ios)
         else if btype = HAMMER2_BREF_TYPE_INDIRECT then Some (ios_indirect_update (iostat_bump bytes) ios)
         else if btype = HAMMER2_BREF_TYPE_DATA then Some (ios_data_update (iostat_bump bytes) ios)
         else if btype = HAMMER2_BREF_TYPE_DIRENT then Some (ios_dirent_update (iostat_bump bytes) ios)
         else if btype = HAMMER2_BREF_TYPE_FREEMAP_NODE then Some (ios_freemap_node_update (iostat_bump bytes) ios)
         else if btype = HAMMER2_BREF_TYPE_FREEMAP_LEAF then Some (ios_freemap_leaf_update (iostat_bump bytes) ios)
         else if btype = HAMMER2_BREF_TYPE_FREEMAP then Some (ios_freemap_update (iostat_bump bytes) ios)
         else if btype = HAMMER2_BREF_TYPE_VOLUME then Some (ios_volume_update (iostat_bump bytes) ios)
         else None);
     KKASSERT (bytes > 0);
     Some r }"

definition hammer2_breftype_to_str :: "u8 \<Rightarrow> string" where
  "hammer2_breftype_to_str t =
    (if t = HAMMER2_BREF_TYPE_EMPTY then ''empty''
     else if t = HAMMER2_BREF_TYPE_INODE then ''inode''
     else if t = HAMMER2_BREF_TYPE_INDIRECT then ''indirect''
     else if t = HAMMER2_BREF_TYPE_DATA then ''data''
     else if t = HAMMER2_BREF_TYPE_DIRENT then ''dirent''
     else if t = HAMMER2_BREF_TYPE_FREEMAP_NODE then ''freemap_node''
     else if t = HAMMER2_BREF_TYPE_FREEMAP_LEAF then ''freemap_leaf''
     else if t = HAMMER2_BREF_TYPE_INVALID then ''invalid''
     else if t = HAMMER2_BREF_TYPE_FREEMAP then ''freemap''
     else if t = HAMMER2_BREF_TYPE_VOLUME then ''volume''
     else ''unknown'')"

section \<open>Error flags and errno\<close>

datatype errno = E0 | EIO | EDOM | ENOSPC | ENOENT | ENOTEMPTY | EAGAIN | ENOTDIR | EISDIR
  | EINPROGRESS | ETIMEDOUT | EINTR | EINVAL | EEXIST | EDEADLK | ESRCH | ENOTCONN
  | EOPNOTSUPP | EOTHER int

definition hammer2_error_to_errno :: "h2error \<Rightarrow> errno" where
  "hammer2_error_to_errno error =
    (if error = 0 then E0
     else if error AND HAMMER2_ERROR_EIO \<noteq> 0 then EIO
     else if error AND HAMMER2_ERROR_CHECK \<noteq> 0 then EDOM
     else if error AND HAMMER2_ERROR_BADBREF \<noteq> 0 then EIO
     else if error AND HAMMER2_ERROR_ENOSPC \<noteq> 0 then ENOSPC
     else if error AND HAMMER2_ERROR_ENOENT \<noteq> 0 then ENOENT
     else if error AND HAMMER2_ERROR_ENOTEMPTY \<noteq> 0 then ENOTEMPTY
     else if error AND HAMMER2_ERROR_EAGAIN \<noteq> 0 then EAGAIN
     else if error AND HAMMER2_ERROR_ENOTDIR \<noteq> 0 then ENOTDIR
     else if error AND HAMMER2_ERROR_EISDIR \<noteq> 0 then EISDIR
     else if error AND HAMMER2_ERROR_EINPROGRESS \<noteq> 0 then EINPROGRESS
     else if error AND HAMMER2_ERROR_ETIMEDOUT \<noteq> 0 then ETIMEDOUT
     else if error AND HAMMER2_ERROR_ABORTED \<noteq> 0 then EINTR
     else if error AND HAMMER2_ERROR_EINVAL \<noteq> 0 then EINVAL
     else if error AND HAMMER2_ERROR_EEXIST \<noteq> 0 then EEXIST
     else if error AND HAMMER2_ERROR_EDEADLK \<noteq> 0 then EDEADLK
     else if error AND HAMMER2_ERROR_ESRCH \<noteq> 0 then ESRCH
     else if error AND HAMMER2_ERROR_ENOTCONN \<noteq> 0 then ENOTCONN
     else if error AND HAMMER2_ERROR_EOPNOTSUPP \<noteq> 0 then EOPNOTSUPP
     else EDOM)"

fun hammer2_errno_to_error :: "errno \<Rightarrow> h2error" where
  "hammer2_errno_to_error E0 = 0"
| "hammer2_errno_to_error EIO = HAMMER2_ERROR_EIO"
| "hammer2_errno_to_error EDOM = HAMMER2_ERROR_CHECK"
| "hammer2_errno_to_error ENOSPC = HAMMER2_ERROR_ENOSPC"
| "hammer2_errno_to_error ENOENT = HAMMER2_ERROR_ENOENT"
| "hammer2_errno_to_error ENOTEMPTY = HAMMER2_ERROR_ENOTEMPTY"
| "hammer2_errno_to_error EAGAIN = HAMMER2_ERROR_EAGAIN"
| "hammer2_errno_to_error ENOTDIR = HAMMER2_ERROR_ENOTDIR"
| "hammer2_errno_to_error EISDIR = HAMMER2_ERROR_EISDIR"
| "hammer2_errno_to_error EINPROGRESS = HAMMER2_ERROR_EINPROGRESS"
| "hammer2_errno_to_error ETIMEDOUT = HAMMER2_ERROR_ETIMEDOUT"
| "hammer2_errno_to_error EINTR = HAMMER2_ERROR_ABORTED"
| "hammer2_errno_to_error EINVAL = HAMMER2_ERROR_EINVAL"
| "hammer2_errno_to_error EEXIST = HAMMER2_ERROR_EEXIST"
| "hammer2_errno_to_error EOPNOTSUPP = HAMMER2_ERROR_EOPNOTSUPP"
| "hammer2_errno_to_error ENOTCONN = HAMMER2_ERROR_ENOTCONN"
| "hammer2_errno_to_error _ = HAMMER2_ERROR_EINVAL"

text \<open>\<open>hammer2_signal_check\<close> on what \<open>signal_pending(current)\<close> answers.\<close>

definition hammer2_signal_check :: "bool \<Rightarrow> errno" where
  "hammer2_signal_check signal_pending = (if signal_pending then EINTR else E0)"

section \<open>Properties\<close>

lemma vtype_roundtrip:
  "v \<notin> {VNON, VBAD} \<Longrightarrow> hammer2_get_vtype (hammer2_get_obj_type v) = v"
  by (cases v) (simp_all add: hammer2_get_vtype_def)

subsection \<open>Conversions\<close>

lemma timespec_fields:
  fixes y q :: u64
  assumes "uint y < 2 ^ 32"
  shows "ucast (word_of_int (uint (ucast y :: u32) * 1000 div 1000) :: u32)
      + word_of_int (uint q) * 1000000 = y + q * 1000000"
proof -
  have "ucast (ucast y :: u32) = y"
    using assms
    by (simp add: word_uint_eq_iff unsigned_ucast_eq take_bit_int_eq_self unsigned_take_bit_eq)
  then show ?thesis by simp
qed

lemma time_roundtrip: "hammer2_timespec_to_time (hammer2_time_to_timespec x) = x"
proof -
  have "uint x mod 1000000 < 1000000" by simp
  then have "uint (x mod 1000000) < 2 ^ 32" by (simp add: uint_mod)
  note timespec_fields [OF this, of "x div 1000000"]
  then show ?thesis
    by (simp only: hammer2_timespec_to_time_def hammer2_time_to_timespec_def
        timespec64.select_convs mod_div_mult_eq)
qed

lemma xid_roundtrip: "hammer2_to_unix_xid (hammer2_guid_to_uuid g) = g"
  by (simp add: hammer2_to_unix_xid_def hammer2_guid_to_uuid_def le_word_le_bytes_full)

subsection \<open>Radix\<close>

lemma getradix_loop_spec:
  "\<forall>s < r. 2 ^ s < bytes \<Longrightarrow>
   bytes \<le> 2 ^ getradix_loop r bytes \<and> (\<forall>s < getradix_loop r bytes. 2 ^ s < bytes)"
proof (induction r bytes rule: getradix_loop.induct)
  case (1 r bytes)
  show ?case
  proof (cases "2 ^ r < bytes")
    case True
    with 1 show ?thesis
      by (simp add: getradix_loop.simps [of r bytes] less_Suc_eq)
  next
    case False
    with 1 show ?thesis
      by (simp add: getradix_loop.simps [of r bytes])
  qed
qed

lemma pow_less_of_le: "2 ^ (r - 1) < (bytes :: nat) \<Longrightarrow> \<forall>s < r. 2 ^ s < bytes"
proof (intro allI impI)
  fix s assume b: "2 ^ (r - 1) < bytes" and s: "s < r"
  have "(2 :: nat) ^ s \<le> 2 ^ (r - 1)" using s by (intro power_increasing) auto
  with b show "2 ^ s < bytes" by linarith
qed

lemma getradix_least:
  "bytes \<le> 2 ^ hammer2_getradix bytes" "s < hammer2_getradix bytes \<Longrightarrow> 2 ^ s < bytes"
proof -
  define r where "r = (if bytes = HAMMER2_PBUFSIZE then HAMMER2_PBUFRADIX
        else if bytes \<ge> HAMMER2_LBUFSIZE then HAMMER2_LBUFRADIX
        else if bytes \<ge> HAMMER2_ALLOC_MIN then HAMMER2_RADIX_MIN
        else (0 :: nat))"
  have "r = 0 \<or> 2 ^ (r - 1) < bytes"
    by (simp add: r_def)
  then have "\<forall>s < r. 2 ^ s < bytes"
    using pow_less_of_le by blast
  from getradix_loop_spec [OF this]
  show "bytes \<le> 2 ^ hammer2_getradix bytes" "s < hammer2_getradix bytes \<Longrightarrow> 2 ^ s < bytes"
    unfolding hammer2_getradix_def r_def by blast+
qed

lemma getradix_pow: "hammer2_getradix (2 ^ r) = r"
proof (rule antisym)
  show "r \<le> hammer2_getradix (2 ^ r)"
    by (rule power_le_imp_le_exp [of "2 :: nat"]) (simp_all add: getradix_least(1))
  show "hammer2_getradix (2 ^ r) \<le> r"
    using getradix_least(2) [of r "2 ^ r"] by (meson less_irrefl not_le)
qed

subsection \<open>Directory hash\<close>

lemma dirhash_m32_fields:
  "j \<le> i \<Longrightarrow> i \<le> length aname \<Longrightarrow>
   dirhash_m32 crc32c aname i j crcx =
     crcx + (\<Sum>f \<leftarrow> filter (\<lambda>f. f \<noteq> []) (dirhash_fields (take (i - j) (drop j aname)) (drop i aname)).
        hammer2_icrc32 crc32c f)"
proof (induction crc32c aname i j crcx rule: dirhash_m32.induct)
  case (1 crc32c aname i j crcx)
  show ?case
  proof (cases "i < length aname")
    case False
    with "1.prems" show ?thesis by (subst dirhash_m32.simps) (auto simp: Let_def)
  next
    case True
    have d: "drop i aname = aname ! i # drop (Suc i) aname"
      using True by (rule Cons_nth_drop_Suc [symmetric])
    have t: "take (i - j) (drop j aname) @ [aname ! i] = take (Suc i - j) (drop j aname)"
      using True "1.prems" by (simp add: Suc_diff_le take_Suc_conv_app_nth)
    show ?thesis
    proof (cases "dirhash_sep (aname ! i)")
      case sep: True
      note IH = "1.IH"(1) [OF refl refl True sep]
      show ?thesis
        using IH True sep "1.prems"
        by (simp add: dirhash_m32.simps [of crc32c aname i j crcx] Let_def d algebra_simps)
    next
      case nosep: False
      note IH = "1.IH"(2) [OF refl refl True nosep]
      show ?thesis
        using IH True nosep "1.prems"
        by (simp add: dirhash_m32.simps [of crc32c aname i j crcx] Let_def d t)
    qed
  qed
qed

lemma dirhash_bits:
  "bit (hammer2_dirhash crc32c aname) 63"
  "hammer2_dirhash crc32c aname AND 0xFFFF = 0x8000"
proof -
  have 1: "(0x80000000 :: u32) = push_bit 31 1" "(0xFFFF0000 :: u32) = push_bit 16 (mask 16)"
    "(0xFFFF :: u64) = mask 16"
    by (simp_all add: mask_eq_exp_minus_1)
  have b: "bit (0x8000 :: int) n \<longleftrightarrow> n = 15" for n
    using bit_exp_iff [where 'a = int, of 15 n] by auto
  show "bit (hammer2_dirhash crc32c aname) 63"
    unfolding hammer2_dirhash_def Let_def 1
    by (simp add: bit_simps)
  show "hammer2_dirhash crc32c aname AND 0xFFFF = 0x8000"
    unfolding hammer2_dirhash_def Let_def 1
    by (rule bit_word_eqI) (auto simp: bit_simps b)
qed

subsection \<open>Physical block size\<close>

lemma calc_physical_loop_spec:
  "0 \<le> p \<Longrightarrow> p = 2 ^ k \<Longrightarrow> k \<ge> 9 \<Longrightarrow> (e \<le> 2 * p) \<Longrightarrow> 
   \<exists>m. calc_physical_loop p e = 2 ^ m \<and> m \<ge> 9 \<and> m \<le> k \<and> e \<le> 2 * 2 ^ m \<and> (m > 9 \<longrightarrow> 2 ^ m < e)"
proof (induction p e arbitrary: k rule: calc_physical_loop.induct)
  case (1 p e)
  show ?case
  proof (cases "p \<ge> e \<and> p \<ge> 1024")
    case True
    have k: "k \<ge> 10"
    proof (rule ccontr)
      assume "\<not> k \<ge> 10" with \<open>k \<ge> 9\<close> have "k = 9" by simp
      with 1 True show False by simp
    qed
    then obtain k' where k': "k = Suc k'" by (cases k) auto
    have "p div 2 = 2 ^ k'" using 1 k' by simp
    moreover have "e \<le> 2 * (p div 2)" using True 1 k' by simp
    ultimately obtain m where "calc_physical_loop (p div 2) e = 2 ^ m" "m \<ge> 9" "m \<le> k'"
       "e \<le> 2 * 2 ^ m" "m > 9 \<longrightarrow> 2 ^ m < e"
      using "1.IH" [OF True, of k'] k k' by auto
    then show ?thesis using True k'
      by (auto simp: calc_physical_loop.simps [of p e] intro!: exI [of _ m])
  next
    case False
    have "k > 9 \<longrightarrow> 2 ^ k < e"
    proof
      assume "k > 9"
      then have "(2::int) ^ 10 \<le> 2 ^ k" by (intro power_increasing) auto
      with False 1 show "2 ^ k < e" by auto
    qed
    moreover have "calc_physical_loop p e = p"
      using False by (auto simp: calc_physical_loop.simps [of p e])
    ultimately show ?thesis using "1.prems" by auto
  qed
qed

subsection \<open>Statements\<close>



text \<open>C24: Errors reported by the kernel and handed on as flags come back as themselves, except \<open>EDEADLK\<close>, \<open>ESRCH\<close> and the ones
  HAMMER2 has no flag for, which come back as \<open>EINVAL\<close>.\<close>

theorem errno_roundtrip:
  "hammer2_error_to_errno (hammer2_errno_to_error e) = (case e of EDEADLK \<Rightarrow> EINVAL | ESRCH \<Rightarrow> EINVAL | EOTHER _ \<Rightarrow> EINVAL | e \<Rightarrow> e)"
  by (cases e) (simp_all add: hammer2_error_to_errno_def)



text \<open>C26: The last block of a file is as small as it can be: \<open>hammer2_calc_physical\<close> gives a power of two from 1KB to 64KB that
  holds the bytes up to the end of the file, and the next smaller one does not.\<close>

theorem calc_physical_least:
  assumes "\<not> lbase + 65536 \<le> fsize" "lbase < fsize" "unat lbase + 65536 < 2 ^ 64"
  shows "\<exists>r. hammer2_calc_physical fsize lbase = 2 ^ r \<and> HAMMER2_RADIX_MIN \<le> r \<and> r \<le> HAMMER2_PBUFRADIX \<and>
     int (unat (fsize - lbase)) \<le> 2 ^ r \<and> (r > HAMMER2_RADIX_MIN \<longrightarrow> 2 ^ (r - 1) < int (unat (fsize - lbase)))"
proof -
  have 1: "unat (lbase + 65536) = unat lbase + 65536"
    using assms(3) by (subst unat_plus_if') simp
  have 2: "unat fsize < unat (lbase + 65536)"
    using assms(1) by (simp only: word_less_nat_alt [symmetric] not_le)
  have 3: "lbase \<le> fsize" using assms(2) by (rule order.strict_implies_order)
  define e where "e = unat (fsize - lbase)"
  have e: "e = unat fsize - unat lbase" using 3 by (simp only: e_def unat_sub)
  have lt: "e < 65536" using e 1 2 by linarith
  have u: "unat (ucast (fsize - lbase) :: u32) = e"
    using lt by (simp add: e_def unsigned_ucast_eq take_bit_nat_eq_self)
  have s: "sint (ucast (fsize - lbase) :: u32) = int e"
    using sint_small [of "ucast (fsize - lbase) :: u32"] lt unfolding u by simp
  have p: "(65536 :: int) = 2 ^ 16" by simp
  obtain m where m: "calc_physical_loop 65536 (int e) = 2 ^ m" "m \<ge> 9" "m \<le> 16"
    "int e \<le> 2 * 2 ^ m" "m > 9 \<longrightarrow> 2 ^ m < int e"
    using calc_physical_loop_spec [OF _ p, of "int e"] lt by auto
  have "m \<noteq> 16" using m(5) lt by auto
  have "hammer2_calc_physical fsize lbase = 2 ^ m * 2"
    using assms(1,2) by (simp add: hammer2_calc_physical_def hammer2_calc_logical_def s m(1))
  moreover have "m > 9 \<longrightarrow> 2 ^ m < int e" "int e \<le> 2 ^ m * 2" using m by auto
  ultimately show ?thesis
    unfolding e_def [symmetric]
    using m(2,3) \<open>m \<noteq> 16\<close> by (intro exI [of _ "Suc m"]) simp
qed

theorem calc_physical_least_witness:
  "\<exists>r. hammer2_calc_physical 70000 65536 = 2 ^ r \<and> 10 \<le> r \<and> r \<le> 16 \<and> int (unat (70000 - 65536 :: u64)) \<le> 2 ^ r"
proof -
  have "\<not> (65536 :: u64) + 65536 \<le> 70000" "(65536 :: u64) < 70000" "unat (65536 :: u64) + 65536 < 2 ^ 64" by simp_all
  from calc_physical_least [OF this] show ?thesis by blast
qed

end
