(* ===== verification/Hammer2_Ondisk.thy ===== *)
theory Hammer2_Ondisk
  imports Hammer2_Subr
begin

unbundle bit_operations_syntax

text \<open>
  \<^verbatim>\<open>hammer2_ondisk.c\<close>: the volume header of \<^verbatim>\<open>hammer2_disk.h\<close>, the choice among its four
  copies, the table of volumes built at mount and its verification, and the lookup of the
  volume that holds a media offset.

  The block device is given by what it answers: the bytes of each header block (or an
  error) and the size of the media.  Opening devices and printing are not modelled.
\<close>

section \<open>The volume header\<close>

abbreviation (input) HAMMER2_MAX_VOLUMES :: "'a::numeral" where "HAMMER2_MAX_VOLUMES \<equiv> 64"
abbreviation (input) HAMMER2_NUM_VOLHDRS :: "'a::numeral" where "HAMMER2_NUM_VOLHDRS \<equiv> 4"
abbreviation (input) HAMMER2_ZONE_BYTES64 :: "'a::numeral" where "HAMMER2_ZONE_BYTES64 \<equiv> 2147483648"
abbreviation (input) HAMMER2_VOLUME_ALIGNMASK64 :: "'a::numeral" where "HAMMER2_VOLUME_ALIGNMASK64 \<equiv> 8388607"
abbreviation (input) HAMMER2_VOLUME_ID_HBO :: u64 where "HAMMER2_VOLUME_ID_HBO \<equiv> 0x48414d3205172011"
abbreviation (input) HAMMER2_VOLUME_ID_ABO :: u64 where "HAMMER2_VOLUME_ID_ABO \<equiv> 0x11201705324d4148"
abbreviation (input) HAMMER2_VOL_VERSION_MIN :: "'a::one" where "HAMMER2_VOL_VERSION_MIN \<equiv> 1"
abbreviation (input) HAMMER2_VOL_VERSION_MULTI_VOLUMES :: "'a::numeral" where
  "HAMMER2_VOL_VERSION_MULTI_VOLUMES \<equiv> 2"
abbreviation (input) HAMMER2_VOL_VERSION_WIP :: "'a::numeral" where "HAMMER2_VOL_VERSION_WIP \<equiv> 3"

text \<open>The fields of \<open>struct hammer2_volume_data\<close> that the sources modelled here use.\<close>

record hammer2_volume_data =
  vd_magic :: u64
  vd_volu_size :: hammer2_off_t
  vd_version :: u32
  vd_volu_id :: u8
  vd_nvolumes :: u8
  vd_fsid :: uuid
  vd_fstype :: uuid
  vd_allocator_size :: hammer2_off_t
  vd_allocator_free :: hammer2_off_t
  vd_allocator_beg :: hammer2_off_t
  vd_mirror_tid :: hammer2_tid_t
  vd_freemap_tid :: hammer2_tid_t
  vd_bulkfree_tid :: hammer2_tid_t
  vd_total_size :: hammer2_off_t
  vd_icrc_sects :: "u32 list"
  vd_volu_loff :: "hammer2_off_t list"
  vd_icrc_volheader :: u32

text \<open>The field of \<open>n\<close> bytes at byte offset \<open>off\<close> of the header block, and the uuid there.\<close>

definition hdr_field :: "nat \<Rightarrow> nat \<Rightarrow> u8 list \<Rightarrow> 'a::len word" where
  "hdr_field off n b = le_word (take n (drop off b))"

definition hdr_uuid :: "nat \<Rightarrow> u8 list \<Rightarrow> uuid" where
  "hdr_uuid off b =
     \<lparr> time_low = hdr_field off 4 b, time_mid = hdr_field (off + 4) 2 b,
       time_hi_and_version = hdr_field (off + 6) 2 b,
       clock_seq_hi_and_reserved = hdr_field (off + 8) 1 b,
       clock_seq_low = hdr_field (off + 9) 1 b, node = take 6 (drop (off + 10) b) \<rparr>"

definition voldata_of_bytes :: "u8 list \<Rightarrow> hammer2_volume_data" where
  "voldata_of_bytes b =
     \<lparr> vd_magic = hdr_field 0x00 8 b,
       vd_volu_size = hdr_field 0x28 8 b,
       vd_version = hdr_field 0x30 4 b,
       vd_volu_id = hdr_field 0x3B 1 b,
       vd_nvolumes = hdr_field 0x3C 1 b,
       vd_fsid = hdr_uuid 0x40 b,
       vd_fstype = hdr_uuid 0x50 b,
       vd_allocator_size = hdr_field 0x60 8 b,
       vd_allocator_free = hdr_field 0x68 8 b,
       vd_allocator_beg = hdr_field 0x70 8 b,
       vd_mirror_tid = hdr_field 0x78 8 b,
       vd_freemap_tid = hdr_field 0x90 8 b,
       vd_bulkfree_tid = hdr_field 0x98 8 b,
       vd_total_size = hdr_field 0xC0 8 b,
       vd_icrc_sects = map (\<lambda>i. hdr_field (0x1E0 + 4 * i) 4 b) [0..<8],
       vd_volu_loff = map (\<lambda>i. hdr_field (0xE00 + 8 * i) 8 b) [0..<HAMMER2_MAX_VOLUMES],
       vd_icrc_volheader = hdr_field 0xFFFC 4 b \<rparr>"

definition voldata_zero :: hammer2_volume_data where
  "voldata_zero =
     (let z = \<lparr> time_low = 0, time_mid = 0, time_hi_and_version = 0,
          clock_seq_hi_and_reserved = 0, clock_seq_low = 0, node = replicate 6 0 \<rparr>
      in \<lparr> vd_magic = 0, vd_volu_size = 0, vd_version = 0, vd_volu_id = 0, vd_nvolumes = 0,
           vd_fsid = z, vd_fstype = z, vd_allocator_size = 0, vd_allocator_free = 0,
           vd_allocator_beg = 0, vd_mirror_tid = 0, vd_freemap_tid = 0, vd_bulkfree_tid = 0,
           vd_total_size = 0, vd_icrc_sects = replicate 8 0,
           vd_volu_loff = replicate HAMMER2_MAX_VOLUMES 0, vd_icrc_volheader = 0 \<rparr>)"

text \<open>
  The tests \<open>hammer2_read_volume_header\<close> makes of one header copy: the magic number,
  then the check codes of sector 0, sector 1 and the whole header.
\<close>

definition volume_header_valid :: "(u32 \<Rightarrow> u8 list \<Rightarrow> u32) \<Rightarrow> u8 list \<Rightarrow> bool" where
  "volume_header_valid crc32c b =
     (let vd = voldata_of_bytes b
      in \<not> (vd_magic vd \<noteq> HAMMER2_VOLUME_ID_HBO \<and> vd_magic vd \<noteq> HAMMER2_VOLUME_ID_ABO) \<and>
         vd_magic vd \<noteq> HAMMER2_VOLUME_ID_ABO \<and>
         vd_icrc_sects vd ! 7 = hammer2_icrc32 crc32c (take (512 - 4) b) \<and>
         vd_icrc_sects vd ! 6 = hammer2_icrc32 crc32c (take 512 (drop 512 b)) \<and>
         vd_icrc_volheader vd = hammer2_icrc32 crc32c (take (65536 - 4) b))"

text \<open>
  One turn of the loop over the copies and the loop itself.  \<open>rd i\<close> is the folio the
  page cache returns for copy \<open>i\<close> (\<open>None\<close> when the read fails); a short folio is skipped.
\<close>

definition read_header_step ::
    "(u32 \<Rightarrow> u8 list \<Rightarrow> u32) \<Rightarrow> (nat \<Rightarrow> u8 list option) \<Rightarrow> int \<Rightarrow>
     nat \<Rightarrow> nat option \<times> hammer2_volume_data \<Rightarrow> nat option \<times> hammer2_volume_data" where
  "read_header_step crc32c rd mediasize i st =
     (if int i * HAMMER2_ZONE_BYTES64 \<ge> mediasize then st
      else case rd i of
        None \<Rightarrow> st
      | Some b \<Rightarrow>
          if length b < 65536 then st
          else if \<not> volume_header_valid crc32c b then st
          else if fst st = None \<or> vd_mirror_tid (snd st) < vd_mirror_tid (voldata_of_bytes b)
          then (Some i, voldata_of_bytes b) else st)"

definition hammer2_read_volume_header ::
    "(u32 \<Rightarrow> u8 list \<Rightarrow> u32) \<Rightarrow> (nat \<Rightarrow> u8 list option) \<Rightarrow> int \<Rightarrow> hammer2_volume_data \<Rightarrow>
     nat option \<times> hammer2_volume_data" where
  "hammer2_read_volume_header crc32c rd mediasize voldata =
     fold (read_header_step crc32c rd mediasize) [0..<HAMMER2_NUM_VOLHDRS] (None, voldata)"

section \<open>The volume table\<close>

text \<open>A device of the mount: what its header copies read as, and the size of its media.\<close>

record hammer2_devvp =
  dv_open :: bool
  dv_read :: "nat \<Rightarrow> u8 list option"
  dv_mediasize :: int

record hammer2_volume =
  vol_dev :: "hammer2_devvp option"
  vol_id :: int
  vol_offset :: hammer2_off_t
  vol_size :: hammer2_off_t

definition volume_unset :: hammer2_volume where
  "volume_unset = \<lparr> vol_dev = None, vol_id = -1, vol_offset = -1, vol_size = -1 \<rparr>"

definition hammer2_fstype_uuid :: uuid where
  "hammer2_fstype_uuid =
     \<lparr> time_low = 0x5cbb9ad1, time_mid = 0x862d, time_hi_and_version = 0x11dc,
       clock_seq_hi_and_reserved = 0xa9, clock_seq_low = 0x4d,
       node = [0x01, 0x30, 0x1b, 0xb8, 0xa9, 0xf5] \<rparr>"

text \<open>
  Results of the verification: \<open>None\<close> is a volume in use without a device (its \<open>dev\<close>
  is dereferenced), \<open>Some e\<close> the errno the function returns.
\<close>

definition verify_volume_common :: "hammer2_volume \<Rightarrow> errno option" where
  "verify_volume_common vol =
     (if vol_id vol = -1 then Some E0
      else case vol_dev vol of
        None \<Rightarrow> None
      | Some dev \<Rightarrow> Some (
          if \<not> dv_open dev then EINVAL
          else if vol_offset vol = -1 then EINVAL
          else if vol_size vol = -1 then EINVAL
          else if uint (vol_size vol) > dv_mediasize dev then EINVAL
          else if vol_size vol = 0 then EINVAL
          else E0))"

text \<open>The first error of a list of checks, in order.\<close>

fun first_error :: "errno option list \<Rightarrow> errno option" where
  "first_error [] = Some E0"
| "first_error (r # rs) = do { e \<leftarrow> r; if e = E0 then first_error rs else Some e }"

definition hammer2_verify_volumes_common ::
    "hammer2_volume list \<Rightarrow> hammer2_volume_data \<Rightarrow> errno option" where
  "hammer2_verify_volumes_common volumes rootvoldata =
     (if vd_volu_id rootvoldata \<noteq> 0 then Some EINVAL
      else if vd_fstype rootvoldata \<noteq> hammer2_fstype_uuid then Some EINVAL
      else first_error (map verify_volume_common volumes))"

definition hammer2_verify_volumes_1 ::
    "hammer2_volume list \<Rightarrow> hammer2_volume_data \<Rightarrow> errno option" where
  "hammer2_verify_volumes_1 volumes rootvoldata =
     (let nvolumes = length (filter (\<lambda>v. vol_id v \<noteq> -1) volumes)
      in if nvolumes \<noteq> 1 then Some EINVAL
         else if vd_nvolumes rootvoldata \<noteq> 0 then Some EINVAL
         else if vd_total_size rootvoldata \<noteq> 0 then Some EINVAL
         else if \<exists>off \<in> set (vd_volu_loff rootvoldata). off \<noteq> 0 then Some EINVAL
         else let vol = volumes ! 0 in
           if Option.is_none (vol_dev vol) then None
           else if vol_id vol \<noteq> 0 then Some EINVAL
           else if vol_offset vol \<noteq> 0 then Some EINVAL
           else if vol_size vol AND HAMMER2_VOLUME_ALIGNMASK64 \<noteq> 0 then Some EINVAL
           else Some E0)"

definition verify_volume_2 ::
    "hammer2_volume list \<Rightarrow> hammer2_volume_data \<Rightarrow> nat \<Rightarrow> errno option" where
  "verify_volume_2 volumes rootvoldata i =
     (let vol = volumes ! i in
      if vol_id vol = -1 then Some E0
      else if Option.is_none (vol_dev vol) then None
      else Some (
        if vol_offset vol AND HAMMER2_FREEMAP_LEVEL1_MASK \<noteq> 0 then EINVAL
        else if i \<noteq> 0 \<and> vol_id vol \<le> vol_id (volumes ! (i - 1)) then EINVAL
        else if i \<noteq> 0 \<and>
          vol_offset vol \<noteq> vol_offset (volumes ! (i - 1)) + vol_size (volumes ! (i - 1)) then EINVAL
        else if i = 0 \<and> vol_offset vol \<noteq> 0 then EINVAL
        else if int i \<noteq> uint (vd_nvolumes rootvoldata) - 1 then
          (if vol_size vol < HAMMER2_FREEMAP_LEVEL1_SIZE then EINVAL
           else if vol_size vol AND HAMMER2_FREEMAP_LEVEL1_MASK \<noteq> 0 then EINVAL else E0)
        else
          (if vol_size vol AND HAMMER2_VOLUME_ALIGNMASK64 \<noteq> 0 then EINVAL else E0)))"

definition hammer2_verify_volumes_2 ::
    "hammer2_volume list \<Rightarrow> hammer2_volume_data \<Rightarrow> errno option" where
  "hammer2_verify_volumes_2 volumes rootvoldata =
     (let used = filter (\<lambda>v. vol_id v \<noteq> -1) volumes;
          nvolumes = length used;
          total_size = (\<Sum>v \<leftarrow> used. vol_size v)
      in if int nvolumes \<noteq> uint (vd_nvolumes rootvoldata) then Some EINVAL
         else if vd_total_size rootvoldata \<noteq> total_size then Some EINVAL
         else if \<exists>i \<in> set [0..<nvolumes]. vd_volu_loff rootvoldata ! i = -1 then Some EINVAL
         else if \<exists>i \<in> set [nvolumes..<HAMMER2_MAX_VOLUMES]. vd_volu_loff rootvoldata ! i \<noteq> -1 then Some EINVAL
         else first_error (map (verify_volume_2 volumes rootvoldata) [0..<HAMMER2_MAX_VOLUMES]))"

definition hammer2_verify_volumes ::
    "hammer2_volume list \<Rightarrow> hammer2_volume_data \<Rightarrow> errno option" where
  "hammer2_verify_volumes volumes rootvoldata = do {
     error \<leftarrow> hammer2_verify_volumes_common volumes rootvoldata;
     if error \<noteq> E0 then Some error
     else if vd_version rootvoldata \<ge> HAMMER2_VOL_VERSION_MULTI_VOLUMES
     then hammer2_verify_volumes_2 volumes rootvoldata
     else hammer2_verify_volumes_1 volumes rootvoldata }"

abbreviation (input) ENXIO :: errno where "ENXIO \<equiv> EOTHER 6"

text \<open>
  \<open>hammer2_init_volumes\<close>: the locals and out-parameters as a record, the body of the
  loop over the devices, the loop with its \<open>goto done\<close> on the first error, and the
  checks after it.
\<close>

record init_volumes_state =
  iv_volumes :: "hammer2_volume list"
  iv_rootvoldata :: hammer2_volume_data
  iv_rootvolzone :: "nat option"
  iv_rootvoldevvp :: "hammer2_devvp option"
  iv_voldata :: hammer2_volume_data
  iv_v :: int
  iv_nvolumes :: u8
  iv_fsid :: uuid
  iv_fstype :: uuid

definition init_volumes_start :: init_volumes_state where
  "init_volumes_start =
     \<lparr> iv_volumes = replicate HAMMER2_MAX_VOLUMES volume_unset, iv_rootvoldata = voldata_zero,
       iv_rootvolzone = None, iv_rootvoldevvp = None, iv_voldata = voldata_zero,
       iv_v = -1, iv_nvolumes = 0, iv_fsid = vd_fsid voldata_zero, iv_fstype = vd_fstype voldata_zero \<rparr>"

definition init_volume ::
    "(u32 \<Rightarrow> u8 list \<Rightarrow> u32) \<Rightarrow> hammer2_devvp \<Rightarrow> init_volumes_state \<Rightarrow>
     (errno \<times> init_volumes_state) option" where
  "init_volume crc32c e st = do {
     KKASSERT (dv_open e);
     let (zone, voldata) =
       hammer2_read_volume_header crc32c (dv_read e) (dv_mediasize e) (iv_voldata st);
     let st = st\<lparr> iv_voldata := voldata \<rparr>;
     let id = unat (vd_volu_id voldata);
     let first = (iv_v st = -1);
     if zone = None then Some (EINVAL, st)
     else if id \<ge> HAMMER2_MAX_VOLUMES then Some (EINVAL, st)
     else if vol_id (iv_volumes st ! id) \<noteq> -1 then Some (EINVAL, st)
     else if \<not> first \<and> iv_v st \<noteq> sint (vd_version voldata) then Some (ENXIO, st)
     else if \<not> first \<and> iv_nvolumes st \<noteq> vd_nvolumes voldata then Some (ENXIO, st)
     else if \<not> first \<and> iv_fsid st \<noteq> vd_fsid voldata then Some (ENXIO, st)
     else if \<not> first \<and> iv_fstype st \<noteq> vd_fstype voldata then Some (ENXIO, st)
     else do {
       let st = (if first then
           st\<lparr> iv_v := sint (vd_version voldata), iv_nvolumes := vd_nvolumes voldata,
               iv_fsid := vd_fsid voldata, iv_fstype := vd_fstype voldata \<rparr> else st);
       if iv_v st < HAMMER2_VOL_VERSION_MIN \<or> iv_v st > HAMMER2_VOL_VERSION_WIP
       then Some (EINVAL, st)
       else do {
         let vol = \<lparr> vol_dev = Some e, vol_id = int id,
           vol_offset = vd_volu_loff voldata ! id, vol_size = vd_volu_size voldata \<rparr>;
         let st = st\<lparr> iv_volumes := (iv_volumes st)[id := vol] \<rparr>;
         if id = 0 then do {
           KKASSERT (Option.is_none (iv_rootvoldevvp st));
           Some (E0, st\<lparr> iv_rootvoldata := voldata, iv_rootvolzone := zone, iv_rootvoldevvp := Some e \<rparr>)
         } else Some (E0, st) } } }"

fun init_volumes_loop ::
    "(u32 \<Rightarrow> u8 list \<Rightarrow> u32) \<Rightarrow> hammer2_devvp list \<Rightarrow> init_volumes_state \<Rightarrow>
     (errno \<times> init_volumes_state) option" where
  "init_volumes_loop crc32c [] st = Some (E0, st)"
| "init_volumes_loop crc32c (e # es) st = do {
     (error, st') \<leftarrow> init_volume crc32c e st;
     if error \<noteq> E0 then Some (error, st') else init_volumes_loop crc32c es st' }"

definition hammer2_init_volumes ::
    "(u32 \<Rightarrow> u8 list \<Rightarrow> u32) \<Rightarrow> hammer2_devvp list \<Rightarrow> (errno \<times> init_volumes_state) option" where
  "hammer2_init_volumes crc32c devvpl = do {
     (error, st) \<leftarrow> init_volumes_loop crc32c devvpl init_volumes_start;
     if error \<noteq> E0 then Some (error, st)
     else if vd_version (iv_rootvoldata st) = 0 then Some (EINVAL, st)
     else do {
       error \<leftarrow> hammer2_verify_volumes (iv_volumes st) (iv_rootvoldata st);
       Some (error, st) } }"

section \<open>The volume of an offset\<close>

text \<open>
  \<open>hammer2_get_volume\<close> on the first \<open>nvolumes\<close> slots: the outer option is the
  assertions on the volume found, the inner one its \<open>NULL\<close> result after \<open>hpanic\<close>.
\<close>

definition hammer2_get_volume ::
    "hammer2_volume list \<Rightarrow> hammer2_off_t \<Rightarrow> hammer2_volume option option" where
  "hammer2_get_volume volumes offset =
     (let off = offset AND NOT HAMMER2_OFF_MASK_RADIX in
      case find (\<lambda>vol. off \<ge> vol_offset vol \<and> off < vol_offset vol + vol_size vol) volumes of
        None \<Rightarrow> Some None
      | Some ret \<Rightarrow> (case vol_dev ret of
            None \<Rightarrow> None
          | Some dev \<Rightarrow> do { KKASSERT (dv_open dev); Some (Some ret) }))"

section \<open>Properties\<close>

subsection \<open>The choice of the header\<close>

text \<open>Copy \<open>i\<close> can be used: it lies on the media, was read whole and passes its checks.\<close>

definition header_usable ::
    "(u32 \<Rightarrow> u8 list \<Rightarrow> u32) \<Rightarrow> (nat \<Rightarrow> u8 list option) \<Rightarrow> int \<Rightarrow> nat \<Rightarrow> bool" where
  "header_usable crc32c rd mediasize i \<longleftrightarrow>
     int i * HAMMER2_ZONE_BYTES64 < mediasize \<and>
     (case rd i of None \<Rightarrow> False | Some b \<Rightarrow> length b \<ge> 65536 \<and> volume_header_valid crc32c b)"

abbreviation header_at :: "(nat \<Rightarrow> u8 list option) \<Rightarrow> nat \<Rightarrow> hammer2_volume_data" where
  "header_at rd i \<equiv> voldata_of_bytes (the (rd i))"

definition header_best ::
    "(u32 \<Rightarrow> u8 list \<Rightarrow> u32) \<Rightarrow> (nat \<Rightarrow> u8 list option) \<Rightarrow> int \<Rightarrow> nat \<Rightarrow> hammer2_volume_data \<Rightarrow>
     nat option \<times> hammer2_volume_data \<Rightarrow> bool" where
  "header_best crc32c rd mediasize n voldata res =
     (case fst res of
        None \<Rightarrow> snd res = voldata \<and> (\<forall>i < n. \<not> header_usable crc32c rd mediasize i)
      | Some z \<Rightarrow> z < n \<and> header_usable crc32c rd mediasize z \<and> snd res = header_at rd z \<and>
          (\<forall>i < n. header_usable crc32c rd mediasize i \<longrightarrow>
             vd_mirror_tid (header_at rd i) \<le> vd_mirror_tid (snd res) \<and>
             (i < z \<longrightarrow> vd_mirror_tid (header_at rd i) < vd_mirror_tid (snd res))))"

lemma read_header_step_eq:
  "read_header_step crc32c rd mediasize i st =
     (if header_usable crc32c rd mediasize i \<and>
         (fst st = None \<or> vd_mirror_tid (snd st) < vd_mirror_tid (header_at rd i))
      then (Some i, header_at rd i) else st)"
  by (auto simp: read_header_step_def header_usable_def split: option.splits)

lemma read_header_best:
  "header_best crc32c rd mediasize n voldata
     (fold (read_header_step crc32c rd mediasize) [0..<n] (None, voldata))"
proof (induction n)
  case 0
  show ?case by (simp add: header_best_def)
next
  case (Suc n)
  then show ?case
    by (force simp: header_best_def read_header_step_eq less_Suc_eq split: option.splits)
qed

subsection \<open>The volume table\<close>

lemma first_error_ok: "first_error rs = Some E0 \<longleftrightarrow> (\<forall>r \<in> set rs. r = Some E0)"
  by (induction rs) (auto split: bind_splits if_splits)

text \<open>
  What \<open>hammer2_init_volumes\<close> establishes of the table: every slot is unset, or in use
  by an open device under the id that is its index.
\<close>

definition volume_table :: "hammer2_volume list \<Rightarrow> bool" where
  "volume_table volumes \<longleftrightarrow> length volumes = HAMMER2_MAX_VOLUMES \<and>
     (\<forall>i < HAMMER2_MAX_VOLUMES. volumes ! i = volume_unset \<or>
        vol_id (volumes ! i) = int i \<and> (\<exists>dev. vol_dev (volumes ! i) = Some dev \<and> dv_open dev))"

lemma volume_table_update:
  assumes "volume_table vs" "vol_dev v = Some e" "dv_open e" "vol_id v = int k"
  shows "volume_table (vs[k := v])"
  unfolding volume_table_def
proof (intro conjI allI impI)
  show "length (vs[k := v]) = 64" using assms by (simp add: volume_table_def)
  fix i :: nat assume "i < 64"
  then show "vs[k := v] ! i = volume_unset \<or> vol_id (vs[k := v] ! i) = int i \<and>
      (\<exists>dev. vol_dev (vs[k := v] ! i) = Some dev \<and> dv_open dev)"
    using assms by (cases "i = k") (auto simp: volume_table_def)
qed

lemma init_volume_table:
  "init_volume crc32c e st = Some (err, st') \<Longrightarrow> volume_table (iv_volumes st) \<Longrightarrow>
   volume_table (iv_volumes st')"
  unfolding init_volume_def
  by (auto simp: Let_def unsigned_eq_0_iff intro!: volume_table_update split: prod.splits if_splits)

lemma init_volumes_loop_table:
  "init_volumes_loop crc32c es st = Some (err, st') \<Longrightarrow> volume_table (iv_volumes st) \<Longrightarrow>
   volume_table (iv_volumes st')"
proof (induction es arbitrary: st)
  case (Cons e es)
  then show ?case
    by (auto split: bind_splits if_splits dest: init_volume_table)
qed simp

lemma volume_table_start: "volume_table (iv_volumes init_volumes_start)"
  by (simp add: volume_table_def init_volumes_start_def)

lemma init_volumes_table:
  "hammer2_init_volumes crc32c devvpl = Some (err, st) \<Longrightarrow> volume_table (iv_volumes st)"
  unfolding hammer2_init_volumes_def
  by (auto split: bind_splits if_splits dest!: init_volumes_loop_table intro: volume_table_start)

lemma volume_unset_sel [simp]:
  "vol_id volume_unset = -1" "vol_offset volume_unset = -1" "vol_size volume_unset = -1"
  by (simp_all add: volume_unset_def)

lemma verify_volumes_2D:
  assumes ok: "hammer2_verify_volumes_2 vs root = Some E0"
  shows "int (length (filter (\<lambda>v. vol_id v \<noteq> -1) vs)) = uint (vd_nvolumes root)"
    and "vd_total_size root = (\<Sum>v \<leftarrow> filter (\<lambda>v. vol_id v \<noteq> -1) vs. vol_size v)"
    and "i < 64 \<Longrightarrow> verify_volume_2 vs root i = Some E0"
  using ok unfolding hammer2_verify_volumes_2_def Let_def first_error_ok
  by (auto simp only: option.inject errno.distinct simp_thms first_error_ok set_map set_upt
      atLeastLessThan_iff image_iff ball_simps split: if_split_asm)

lemma verify_volumes_2_used:
  assumes tab: "volume_table vs" and ok: "hammer2_verify_volumes_2 vs root = Some E0"
    and i: "i < 64"
  shows "vol_id (vs ! i) \<noteq> -1 \<longleftrightarrow> i < unat (vd_nvolumes root)"
proof -
  define U where "U = {i. i < 64 \<and> vol_id (vs ! i) \<noteq> -1}"
  note each = verify_volumes_2D(3) [OF ok]
  have "i \<in> U" if "Suc i \<in> U" for i
  proof (rule ccontr)
    assume "i \<notin> U"
    with that have "i < 64" "vol_id (vs ! i) = -1" by (auto simp: U_def)
    then have "vs ! i = volume_unset"
      using tab [unfolded volume_table_def, THEN conjunct2, THEN spec, of i] by simp
    moreover from that have "vol_id (vs ! Suc i) \<noteq> -1" "Suc i < 64" by (auto simp: U_def)
    ultimately show False using each [of "Suc i"]
      by (auto simp: verify_volume_2_def Let_def split: if_splits)
  qed
  then have "U = {..<card U}" by (intro down_closed_card) (auto simp: U_def)
  moreover have "card U = unat (vd_nvolumes root)"
  proof -
    note verify_volumes_2D(1) [OF ok]
    moreover have "length (filter (\<lambda>v. vol_id v \<noteq> -1) vs) = card U"
      using tab by (simp add: length_filter_conv_card U_def volume_table_def)
    ultimately have "int (card U) = int (unat (vd_nvolumes root))" by simp
    then show ?thesis by (simp only: of_nat_eq_iff)
  qed
  ultimately have "U = {..<unat (vd_nvolumes root)}" by simp
  then have "i \<in> U \<longleftrightarrow> i < unat (vd_nvolumes root)" by blast
  then show ?thesis using i by (simp add: U_def)
qed

lemma verify_volumes_2_count:
  assumes "volume_table vs" "hammer2_verify_volumes_2 vs root = Some E0"
  shows "unat (vd_nvolumes root) \<le> 64"
proof -
  note verify_volumes_2D(1) [OF assms(2)]
  moreover have "length (filter (\<lambda>v. vol_id v \<noteq> -1) vs) \<le> 64"
    using assms length_filter_le [of _ vs] by (simp add: volume_table_def)
  ultimately have "int (unat (vd_nvolumes root)) \<le> int 64" by simp
  then show ?thesis by (simp only: of_nat_le_iff)
qed

lemma verify_volumes_2_offset:
  assumes tab: "volume_table vs" and ok: "hammer2_verify_volumes_2 vs root = Some E0"
    and i: "i < unat (vd_nvolumes root)"
  shows "vol_offset (vs ! i) = (\<Sum>j < i. vol_size (vs ! j))"
  using i
proof (induction i)
  note n = verify_volumes_2_count [OF tab ok]
  have each: "verify_volume_2 vs root i = Some E0" "vol_id (vs ! i) \<noteq> -1"
    if "i < unat (vd_nvolumes root)" for i
    using that n verify_volumes_2_used [OF tab ok, of i] verify_volumes_2D(3) [OF ok, of i] by auto
  {
    case 0
    then show ?case using each [of 0] by (auto simp: verify_volume_2_def Let_def split: if_splits)
  next
    case (Suc i)
    then show ?case using each [of "Suc i"]
      by (auto simp: verify_volume_2_def Let_def add.commute split: if_splits)
  }
qed

lemma verify_volumes_2_total:
  assumes tab: "volume_table vs" and ok: "hammer2_verify_volumes_2 vs root = Some E0"
  shows "vd_total_size root = (\<Sum>j < unat (vd_nvolumes root). vol_size (vs ! j))"
proof -
  have "filter (\<lambda>v. vol_id v \<noteq> -1) vs = take (unat (vd_nvolumes root)) vs"
    using verify_volumes_2_used [OF tab ok] tab by (intro filter_prefix) (auto simp: volume_table_def)
  moreover note verify_volumes_2D(2) [OF ok]
  moreover have "unat (vd_nvolumes root) \<le> length vs"
    using verify_volumes_2_count [OF tab ok] tab by (simp add: volume_table_def)
  ultimately show ?thesis by (simp add: sum_list_take)
qed


text \<open>In a verified table the volumes tile \<open>[0, total_size)\<close>: offsets are prefix sums.\<close>

lemma verify_volumes_2_nat:
  assumes tab: "volume_table vs" and ok: "hammer2_verify_volumes_2 vs root = Some E0"
    and nowrap: "(\<Sum>j < unat (vd_nvolumes root). unat (vol_size (vs ! j))) < 2 ^ 64"
    and i: "i < unat (vd_nvolumes root)"
  shows "unat (vol_offset (vs ! i)) = (\<Sum>j < i. unat (vol_size (vs ! j)))"
proof -
  have "(\<Sum>j < i. unat (vol_size (vs ! j))) < 2 ^ 64"
    using prefix_sum_mono [of i "unat (vd_nvolumes root)" "\<lambda>j. unat (vol_size (vs ! j))"] i nowrap
    by simp
  then show ?thesis
    by (simp add: verify_volumes_2_offset [OF tab ok i] unat_sum_words)
qed

lemma off_mask_le: "(off :: u64) AND NOT HAMMER2_OFF_MASK_RADIX \<le> off"
  by (simp add: word_and_le2)

lemma word_in_range:
  assumes "unat o1 + unat s < 2 ^ 64"
  shows "(x :: u64) \<ge> o1 \<and> x < o1 + s \<longleftrightarrow> unat o1 \<le> unat x \<and> unat x < unat o1 + unat s"
  using assms by (simp add: word_le_nat_alt word_less_nat_alt unat_word_ariths(1))

lemma get_volume_covers:
  assumes tab: "volume_table vs" and ok: "hammer2_verify_volumes_2 vs root = Some E0"
    and nowrap: "(\<Sum>j < unat (vd_nvolumes root). unat (vol_size (vs ! j))) < 2 ^ 64"
    and off: "off < vd_total_size root"
  defines "x \<equiv> unat (off AND NOT HAMMER2_OFF_MASK_RADIX)"
  obtains i where "i < unat (vd_nvolumes root)"
    "hammer2_get_volume (take (unat (vd_nvolumes root)) vs) off = Some (Some (vs ! i))"
    "unat (vol_offset (vs ! i)) \<le> x" "x < unat (vol_offset (vs ! i)) + unat (vol_size (vs ! i))"
proof -
  let ?n = "unat (vd_nvolumes root)"
  let ?f = "\<lambda>j. unat (vol_size (vs ! j))"
  let ?P = "\<lambda>vol. off AND NOT HAMMER2_OFF_MASK_RADIX \<ge> vol_offset vol \<and>
     off AND NOT HAMMER2_OFF_MASK_RADIX < vol_offset vol + vol_size vol"
  note len = verify_volumes_2_count [OF tab ok]
  note 64 = nowrap
  have at: "unat (vol_offset (vs ! j)) = (\<Sum>k < j. ?f k)" if "j < ?n" for j
    using verify_volumes_2_nat [OF tab ok 64 that] .
  have fits: "unat (vol_offset (vs ! j)) + ?f j < 2 ^ 64" if "j < ?n" for j
    using prefix_sum_mono [of "Suc j" ?n ?f] that 64 by (simp add: at [OF that])
  have P: "?P (vs ! j) \<longleftrightarrow> (\<Sum>k < j. ?f k) \<le> x \<and> x < (\<Sum>k < j. ?f k) + ?f j" if "j < ?n" for j
    using word_in_range [OF fits [OF that]] by (simp add: x_def at [OF that])
  have "x \<le> unat off" unfolding x_def using off_mask_le by (simp only: word_le_nat_alt)
  also have "unat off < (\<Sum>k < ?n. ?f k)"
    using off unat_sum_words [of "\<lambda>j. vol_size (vs ! j)" ?n] 64
    by (simp add: word_less_nat_alt verify_volumes_2_total [OF tab ok])
  finally obtain i where i: "i < ?n" "(\<Sum>k < i. ?f k) \<le> x" "x < (\<Sum>k < i. ?f k) + ?f i"
    using prefix_sum_find by blast
  have nth: "take ?n vs ! j = vs ! j" "j < length (take ?n vs)" if "j < ?n" for j
    using that len tab by (auto simp: volume_table_def)
  have "\<not> ?P (take ?n vs ! j)" if "j < i" for j
    using that P [of j] i prefix_sum_unique [of ?f j x i] nth [of j] by auto
  moreover have "?P (take ?n vs ! i)" using i P [OF i(1)] nth [of i] by simp
  ultimately have "find ?P (take ?n vs) = Some (vs ! i)"
    unfolding find_Some_iff using nth [OF i(1)] by (intro exI [of _ i]) simp
  moreover have "\<exists>dev. vol_dev (vs ! i) = Some dev \<and> dv_open dev"
    using verify_volumes_2_used [OF tab ok, of i] i len
      tab [unfolded volume_table_def, THEN conjunct2, THEN spec, of i] by auto
  ultimately have "hammer2_get_volume (take ?n vs) off = Some (Some (vs ! i))"
    by (auto simp: hammer2_get_volume_def Let_def)
  with i show ?thesis by (intro that [of i]) (simp_all add: at)
qed

text \<open>The media offset \<open>off\<close>, its radix bits masked off, lies in the volume.\<close>

definition volume_holds :: "hammer2_volume \<Rightarrow> hammer2_off_t \<Rightarrow> bool" where
  "volume_holds vol off \<longleftrightarrow>
     unat (vol_offset vol) \<le> unat (off AND NOT HAMMER2_OFF_MASK_RADIX) \<and>
     unat (off AND NOT HAMMER2_OFF_MASK_RADIX) < unat (vol_offset vol) + unat (vol_size vol)"

subsection \<open>Main properties\<close>

text \<open>C12: \<open>hammer2_read_volume_header\<close> returns the newest usable copy of the volume header: the
  copy returned lies on the media, was read whole and passes the magic and all three check
  codes, no usable copy has a larger \<open>mirror_tid\<close> and none before it has the same; it
  returns no zone, and leaves \<open>voldata\<close> alone, exactly when no copy is usable.\<close>

theorem read_volume_header_newest:
  "header_best crc32c rd mediasize HAMMER2_NUM_VOLHDRS voldata
     (hammer2_read_volume_header crc32c rd mediasize voldata)"
  unfolding hammer2_read_volume_header_def by (rule read_header_best)


definition ex_devvp :: hammer2_devvp where
  "ex_devvp = \<lparr> dv_open = True, dv_read = (\<lambda>_. None), dv_mediasize = 8388608 * 256 \<rparr>"

definition ex_volumes :: "hammer2_volume list" where
  "ex_volumes =
     [\<lparr> vol_dev = Some ex_devvp, vol_id = 0, vol_offset = 0, vol_size = 1073741824 \<rparr>,
      \<lparr> vol_dev = Some ex_devvp, vol_id = 1, vol_offset = 1073741824, vol_size = 8388608 \<rparr>] @
     replicate 62 volume_unset"

definition ex_root :: hammer2_volume_data where
  "ex_root = voldata_zero\<lparr> vd_version := 2, vd_fstype := hammer2_fstype_uuid, vd_nvolumes := 2,
     vd_total_size := 1073741824 + 8388608,
     vd_volu_loff := [0, 1073741824] @ replicate 62 (-1) \<rparr>"

lemma ex_volumes_table: "volume_table ex_volumes"
  by (auto simp: volume_table_def ex_volumes_def ex_devvp_def nth_Cons nth_append split: nat.splits)


end
