(* ===== verification/Hammer2_Io.thy ===== *)
theory Hammer2_Io
  imports Hammer2_Ondisk "HOL-Library.Signed_Division"
begin

unbundle bit_operations_syntax

text \<open>
  \<^verbatim>\<open>hammer2_io.c\<close>: the device I/O layer, one \<open>hammer2_io\<close> (a dio) per 64KB physical
  buffer.  The hash table of dios, their reference counts and flag bits in one 64-bit word,
  the get and put of a block, the clean-out of unused dios, and the dedup bits that
  interlock the allocator with the bulk free scan.

  A dio is named by its \<open>pbase\<close>, which the hash table keeps unique.  What the page cache
  answers when a block is read or grabbed is an argument (\<open>blk_res\<close>: a folio or a private
  buffer with its bytes, or an errno); a block handed back to the page cache for writing is
  recorded in \<open>io_written\<close>.  Locks are held for the length of each operation, so the
  operations are atomic state transformers.  A connection device (\<open>rconn\<close>) is not modelled.
\<close>

section \<open>State\<close>

abbreviation (input) HAMMER2_DIO_GOOD :: u64 where "HAMMER2_DIO_GOOD \<equiv> 0x4000000000000000"
abbreviation (input) HAMMER2_DIO_DIRTY :: u64 where "HAMMER2_DIO_DIRTY \<equiv> 0x1000000000000000"
abbreviation (input) HAMMER2_DIO_FLUSH :: u64 where "HAMMER2_DIO_FLUSH \<equiv> 0x0800000000000000"
abbreviation (input) HAMMER2_DIO_MASK :: u64 where "HAMMER2_DIO_MASK \<equiv> 0x00FFFFFFFFFFFFFF"
abbreviation (input) HAMMER2_IOHASH_SIZE :: "'a::numeral" where "HAMMER2_IOHASH_SIZE \<equiv> 32768"
abbreviation (input) HAMMER2_IOHASH_MASK :: "'a::numeral" where "HAMMER2_IOHASH_MASK \<equiv> 32767"

text \<open>The block a dio holds: none, a page cache folio, or a buffer of its own.\<close>

datatype dio_block = NoBlock | Folio "u8 list" | Buf "u8 list"

datatype blk_res = BlkFolio "u8 list" | BlkBuf "u8 list" | BlkErr int

record hammer2_io =
  dio_pbase :: hammer2_off_t
  dio_dbase :: hammer2_off_t
  dio_refs :: u64
  dio_act :: int
  dio_btype :: u8
  dio_ticks :: int
  dio_error :: int
  dio_dedup_valid :: u64
  dio_dedup_alloc :: u64
  dio_block :: dio_block

text \<open>
  The part of \<open>hammer2_dev\<close> the layer uses, with the tunables and clock it reads and the
  module-wide error mark; \<open>hmp_volumes\<close> is the first \<open>nvolumes\<close> slots of \<open>volumes\<close>.
\<close>

record hammer2_iodev =
  iohash :: "nat \<Rightarrow> hammer2_io list"
  iofree_count :: int
  io_iterator :: u32
  hmp_volumes :: "hammer2_volume list"
  iostat_read :: hammer2_iostat
  iostat_write :: hammer2_iostat
  count_dio_allocated :: int
  device_error :: bool
  io_written :: "(hammer2_off_t \<times> u8 list \<times> bool) list"
  now_ticks :: int
  kern_hz :: int
  hammer2_dio_limit :: int

text \<open>\<open>hpanic\<close> of the default build.\<close>

definition hpanic :: "'a hammer2_iodev_scheme \<Rightarrow> 'a hammer2_iodev_scheme" where
  "hpanic hmp = hmp\<lparr> device_error := True \<rparr>"

section \<open>The hash table\<close>

definition hammer2_io_hashv :: "hammer2_off_t \<Rightarrow> nat" where
  "hammer2_io_hashv pbase =
     unat (((ucast pbase :: u32) + ucast (drop_bit 16 pbase)) AND HAMMER2_IOHASH_MASK)"

text \<open>Reading and writing through a pointer to the dio at \<open>pbase\<close>.\<close>

definition dio_get :: "'a hammer2_iodev_scheme \<Rightarrow> hammer2_off_t \<Rightarrow> hammer2_io option" where
  "dio_get hmp pbase = find (\<lambda>d. dio_pbase d = pbase) (iohash hmp (hammer2_io_hashv pbase))"

fun dio_update :: "hammer2_off_t \<Rightarrow> (hammer2_io \<Rightarrow> hammer2_io) \<Rightarrow> hammer2_io list \<Rightarrow> hammer2_io list" where
  "dio_update pbase f [] = []"
| "dio_update pbase f (d # ds) =
     (if dio_pbase d = pbase then f d # ds else d # dio_update pbase f ds)"

definition dio_set :: "hammer2_off_t \<Rightarrow> (hammer2_io \<Rightarrow> hammer2_io) \<Rightarrow>
    'a hammer2_iodev_scheme \<Rightarrow> 'a hammer2_iodev_scheme" where
  "dio_set pbase f hmp =
     hmp\<lparr> iohash := (iohash hmp)(hammer2_io_hashv pbase :=
            dio_update pbase f (iohash hmp (hammer2_io_hashv pbase))) \<rparr>"

text \<open>A reference is taken; a dio that was free leaves the count of free dios.\<close>

definition dio_ref_found :: "'a hammer2_iodev_scheme \<Rightarrow> hammer2_io \<Rightarrow> 'a hammer2_iodev_scheme" where
  "dio_ref_found hmp dio =
     (let hmp = dio_set (dio_pbase dio) (\<lambda>d. d\<lparr> dio_refs := dio_refs d + 1 \<rparr>) hmp
      in if dio_refs dio AND HAMMER2_DIO_MASK = 0
         then hmp\<lparr> iofree_count := iofree_count hmp - 1 \<rparr> else hmp)"

definition hammer2_assert_io_refs :: "'a hammer2_iodev_scheme \<Rightarrow> hammer2_off_t \<Rightarrow> unit option" where
  "hammer2_assert_io_refs hmp pbase = do {
     dio \<leftarrow> dio_get hmp pbase;
     KKASSERT (dio_refs dio AND HAMMER2_DIO_MASK \<noteq> 0) }"

definition hammer2_io_hash_lookup ::
    "'a hammer2_iodev_scheme \<Rightarrow> hammer2_off_t \<Rightarrow> ('a hammer2_iodev_scheme \<times> bool) option" where
  "hammer2_io_hash_lookup hmp pbase =
     (case dio_get hmp pbase of
        None \<Rightarrow> Some (hmp, False)
      | Some dio \<Rightarrow> do {
          let hmp = dio_ref_found hmp dio;
          hammer2_assert_io_refs hmp pbase;
          Some (hmp, True) })"

text \<open>\<open>True\<close>: the table already had a dio there, which is referenced instead.\<close>

definition hammer2_io_hash_enter ::
    "'a hammer2_iodev_scheme \<Rightarrow> hammer2_io \<Rightarrow> ('a hammer2_iodev_scheme \<times> bool) option" where
  "hammer2_io_hash_enter hmp dio = do {
     KKASSERT (dio_refs dio AND HAMMER2_DIO_MASK \<noteq> 0);
     let hv = hammer2_io_hashv (dio_pbase dio);
     (case dio_get hmp (dio_pbase dio) of
        Some xio \<Rightarrow> Some (dio_ref_found hmp xio, True)
      | None \<Rightarrow> Some (hmp\<lparr> iohash := (iohash hmp)(hv := iohash hmp hv @ [dio]) \<rparr>, False)) }"

section \<open>Allocation of a dio\<close>

text \<open>The size a \<open>data|radix\<close> offset names: \<open>1 << radix\<close> as an \<open>int\<close>, widened.\<close>

definition data_off_lsize :: "hammer2_off_t \<Rightarrow> u64" where
  "data_off_lsize data_off =
     (let radix = unat (data_off AND HAMMER2_OFF_MASK_RADIX)
      in if radix \<noteq> 0 then scast (push_bit radix 1 :: 32 word) else 0)"

definition data_off_lbase :: "hammer2_off_t \<Rightarrow> hammer2_off_t" where
  "data_off_lbase data_off = data_off AND NOT HAMMER2_OFF_MASK_RADIX"

definition data_off_pbase :: "hammer2_off_t \<Rightarrow> hammer2_off_t" where
  "data_off_pbase data_off = data_off_lbase data_off AND NOT HAMMER2_PBUFMASK"

text \<open>The common end of \<open>hammer2_io_alloc\<close>: activity and clock of the dio, references asserted.\<close>

definition io_alloc_done ::
    "'a hammer2_iodev_scheme \<Rightarrow> hammer2_off_t \<Rightarrow> ('a hammer2_iodev_scheme \<times> hammer2_off_t option) option"
  where
  "io_alloc_done hmp pbase = do {
     let hmp = dio_set pbase (\<lambda>d. d\<lparr> dio_ticks := now_ticks hmp,
       dio_act := (if dio_act d < 10 then dio_act d + 1 else dio_act d) \<rparr>) hmp;
     hammer2_assert_io_refs hmp pbase;
     Some (hmp, Some pbase) }"

definition hammer2_io_alloc ::
    "'a hammer2_iodev_scheme \<Rightarrow> hammer2_off_t \<Rightarrow> u8 \<Rightarrow> bool \<Rightarrow>
     ('a hammer2_iodev_scheme \<times> hammer2_off_t option) option" where
  "hammer2_io_alloc hmp data_off btype createit = do {
     let lsize = data_off_lsize data_off;
     let lbase = data_off_lbase data_off;
     let pbase = data_off_pbase data_off;
     if pbase = 0 \<or> (lbase + lsize - 1) AND NOT HAMMER2_PBUFMASK \<noteq> pbase
     then Some (hpanic hmp, None)
     else do {
       (hmp, found) \<leftarrow> hammer2_io_hash_lookup hmp pbase;
       if found then io_alloc_done hmp pbase
       else if createit then do {
         vol \<leftarrow> hammer2_get_volume (hmp_volumes hmp) pbase;
         (case vol of
            None \<Rightarrow> Some (hpanic hmp, None)
          | Some vol \<Rightarrow> do {
              KKASSERT (vol_offset vol AND HAMMER2_FREEMAP_LEVEL1_MASK = 0);
              let dio = \<lparr> dio_pbase = pbase, dio_dbase = vol_offset vol, dio_refs = 1,
                dio_act = 5, dio_btype = btype, dio_ticks = 0, dio_error = 0,
                dio_dedup_valid = 0, dio_dedup_alloc = 0, dio_block = NoBlock \<rparr>;
              (hmp, xio) \<leftarrow> hammer2_io_hash_enter hmp dio;
              let hmp = (if xio then hmp
                         else hmp\<lparr> count_dio_allocated := count_dio_allocated hmp + 1 \<rparr>);
              io_alloc_done hmp pbase }) }
       else Some (hmp, None) } }"

section \<open>Getting a block\<close>

datatype io_dop = HAMMER2_DOP_READ | HAMMER2_DOP_NEW | HAMMER2_DOP_NEWNZ | HAMMER2_DOP_READQ

definition blk_of_res :: "blk_res \<Rightarrow> dio_block" where
  "blk_of_res r = (case r of BlkFolio b \<Rightarrow> Folio b | BlkBuf b \<Rightarrow> Buf b | BlkErr e \<Rightarrow> NoBlock)"

definition err_of_res :: "blk_res \<Rightarrow> int" where
  "err_of_res r = (case r of BlkErr e \<Rightarrow> e | _ \<Rightarrow> 0)"

text \<open>\<open>memset(hammer2_io_data(dio, lbase), 0, lsize)\<close>; \<open>hammer2_io_data\<close> asserts a block and
  an offset inside it.\<close>

fun block_map :: "(u8 list \<Rightarrow> u8 list) \<Rightarrow> dio_block \<Rightarrow> dio_block" where
  "block_map f NoBlock = NoBlock"
| "block_map f (Folio b) = Folio (f b)"
| "block_map f (Buf b) = Buf (f b)"

definition hammer2_io_data :: "hammer2_io \<Rightarrow> hammer2_off_t \<Rightarrow> nat option" where
  "hammer2_io_data dio lbase = do {
     KKASSERT (dio_block dio \<noteq> NoBlock);
     let off = sint (ucast (data_off_lbase lbase - dio_pbase dio) :: 32 word);
     KKASSERT (off \<ge> 0);
     KKASSERT (off < HAMMER2_PBUFSIZE);
     Some (nat off) }"

definition io_zero :: "hammer2_off_t \<Rightarrow> nat \<Rightarrow> hammer2_io \<Rightarrow> hammer2_io option" where
  "io_zero lbase lsize dio = do {
     off \<leftarrow> hammer2_io_data dio lbase;
     Some (dio\<lparr> dio_block :=
       block_map (\<lambda>b. take off b @ replicate lsize 0 @ drop (off + lsize) b) (dio_block dio) \<rparr>) }"

text \<open>What \<open>op\<close> does to a block that is there: \<open>NEW\<close> zeroes, \<open>NEW\<close> and \<open>NEWNZ\<close> dirty it.\<close>

definition io_apply_op :: "io_dop \<Rightarrow> hammer2_off_t \<Rightarrow> nat \<Rightarrow> hammer2_io \<Rightarrow> hammer2_io option" where
  "io_apply_op op lbase lsize dio =
     (case op of
        HAMMER2_DOP_NEW \<Rightarrow> do {
          dio \<leftarrow> io_zero lbase lsize dio;
          Some (dio\<lparr> dio_refs := dio_refs dio OR HAMMER2_DIO_DIRTY \<rparr>) }
      | HAMMER2_DOP_NEWNZ \<Rightarrow> Some (dio\<lparr> dio_refs := dio_refs dio OR HAMMER2_DIO_DIRTY \<rparr>)
      | _ \<Rightarrow> Some dio)"

text \<open>\<open>hammer2_bread\<close> (the read is counted when the page cache held the block) and
  \<open>hammer2_getblk_new\<close>.\<close>

definition hammer2_bread ::
    "'a hammer2_iodev_scheme \<Rightarrow> hammer2_io \<Rightarrow> blk_res \<Rightarrow>
     ('a hammer2_iodev_scheme \<times> hammer2_io \<times> int) option" where
  "hammer2_bread hmp dio r =
     (case r of
        BlkErr e \<Rightarrow> Some (hmp, dio, e)
      | BlkBuf b \<Rightarrow> Some (hmp, dio\<lparr> dio_block := Buf b \<rparr>, 0)
      | BlkFolio b \<Rightarrow> do {
          st \<leftarrow> hammer2_inc_iostat (iostat_read hmp) (dio_btype dio) HAMMER2_PBUFSIZE;
          Some (hmp\<lparr> iostat_read := st \<rparr>, dio\<lparr> dio_block := Folio b \<rparr>, 0) })"

definition hammer2_getblk_new :: "hammer2_io \<Rightarrow> bool \<Rightarrow> blk_res \<Rightarrow> hammer2_io \<times> int" where
  "hammer2_getblk_new dio zero r =
     (if err_of_res r \<noteq> 0 then (dio, err_of_res r)
      else (dio\<lparr> dio_block :=
              block_map (\<lambda>b. if zero then replicate HAMMER2_PBUFSIZE 0 else b) (blk_of_res r) \<rparr>, 0))"

text \<open>The read or grab of a block that is not \<open>GOOD\<close>.\<close>

definition io_fill ::
    "'a hammer2_iodev_scheme \<Rightarrow> hammer2_io \<Rightarrow> hammer2_off_t \<Rightarrow> nat \<Rightarrow> io_dop \<Rightarrow> blk_res \<Rightarrow>
     ('a hammer2_iodev_scheme \<times> hammer2_io \<times> int) option" where
  "io_fill hmp dio lbase lsize op r =
     (if dio_pbase dio = data_off_lbase lbase \<and> HAMMER2_PBUFSIZE = lsize
      then (if op = HAMMER2_DOP_NEW \<or> op = HAMMER2_DOP_NEWNZ
            then (let (dio, error) = hammer2_getblk_new dio (op = HAMMER2_DOP_NEW) r
                  in Some (hmp, (if error = 0
                     then dio\<lparr> dio_refs := dio_refs dio OR HAMMER2_DIO_DIRTY \<rparr> else dio), error))
            else hammer2_bread hmp dio r)
      else do {
        (hmp, dio, error) \<leftarrow> hammer2_bread hmp dio r;
        if dio_block dio \<noteq> NoBlock then do {
          KKASSERT (error = 0);
          dio \<leftarrow> io_apply_op op lbase lsize dio;
          Some (hmp, dio, error) }
        else Some (hmp, dio, error) })"

definition hammer2_io_getblk ::
    "'a hammer2_iodev_scheme \<Rightarrow> u8 \<Rightarrow> hammer2_off_t \<Rightarrow> nat \<Rightarrow> io_dop \<Rightarrow> blk_res \<Rightarrow>
     ('a hammer2_iodev_scheme \<times> hammer2_off_t option) option" where
  "hammer2_io_getblk hmp btype lbase lsize op r = do {
     KKASSERT (2 ^ unat (lbase AND HAMMER2_OFF_MASK_RADIX) = lsize);
     (hmp, found) \<leftarrow> hammer2_io_alloc hmp lbase btype (op \<noteq> HAMMER2_DOP_READQ);
     let op = (if op = HAMMER2_DOP_READQ then HAMMER2_DOP_READ else op);
     (case found of
        None \<Rightarrow> Some (hmp, None)
      | Some pbase \<Rightarrow> do {
          hammer2_assert_io_refs hmp pbase;
          dio \<leftarrow> dio_get hmp pbase;
          if dio_refs dio AND HAMMER2_DIO_GOOD \<noteq> 0 then do {
            dio \<leftarrow> io_apply_op op lbase lsize dio;
            Some (dio_set pbase (\<lambda>_. dio) hmp, Some pbase) }
          else do {
            KKASSERT (dio_block dio = NoBlock);
            (hmp, dio, error) \<leftarrow> io_fill hmp dio lbase lsize op r;
            KKASSERT (error = 0 \<or> dio_block dio = NoBlock);
            let dio = dio\<lparr> dio_error := error \<rparr>;
            let dio = (if error = 0
              then dio\<lparr> dio_refs := dio_refs dio OR HAMMER2_DIO_GOOD \<rparr> else dio);
            Some (dio_set pbase (\<lambda>_. dio) hmp, Some pbase) } }) }"

section \<open>Cleaning out and putting\<close>

text \<open>The inner loop of \<open>hammer2_io_hash_cleanup\<close> over one chain: what stays, and how many go.\<close>

fun cleanup_chain :: "int \<Rightarrow> int \<Rightarrow> hammer2_io list \<Rightarrow> (hammer2_io list \<times> nat) option" where
  "cleanup_chain ticks hz [] = Some ([], 0)"
| "cleanup_chain ticks hz (dio # ds) =
     (if dio_refs dio AND HAMMER2_DIO_MASK \<noteq> 0
      then do { (ks, n) \<leftarrow> cleanup_chain ticks hz ds; Some (dio # ks, n) }
      else do {
        let act = (if dio_act dio > 0
          then (let act = dio_act dio - (ticks - dio_ticks dio) sdiv hz - 1
                in if act < 0 then 0 else act)
          else dio_act dio);
        let dio = dio\<lparr> dio_act := act \<rparr>;
        if act \<noteq> 0
        then do { (ks, n) \<leftarrow> cleanup_chain ticks hz ds; Some (dio # ks, n) }
        else do {
          KKASSERT (case dio_block dio of Folio _ \<Rightarrow> False | _ \<Rightarrow> True);
          (ks, n) \<leftarrow> cleanup_chain ticks hz ds; Some (ks, Suc n) } })"

text \<open>The outer loop: \<open>maxscan\<close> chains at most, while \<open>count\<close> is positive.\<close>

definition cleanup_bucket :: "nat \<Rightarrow> hammer2_io list \<Rightarrow> nat \<Rightarrow> 'a hammer2_iodev_scheme \<Rightarrow> 'a hammer2_iodev_scheme"
  where
  "cleanup_bucket hv ks n hmp =
     hmp\<lparr> iohash := (iohash hmp)(hv := ks), iofree_count := iofree_count hmp - int n,
          count_dio_allocated := count_dio_allocated hmp - int n, io_iterator := io_iterator hmp + 1 \<rparr>"

fun cleanup_scan ::
    "nat \<Rightarrow> int \<Rightarrow> u32 \<Rightarrow> 'a hammer2_iodev_scheme \<Rightarrow> 'a hammer2_iodev_scheme option" where
  "cleanup_scan 0 count i hmp = Some hmp"
| "cleanup_scan (Suc maxscan) count i hmp =
     (if count \<le> 0 then Some hmp
      else do {
        let hv = unat (i AND HAMMER2_IOHASH_MASK);
        (ks, n) \<leftarrow> cleanup_chain (now_ticks hmp) (kern_hz hmp) (iohash hmp hv);
        cleanup_scan maxscan (count - int n) (io_iterator hmp) (cleanup_bucket hv ks n hmp) })"

definition hammer2_io_hash_cleanup ::
    "'a hammer2_iodev_scheme \<Rightarrow> int \<Rightarrow> 'a hammer2_iodev_scheme option" where
  "hammer2_io_hash_cleanup hmp dio_limit =
     (let count = iofree_count hmp - dio_limit + 32
      in if count \<le> 0 then Some hmp
         else cleanup_scan HAMMER2_IOHASH_SIZE count (io_iterator hmp)
                (hmp\<lparr> io_iterator := io_iterator hmp + 1 \<rparr>))"

text \<open>The disposal of the block on the last drop, given the flags before it (\<open>orefs\<close>).\<close>

definition io_dispose ::
    "'a hammer2_iodev_scheme \<Rightarrow> hammer2_io \<Rightarrow> u64 \<Rightarrow> 'a hammer2_iodev_scheme option" where
  "io_dispose hmp dio orefs =
     (let orefs = (if orefs AND HAMMER2_DIO_DIRTY \<noteq> 0 \<and> device_error hmp
                   then orefs AND NOT HAMMER2_DIO_DIRTY else orefs);
          flush = (dio_refs dio AND HAMMER2_DIO_FLUSH \<noteq> 0);
          write = (\<lambda>b. do {
            st \<leftarrow> hammer2_inc_iostat (iostat_write hmp) (dio_btype dio) HAMMER2_PBUFSIZE;
            Some (hmp\<lparr> io_written := io_written hmp @ [(dio_pbase dio, b, flush)],
                       iostat_write := st \<rparr>) })
      in case dio_block dio of
           NoBlock \<Rightarrow> Some hmp
         | Folio b \<Rightarrow>
             if orefs AND HAMMER2_DIO_GOOD \<noteq> 0 \<and> orefs AND HAMMER2_DIO_DIRTY \<noteq> 0
             then write b else Some hmp
         | Buf b \<Rightarrow>
             if orefs AND HAMMER2_DIO_GOOD \<noteq> 0 \<and> orefs AND HAMMER2_DIO_DIRTY \<noteq> 0
             then write b else Some hmp)"

text \<open>The references after the last drop, and the clean-out once too many dios are free.\<close>

definition refs_lastdrop :: "u64 \<Rightarrow> u64" where
  "refs_lastdrop refs = (refs - 1) AND NOT (HAMMER2_DIO_GOOD OR HAMMER2_DIO_DIRTY)"

definition io_trim :: "'a hammer2_iodev_scheme \<Rightarrow> 'a hammer2_iodev_scheme option" where
  "io_trim hmp =
     (let dio_limit = hammer2_dio_limit hmp;
          dio_limit = (if dio_limit < 256 then 256 else dio_limit);
          dio_limit = (if dio_limit > 1024 * 1024 then 1024 * 1024 else dio_limit)
      in if iofree_count hmp > dio_limit then hammer2_io_hash_cleanup hmp dio_limit
         else Some hmp)"

definition hammer2_io_putblk ::
    "'a hammer2_iodev_scheme \<Rightarrow> hammer2_off_t \<Rightarrow> 'a hammer2_iodev_scheme option" where
  "hammer2_io_putblk hmp pbase = do {
     dio \<leftarrow> dio_get hmp pbase;
     let orefs = dio_refs dio;
     if orefs AND HAMMER2_DIO_MASK = 0 then Some hmp
     else if orefs AND HAMMER2_DIO_MASK \<noteq> 1
     then Some (dio_set pbase (\<lambda>d. d\<lparr> dio_refs := dio_refs d - 1 \<rparr>) hmp)
     else do {
       let refs = refs_lastdrop orefs;
       hmp \<leftarrow> io_dispose hmp (dio\<lparr> dio_refs := refs \<rparr>) orefs;
       let hmp = dio_set pbase (\<lambda>d. d\<lparr> dio_refs := refs, dio_block := NoBlock \<rparr>) hmp;
       let hmp = hmp\<lparr> iofree_count := iofree_count hmp + 1 \<rparr>;
       KKASSERT (refs AND HAMMER2_DIO_GOOD = 0);
       io_trim hmp } }"

text \<open>The flag setters, and the write variants, which set flags and drop the reference.\<close>

definition hammer2_io_setflags ::
    "'a hammer2_iodev_scheme \<Rightarrow> hammer2_off_t \<Rightarrow> u64 \<Rightarrow> 'a hammer2_iodev_scheme" where
  "hammer2_io_setflags hmp pbase flags =
     dio_set pbase (\<lambda>d. d\<lparr> dio_refs := dio_refs d OR flags \<rparr>) hmp"

definition hammer2_io_ref ::
    "'a hammer2_iodev_scheme \<Rightarrow> hammer2_off_t \<Rightarrow> 'a hammer2_iodev_scheme" where
  "hammer2_io_ref hmp pbase = dio_set pbase (\<lambda>d. d\<lparr> dio_refs := dio_refs d + 1 \<rparr>) hmp"

definition hammer2_io_setdirty ::
    "'a hammer2_iodev_scheme \<Rightarrow> hammer2_off_t \<Rightarrow> 'a hammer2_iodev_scheme" where
  "hammer2_io_setdirty hmp pbase = hammer2_io_setflags hmp pbase HAMMER2_DIO_DIRTY"

definition hammer2_io_bawrite ::
    "'a hammer2_iodev_scheme \<Rightarrow> hammer2_off_t \<Rightarrow> 'a hammer2_iodev_scheme option" where
  "hammer2_io_bawrite hmp pbase =
     hammer2_io_putblk (hammer2_io_setflags hmp pbase (HAMMER2_DIO_DIRTY OR HAMMER2_DIO_FLUSH)) pbase"

definition hammer2_io_bdwrite ::
    "'a hammer2_iodev_scheme \<Rightarrow> hammer2_off_t \<Rightarrow> 'a hammer2_iodev_scheme option" where
  "hammer2_io_bdwrite hmp pbase =
     hammer2_io_putblk (hammer2_io_setflags hmp pbase HAMMER2_DIO_DIRTY) pbase"

definition hammer2_io_newnz ::
    "'a hammer2_iodev_scheme \<Rightarrow> u8 \<Rightarrow> hammer2_off_t \<Rightarrow> nat \<Rightarrow> blk_res \<Rightarrow>
     ('a hammer2_iodev_scheme \<times> hammer2_off_t option) option" where
  "hammer2_io_newnz hmp btype lbase lsize r =
     hammer2_io_getblk hmp btype lbase lsize HAMMER2_DOP_NEWNZ r"

text \<open>\<open>hammer2_io_newnz\<close> followed by the drop of the block, as the allocator uses it; a \<open>NULL\<close>
  dio is dereferenced by \<open>hammer2_io_putblk\<close>.\<close>

definition io_newnz_put ::
    "'a hammer2_iodev_scheme \<Rightarrow> u8 \<Rightarrow> hammer2_off_t \<Rightarrow> nat \<Rightarrow> blk_res \<Rightarrow> 'a hammer2_iodev_scheme option" where
  "io_newnz_put hmp btype lbase lsize r = do {
     (hmp, dio) \<leftarrow> hammer2_io_newnz hmp btype lbase lsize r;
     pbase \<leftarrow> dio;
     hammer2_io_putblk hmp pbase }"

section \<open>Dedup bits\<close>

definition hammer2_dedup_mask :: "hammer2_off_t \<Rightarrow> hammer2_off_t \<Rightarrow> nat \<Rightarrow> u64" where
  "hammer2_dedup_mask pbase data_off bytes =
     (let bbeg = unat (data_off_lbase data_off - pbase) div 1024;
          bits = (bytes + 1023) div 1024;
          mask = (if bbeg + bits = 64 then -1 else push_bit (bbeg + bits) 1 - 1)
      in mask AND NOT (push_bit bbeg 1 - 1))"

definition hammer2_io_dedup_set ::
    "'a hammer2_iodev_scheme \<Rightarrow> hammer2_blockref \<Rightarrow> 'a hammer2_iodev_scheme option" where
  "hammer2_io_dedup_set hmp bref = do {
     (hmp, found) \<leftarrow> hammer2_io_alloc hmp (br_data_off bref) (br_type bref) True;
     (case found of
        None \<Rightarrow> Some hmp
      | Some pbase \<Rightarrow> do {
          hammer2_assert_io_refs hmp pbase;
          let mask = hammer2_dedup_mask pbase (br_data_off bref) (unat (data_off_lsize (br_data_off bref)));
          hammer2_io_putblk (dio_set pbase (\<lambda>d. d\<lparr>
              dio_dedup_valid := dio_dedup_valid d AND NOT mask,
              dio_dedup_alloc := dio_dedup_alloc d OR mask \<rparr>) hmp) pbase }) }"

definition hammer2_io_dedup_delete ::
    "'a hammer2_iodev_scheme \<Rightarrow> u8 \<Rightarrow> hammer2_off_t \<Rightarrow> nat \<Rightarrow> 'a hammer2_iodev_scheme option" where
  "hammer2_io_dedup_delete hmp btype data_off bytes =
     (if data_off_lbase data_off = 0 then Some hmp
      else if btype \<noteq> HAMMER2_BREF_TYPE_DATA then Some hmp
      else do {
        (hmp, found) \<leftarrow> hammer2_io_alloc hmp data_off btype False;
        (case found of
           None \<Rightarrow> Some hmp
         | Some pbase \<Rightarrow> do {
             hammer2_assert_io_refs hmp pbase;
             if data_off < pbase \<or> data_off_lbase data_off + of_nat bytes > pbase + HAMMER2_PBUFSIZE
             then hammer2_io_putblk (hpanic hmp) pbase
             else do {
               let mask = hammer2_dedup_mask pbase data_off bytes;
               hammer2_io_putblk (dio_set pbase (\<lambda>d. d\<lparr>
                   dio_dedup_alloc := dio_dedup_alloc d AND NOT mask,
                   dio_dedup_valid := dio_dedup_valid d AND NOT mask \<rparr>) hmp) pbase } }) })"

definition hammer2_io_dedup_assert ::
    "'a hammer2_iodev_scheme \<Rightarrow> hammer2_off_t \<Rightarrow> nat \<Rightarrow> 'a hammer2_iodev_scheme option" where
  "hammer2_io_dedup_assert hmp data_off bytes = do {
     (hmp, found) \<leftarrow> hammer2_io_alloc hmp data_off HAMMER2_BREF_TYPE_DATA False;
     (case found of
        None \<Rightarrow> Some hmp
      | Some pbase \<Rightarrow> do {
          hammer2_assert_io_refs hmp pbase;
          dio \<leftarrow> dio_get hmp pbase;
          KKASSERT (dio_dedup_alloc dio AND hammer2_dedup_mask pbase data_off bytes = 0);
          hammer2_io_putblk hmp pbase }) }"

section \<open>The reference word\<close>

text \<open>Low 56 bits count references, the flags sit above them.\<close>

definition refs_count :: "u64 \<Rightarrow> nat" where
  "refs_count refs = unat (refs AND HAMMER2_DIO_MASK)"

lemma refs_count_mod: "refs_count refs = unat refs mod 2 ^ 56"
proof -
  have "(0x00FFFFFFFFFFFFFF :: u64) = mask 56" by (simp add: mask_eq_exp_minus_1)
  then show ?thesis
    unfolding refs_count_def
    by (simp only: take_bit_eq_mask [symmetric] unsigned_take_bit_eq) (simp only: take_bit_nat_def)
qed

lemma refs_mask_eq_0 [simp]: "refs AND HAMMER2_DIO_MASK = 0 \<longleftrightarrow> refs_count refs = 0"
  by (simp add: refs_count_def unsigned_eq_0_iff)

lemma refs_mask_eq_1 [simp]: "refs AND HAMMER2_DIO_MASK = 1 \<longleftrightarrow> refs_count refs = 1"
  unfolding refs_count_def by (metis unsigned_1 unsigned_word_eqI)

lemma refs_flag_good: "refs AND HAMMER2_DIO_GOOD = 0 \<longleftrightarrow> \<not> bit refs 62"
proof -
  have "(0x4000000000000000 :: u64) = push_bit 62 1" by simp
  then show ?thesis by (simp only: and_exp_eq_0_iff_not_bit push_bit_of_1)
qed

lemma refs_flag_dirty: "refs AND HAMMER2_DIO_DIRTY = 0 \<longleftrightarrow> \<not> bit refs 60"
proof -
  have "(0x1000000000000000 :: u64) = push_bit 60 1" by simp
  then show ?thesis by (simp only: and_exp_eq_0_iff_not_bit push_bit_of_1)
qed

lemma bit_high_div: "56 \<le> k \<Longrightarrow> unat (a :: u64) div 2 ^ 56 = unat (b :: u64) div 2 ^ 56 \<Longrightarrow> bit a k = bit b k"
proof -
  assume k: "56 \<le> k" and eq: "unat a div 2 ^ 56 = unat b div 2 ^ 56"
  have b: "bit w k = odd (unat w div 2 ^ 56 div 2 ^ (k - 56))" for w :: u64
  proof -
    have "bit w k = bit (unat w) k" by (simp add: bit_unsigned_iff)
    also have "\<dots> = odd (unat w div 2 ^ (56 + (k - 56)))" using k by (simp only: bit_iff_odd le_add_diff_inverse)
    finally show ?thesis by (simp only: power_add div_mult2_eq)
  qed
  show ?thesis by (simp only: b eq)
qed


lemma Suc_mod_div:
  fixes n M :: nat
  assumes "n mod M + 1 < M"
  shows "Suc n mod M = n mod M + 1" "Suc n div M = n div M"
  using assms by (auto simp: mod_Suc div_Suc)

lemma refs_inc:
  assumes "refs_count refs + 1 < 2 ^ 56"
  shows "refs_count (refs + 1) = refs_count refs + 1" "56 \<le> k \<Longrightarrow> bit (refs + 1) k = bit refs k"
proof -
  define n where "n = unat refs"
  note s = Suc_mod_div [OF assms [unfolded refs_count_mod, folded n_def]]
  have "n < 2 ^ 64" unfolding n_def using unsigned_less [of refs] by simp
  then have "n div 2 ^ 56 < 2 ^ 8" by simp
  then have "Suc n div 2 ^ 56 < 2 ^ 8" by (simp only: s)
  then have "Suc n < 2 ^ 64" by simp
  then have u: "unat (refs + 1) = Suc n" by (simp add: n_def unat_word_ariths(1))
  show "refs_count (refs + 1) = refs_count refs + 1"
    by (simp only: refs_count_mod u n_def [symmetric] s)
  show "56 \<le> k \<Longrightarrow> bit (refs + 1) k = bit refs k"
    by (intro bit_high_div) (simp_all only: u n_def [symmetric] s)
qed

lemma refs_dec:
  assumes "refs_count refs \<noteq> 0"
  shows "refs_count (refs - 1) = refs_count refs - 1" "56 \<le> k \<Longrightarrow> bit (refs - 1) k = bit refs k"
proof -
  define n where "n = unat refs"
  have b: "n mod 2 ^ 56 \<noteq> 0" using assms by (simp only: refs_count_mod n_def not_False_eq_True)
  then obtain m where m: "n = Suc m" by (cases n) auto
  have "1 \<le> refs" using m by (simp add: word_le_nat_alt n_def)
  then have u: "unat (refs - 1) = m" using m by (simp add: n_def unat_sub)
  have "m mod 2 ^ 56 + 1 < 2 ^ 56"
  proof (rule ccontr)
    assume "\<not> ?thesis"
    moreover have "m mod 2 ^ 56 < 2 ^ 56" by simp
    ultimately have "Suc (m mod 2 ^ 56) = 2 ^ 56" by linarith
    then show False using b unfolding m by (simp only: mod_Suc simp_thms if_True)
  qed
  note s = Suc_mod_div [OF this]
  show "refs_count (refs - 1) = refs_count refs - 1"
    by (simp only: refs_count_mod u n_def [symmetric] m s diff_add_inverse2)
  show "56 \<le> k \<Longrightarrow> bit (refs - 1) k = bit refs k"
    by (intro bit_high_div) (simp_all only: u n_def [symmetric] m s)
qed

lemma refs_count_bits: "(\<And>k. k < 56 \<Longrightarrow> bit a k = bit b k) \<Longrightarrow> refs_count a = refs_count b"
proof -
  assume "\<And>k. k < 56 \<Longrightarrow> bit a k = bit b k"
  then have "take_bit 56 a = take_bit 56 b" by (auto simp: bit_eq_iff bit_take_bit_iff)
  moreover have "(0x00FFFFFFFFFFFFFF :: u64) = mask 56" by (simp add: mask_eq_exp_minus_1)
  ultimately show ?thesis by (simp only: refs_count_def take_bit_eq_mask)
qed

lemma bit_good_iff: "bit HAMMER2_DIO_GOOD k \<longleftrightarrow> k = 62"
  and bit_dirty_iff: "bit HAMMER2_DIO_DIRTY k \<longleftrightarrow> k = 60"
  and bit_flush_iff: "bit HAMMER2_DIO_FLUSH k \<longleftrightarrow> k = 59"
proof -
  have "(0x4000000000000000 :: u64) = push_bit 62 1" "(0x1000000000000000 :: u64) = push_bit 60 1"
    "(0x0800000000000000 :: u64) = push_bit 59 1" by simp_all
  then show "bit HAMMER2_DIO_GOOD k \<longleftrightarrow> k = 62" "bit HAMMER2_DIO_DIRTY k \<longleftrightarrow> k = 60"
    "bit HAMMER2_DIO_FLUSH k \<longleftrightarrow> k = 59"
    by (auto simp only: bit_push_bit_iff bit_1_iff) simp_all
qed

lemma refs_or_flags [simp]:
  "refs_count (refs OR HAMMER2_DIO_DIRTY) = refs_count refs"
  "refs_count (refs OR HAMMER2_DIO_GOOD) = refs_count refs"
  "bit (refs OR HAMMER2_DIO_DIRTY) 62 = bit refs 62" "bit (refs OR HAMMER2_DIO_GOOD) 62"
  by (auto intro!: refs_count_bits simp only: bit_or_iff bit_good_iff bit_dirty_iff)

lemma refs_clear_flags [simp]:
  "refs_count (refs_lastdrop refs) = refs_count (refs - 1)" "\<not> bit (refs_lastdrop refs) 62"
  unfolding refs_lastdrop_def
  by (auto intro!: refs_count_bits simp only: bit_and_iff bit_not_iff bit_or_iff bit_good_iff bit_dirty_iff) simp_all

section \<open>The table as a map\<close>

lemma dio_update_find:
  assumes "\<And>d. dio_pbase (f d) = dio_pbase d"
  shows "find (\<lambda>d. dio_pbase d = q) (dio_update p f ds) =
     (if q = p then map_option f (find (\<lambda>d. dio_pbase d = p) ds) else find (\<lambda>d. dio_pbase d = q) ds)"
  using assms by (induction ds) auto

lemma dio_get_set:
  assumes "\<And>d. dio_pbase (f d) = dio_pbase d"
  shows "dio_get (dio_set p f hmp) q = (if q = p then map_option f (dio_get hmp p) else dio_get hmp q)"
  using assms by (auto simp: dio_get_def dio_set_def dio_update_find)

lemma dio_get_set_const:
  "dio_get hmp p = Some d0 \<Longrightarrow> dio_pbase d = p \<Longrightarrow> dio_get (dio_set p (\<lambda>_. d) hmp) p = Some d"
proof -
  have "find (\<lambda>d. dio_pbase d = p) ds = Some d0 \<Longrightarrow> dio_pbase d = p \<Longrightarrow>
     find (\<lambda>d. dio_pbase d = p) (dio_update p (\<lambda>_. d) ds) = Some d" for ds
    by (induction ds) (auto split: if_splits)
  then show "dio_get hmp p = Some d0 \<Longrightarrow> dio_pbase d = p \<Longrightarrow> ?thesis"
    by (simp add: dio_get_def dio_set_def)
qed

lemma dio_get_pbase: "dio_get hmp p = Some d \<Longrightarrow> dio_pbase d = p"
  by (auto simp: dio_get_def find_Some_iff)

lemma dio_get_in: "dio_get hmp p = Some d \<Longrightarrow> d \<in> set (iohash hmp (hammer2_io_hashv p))"
  by (auto simp: dio_get_def find_Some_iff)

text \<open>Only \<open>dio_set\<close> and the like touch the table: frame rules for the other fields.\<close>

lemma dio_set_fields [simp]:
  "iofree_count (dio_set p f hmp) = iofree_count hmp" "hmp_volumes (dio_set p f hmp) = hmp_volumes hmp"
  "hammer2_iodev.more (dio_set p f hmp) = hammer2_iodev.more hmp"
  "device_error (dio_set p f hmp) = device_error hmp" "io_written (dio_set p f hmp) = io_written hmp"
  "now_ticks (dio_set p f hmp) = now_ticks hmp"
  by (simp_all add: dio_set_def)

lemma hpanic_fields [simp]:
  "iohash (hpanic hmp) = iohash hmp" "iofree_count (hpanic hmp) = iofree_count hmp"
  "hmp_volumes (hpanic hmp) = hmp_volumes hmp" "hammer2_iodev.more (hpanic hmp) = hammer2_iodev.more hmp"
  "dio_get (hpanic hmp) p = dio_get hmp p"
  by (simp_all add: hpanic_def dio_get_def)

section \<open>The invariant\<close>

text \<open>
  A dio without references holds no block and is not \<open>GOOD\<close>; one is \<open>GOOD\<close> exactly when it
  holds its block.  Each chain holds the dios that hash to it, one per \<open>pbase\<close>, and
  \<open>iofree_count\<close> counts the unreferenced ones.
\<close>

definition btype_ok :: "u8 \<Rightarrow> bool" where
  "btype_ok t \<longleftrightarrow> t \<in> {HAMMER2_BREF_TYPE_INODE, HAMMER2_BREF_TYPE_INDIRECT, HAMMER2_BREF_TYPE_DATA,
     HAMMER2_BREF_TYPE_DIRENT, HAMMER2_BREF_TYPE_FREEMAP_NODE, HAMMER2_BREF_TYPE_FREEMAP_LEAF,
     HAMMER2_BREF_TYPE_FREEMAP, HAMMER2_BREF_TYPE_VOLUME}"

definition dio_ok :: "hammer2_io \<Rightarrow> bool" where
  "dio_ok d \<longleftrightarrow> dio_pbase d \<noteq> 0 \<and> dio_pbase d AND HAMMER2_PBUFMASK = 0 \<and> btype_ok (dio_btype d) \<and>
     (bit (dio_refs d) 62 \<longleftrightarrow> dio_block d \<noteq> NoBlock) \<and>
     (refs_count (dio_refs d) = 0 \<longrightarrow> dio_block d = NoBlock)"

definition dio_free :: "hammer2_io \<Rightarrow> bool" where
  "dio_free d \<longleftrightarrow> refs_count (dio_refs d) = 0"

definition free_dios :: "(nat \<Rightarrow> hammer2_io list) \<Rightarrow> nat" where
  "free_dios tab = (\<Sum>h < HAMMER2_IOHASH_SIZE. length (filter dio_free (tab h)))"

definition chains_ok :: "(nat \<Rightarrow> hammer2_io list) \<Rightarrow> bool" where
  "chains_ok tab \<longleftrightarrow> (\<forall>h. distinct (map dio_pbase (tab h)) \<and>
     (\<forall>d \<in> set (tab h). hammer2_io_hashv (dio_pbase d) = h \<and> dio_ok d))"

definition volumes_open :: "hammer2_volume list \<Rightarrow> bool" where
  "volumes_open vs \<longleftrightarrow> (\<forall>v \<in> set vs. vol_offset v AND HAMMER2_FREEMAP_LEVEL1_MASK = 0 \<and>
     (case vol_dev v of None \<Rightarrow> False | Some dev \<Rightarrow> dv_open dev))"

definition io_inv :: "'a hammer2_iodev_scheme \<Rightarrow> bool" where
  "io_inv hmp \<longleftrightarrow> chains_ok (iohash hmp) \<and> iofree_count hmp = int (free_dios (iohash hmp)) \<and>
     volumes_open (hmp_volumes hmp)"

text \<open>No count is about to run into the flag bits.\<close>

definition io_room :: "'a hammer2_iodev_scheme \<Rightarrow> bool" where
  "io_room hmp \<longleftrightarrow> (\<forall>h. \<forall>d \<in> set (iohash hmp h). refs_count (dio_refs d) + 1 < 2 ^ 56)"

lemma hashv_less: "hammer2_io_hashv p < HAMMER2_IOHASH_SIZE"
proof -
  have "(32767 :: u32) = mask 15" by (simp add: mask_eq_exp_minus_1)
  then show ?thesis
    unfolding hammer2_io_hashv_def
    by (simp only: take_bit_eq_mask [symmetric] unsigned_take_bit_eq) (simp add: take_bit_nat_def)
qed

lemma sum_fun_upd:
  fixes f :: "'b \<Rightarrow> nat" and n :: nat
  shows "h < n \<Longrightarrow> (\<Sum>k < n. f ((g(h := x)) k)) + f (g h) = (\<Sum>k < n. f (g k)) + f x"
proof -
  assume h: "h < n"
  have "(\<Sum>k < n. f (g' k)) = f (g' h) + (\<Sum>k \<in> {..<n} - {h}. f (g' k))" for g'
    using h by (intro sum.remove) auto
  from this [of "g(h := x)"] this [of g] show ?thesis by simp
qed

lemma free_dios_upd:
  "h < HAMMER2_IOHASH_SIZE \<Longrightarrow>
   free_dios (tab(h := ds)) + length (filter dio_free (tab h)) =
   free_dios tab + length (filter dio_free ds)"
  unfolding free_dios_def by (rule sum_fun_upd [where f = "\<lambda>ds. length (filter dio_free ds)"])

text \<open>Replacing one dio by \<open>f d\<close>.\<close>

lemma dio_update_split:
  "find (\<lambda>d. dio_pbase d = p) ds = Some d \<Longrightarrow>
   \<exists>as bs. ds = as @ d # bs \<and> dio_update p f ds = as @ f d # bs"
proof (induction ds)
  case (Cons a ds)
  then show ?case
    by (cases "dio_pbase a = p") (force intro: exI [of _ "[]"] exI [of _ "a # _"])+
qed simp

lemma dio_set_inv:
  assumes "chains_ok (iohash hmp)" "dio_get hmp p = Some d" "dio_ok (f d)" "dio_pbase (f d) = p"
  shows "chains_ok (iohash (dio_set p f hmp))"
    and "free_dios (iohash (dio_set p f hmp)) + (if dio_free d then 1 else 0) =
         free_dios (iohash hmp) + (if dio_free (f d) then 1 else 0)"
proof -
  let ?h = "hammer2_io_hashv p"
  obtain as bs where ds: "iohash hmp ?h = as @ d # bs"
      "dio_update p f (iohash hmp ?h) = as @ f d # bs"
    using dio_update_split [of p "iohash hmp ?h" d f] assms(2) by (auto simp: dio_get_def)
  have tab: "iohash (dio_set p f hmp) = (iohash hmp)(?h := as @ f d # bs)"
    by (simp add: dio_set_def ds(2))
  have p: "dio_pbase d = p" using assms(2) by (rule dio_get_pbase)
  have h: "distinct (map dio_pbase (as @ d # bs))"
      "\<forall>x \<in> set (as @ d # bs). hammer2_io_hashv (dio_pbase x) = ?h \<and> dio_ok x"
    using assms(1) unfolding chains_ok_def ds(1) [symmetric] by blast+
  show "chains_ok (iohash (dio_set p f hmp))"
    unfolding chains_ok_def tab
  proof (intro allI)
    fix k
    show "distinct (map dio_pbase (((iohash hmp)(?h := as @ f d # bs)) k)) \<and>
      (\<forall>x\<in>set (((iohash hmp)(?h := as @ f d # bs)) k). hammer2_io_hashv (dio_pbase x) = k \<and> dio_ok x)"
      using assms h p by (cases "k = ?h") (auto simp: chains_ok_def)
  qed
  show "free_dios (iohash (dio_set p f hmp)) + (if dio_free d then 1 else 0) =
         free_dios (iohash hmp) + (if dio_free (f d) then 1 else 0)"
    using free_dios_upd [OF hashv_less, of "iohash hmp" p "as @ f d # bs"] unfolding tab ds(1)
    by (simp split: if_splits)
qed

lemma dio_get_iff:
  assumes "chains_ok (iohash hmp)"
  shows "dio_get hmp p = Some d \<longleftrightarrow> d \<in> set (iohash hmp (hammer2_io_hashv p)) \<and> dio_pbase d = p"
proof -
  have "distinct (map dio_pbase ds) \<Longrightarrow>
     find (\<lambda>d. dio_pbase d = p) ds = Some d \<longleftrightarrow> d \<in> set ds \<and> dio_pbase d = p" for ds
    by (induction ds) (auto simp: image_iff)
  with assms show ?thesis by (simp add: dio_get_def chains_ok_def)
qed

lemma dio_get_ok: "chains_ok (iohash hmp) \<Longrightarrow> dio_get hmp p = Some d \<Longrightarrow> dio_ok d"
  by (auto simp: dio_get_iff chains_ok_def)

lemma io_room_get:
  "io_inv hmp \<Longrightarrow> io_room hmp \<longleftrightarrow> (\<forall>p d. dio_get hmp p = Some d \<longrightarrow> refs_count (dio_refs d) + 1 < 2 ^ 56)"
proof -
  assume "io_inv hmp"
  then have ok: "chains_ok (iohash hmp)" by (simp add: io_inv_def)
  have mem: "dio_get hmp (dio_pbase d) = Some d" if "d \<in> set (iohash hmp h)" for h d
    using that ok unfolding dio_get_iff [OF ok] by (simp add: chains_ok_def)
  show ?thesis
    unfolding io_room_def using mem dio_get_in by (metis (no_types))
qed

section \<open>Cleaning out\<close>

text \<open>Equal up to the activity counter.\<close>

definition dio_same :: "hammer2_io \<Rightarrow> hammer2_io \<Rightarrow> bool" where
  "dio_same d d' \<longleftrightarrow> d\<lparr> dio_act := 0 \<rparr> = d'\<lparr> dio_act := 0 \<rparr>"

lemma dio_same_refl [simp]: "dio_same d d"
  and dio_same_act [simp]: "dio_same d (d\<lparr> dio_act := a \<rparr>)"
  by (simp_all add: dio_same_def)

lemma dio_same_trans: "dio_same a b \<Longrightarrow> dio_same b c \<Longrightarrow> dio_same a c"
  by (simp add: dio_same_def)

lemma dio_sameD:
  assumes "dio_same d d'"
  shows "dio_pbase d' = dio_pbase d" "dio_refs d' = dio_refs d" "dio_btype d' = dio_btype d"
    "dio_block d' = dio_block d" "dio_dedup_valid d' = dio_dedup_valid d"
    "dio_dedup_alloc d' = dio_dedup_alloc d" "dio_ok d' = dio_ok d" "dio_free d' = dio_free d"
  using assms by (cases d; cases d'; simp add: dio_same_def dio_ok_def dio_free_def)+

text \<open>What a clean-out may do: drop unreferenced dios and age their activity.\<close>

definition io_shrunk :: "'a hammer2_iodev_scheme \<Rightarrow> 'a hammer2_iodev_scheme \<Rightarrow> bool" where
  "io_shrunk hmp hmp' \<longleftrightarrow> (\<forall>q.
     (\<forall>d'. dio_get hmp' q = Some d' \<longrightarrow> (\<exists>d. dio_get hmp q = Some d \<and> dio_same d d')) \<and>
     (\<forall>d. dio_get hmp q = Some d \<and> \<not> dio_free d \<longrightarrow> dio_get hmp' q = Some d))"

lemma io_shrunk_refl [simp]: "io_shrunk hmp hmp"
  by (simp add: io_shrunk_def)

lemma io_shrunk_trans: "io_shrunk a b \<Longrightarrow> io_shrunk b c \<Longrightarrow> io_shrunk a c"
  unfolding io_shrunk_def by (meson dio_same_trans)

definition io_frame :: "'a hammer2_iodev_scheme \<Rightarrow> 'a hammer2_iodev_scheme \<Rightarrow> bool" where
  "io_frame hmp hmp' \<longleftrightarrow> hammer2_iodev.more hmp' = hammer2_iodev.more hmp \<and> hmp_volumes hmp' = hmp_volumes hmp"

lemma io_frame_refl [simp]: "io_frame hmp hmp"
  by (simp add: io_frame_def)

lemma io_frame_trans: "io_frame a b \<Longrightarrow> io_frame b c \<Longrightarrow> io_frame a c"
  by (simp add: io_frame_def)

lemma cleanup_chain_spec:
  assumes "\<forall>d \<in> set ds. dio_ok d" "distinct (map dio_pbase ds)"
  shows "\<exists>ks n. cleanup_chain ticks hz ds = Some (ks, n) \<and>
     (\<forall>k \<in> set ks. \<exists>d \<in> set ds. dio_same d k) \<and>
     (\<forall>d \<in> set ds. \<not> dio_free d \<longrightarrow> d \<in> set ks) \<and>
     distinct (map dio_pbase ks) \<and> dio_pbase ` set ks \<subseteq> dio_pbase ` set ds \<and>
     length (filter dio_free ds) = length (filter dio_free ks) + n"
  using assms
proof (induction ds)
  case (Cons d ds)
  then obtain ks n where IH: "cleanup_chain ticks hz ds = Some (ks, n)"
      "\<forall>k \<in> set ks. \<exists>d \<in> set ds. dio_same d k"
      "\<forall>d \<in> set ds. \<not> dio_free d \<longrightarrow> d \<in> set ks" "distinct (map dio_pbase ks)"
      "dio_pbase ` set ks \<subseteq> dio_pbase ` set ds"
      "length (filter dio_free ds) = length (filter dio_free ks) + n" by auto
  have new: "dio_pbase d \<notin> dio_pbase ` set ks" using Cons.prems IH(5) by auto
  have nb: "dio_free d \<Longrightarrow> dio_block d = NoBlock"
    using Cons.prems by (simp add: dio_ok_def dio_free_def)
  have keep: "\<forall>k \<in> set (d\<lparr>dio_act := a\<rparr> # ks). \<exists>d' \<in> set (d # ds). dio_same d' k" for a
    using IH(2) by auto
  have free: "refs_count (dio_refs x) = 0 \<longleftrightarrow> dio_free x" for x by (simp add: dio_free_def)
  have act: "dio_free (d\<lparr> dio_act := a \<rparr>) = dio_free d" for a by (simp add: dio_free_def)
  show ?case
  proof (cases "dio_free d")
    case False
    then show ?thesis using IH new keep [of "dio_act d"] by (auto simp: free)
  next
    case True
    then show ?thesis
      using IH new keep nb by (auto simp: free act Let_def)
  qed
qed simp

lemma cleanup_bucket_chains:
  assumes ok: "chains_ok (iohash hmp)" and ks: "\<forall>k \<in> set ks. \<exists>d \<in> set (iohash hmp hv). dio_same d k"
    "distinct (map dio_pbase ks)"
  shows "chains_ok (iohash (cleanup_bucket hv ks n hmp))"
proof -
  have "dio_ok k \<and> hammer2_io_hashv (dio_pbase k) = hv" if k: "k \<in> set ks" for k
  proof -
    from k ks obtain d where d: "d \<in> set (iohash hmp hv)" "dio_same d k" by blast
    then have "dio_ok d \<and> hammer2_io_hashv (dio_pbase d) = hv" using ok by (simp add: chains_ok_def)
    with dio_sameD [OF d(2)] show ?thesis by simp
  qed
  with ok ks(2) show ?thesis by (auto simp: chains_ok_def cleanup_bucket_def)
qed

lemma cleanup_bucket_shrunk:
  assumes ok: "chains_ok (iohash hmp)" and ks: "\<forall>k \<in> set ks. \<exists>d \<in> set (iohash hmp hv). dio_same d k"
    "distinct (map dio_pbase ks)" "\<forall>d \<in> set (iohash hmp hv). \<not> dio_free d \<longrightarrow> d \<in> set ks"
  shows "io_shrunk hmp (cleanup_bucket hv ks n hmp)"
proof -
  let ?hmp1 = "cleanup_bucket hv ks n hmp"
  have tab1: "iohash ?hmp1 h = (if h = hv then ks else iohash hmp h)" for h by (simp add: cleanup_bucket_def)
  show ?thesis
    unfolding io_shrunk_def dio_get_iff [OF ok] dio_get_iff [OF cleanup_bucket_chains [OF ok ks(1,2)]]
  proof (intro allI conjI impI; elim conjE)
    fix q k assume k: "k \<in> set (iohash ?hmp1 (hammer2_io_hashv q))" "dio_pbase k = q"
    show "\<exists>d. (d \<in> set (iohash hmp (hammer2_io_hashv q)) \<and> dio_pbase d = q) \<and> dio_same d k"
    proof (cases "hammer2_io_hashv q = hv")
      case True
      with k ks(1) obtain d where "d \<in> set (iohash hmp hv)" "dio_same d k" by (auto simp: tab1)
      with True k(2) dio_sameD(1) show ?thesis by metis
    qed (use k tab1 dio_same_refl in auto)
  next
    fix q d assume "d \<in> set (iohash hmp (hammer2_io_hashv q))" "dio_pbase d = q" "\<not> dio_free d"
    then show "d \<in> set (iohash ?hmp1 (hammer2_io_hashv q))" "dio_pbase d = q"
      using ks(3) by (auto simp: tab1)
  qed
qed

lemma cleanup_bucket_spec:
  assumes inv: "io_inv hmp" and hv: "hv < HAMMER2_IOHASH_SIZE"
  obtains ks n where "cleanup_chain (now_ticks hmp) (kern_hz hmp) (iohash hmp hv) = Some (ks, n)"
    "io_inv (cleanup_bucket hv ks n hmp)" "io_shrunk hmp (cleanup_bucket hv ks n hmp)"
    "io_frame hmp (cleanup_bucket hv ks n hmp)"
proof -
  have ok: "chains_ok (iohash hmp)" using inv by (simp add: io_inv_def)
  then have h: "\<forall>d \<in> set (iohash hmp hv). dio_ok d" "distinct (map dio_pbase (iohash hmp hv))"
    by (auto simp: chains_ok_def)
  obtain ks n where ks: "cleanup_chain (now_ticks hmp) (kern_hz hmp) (iohash hmp hv) = Some (ks, n)"
    "\<forall>k \<in> set ks. \<exists>d \<in> set (iohash hmp hv). dio_same d k" "distinct (map dio_pbase ks)"
    "\<forall>d \<in> set (iohash hmp hv). \<not> dio_free d \<longrightarrow> d \<in> set ks"
    "length (filter dio_free (iohash hmp hv)) = length (filter dio_free ks) + n"
    using cleanup_chain_spec [OF h, of "now_ticks hmp" "kern_hz hmp"] by metis
  have "free_dios (iohash (cleanup_bucket hv ks n hmp)) + n = free_dios (iohash hmp)"
    using free_dios_upd [OF hv, of "iohash hmp" ks] ks(5) by (simp add: cleanup_bucket_def)
  then have "io_inv (cleanup_bucket hv ks n hmp)"
    using inv cleanup_bucket_chains [OF ok ks(2,3), of n] by (auto simp: io_inv_def) (simp_all add: cleanup_bucket_def)
  with that ks(1) cleanup_bucket_shrunk [OF ok ks(2-4)] show ?thesis
    by (simp add: io_frame_def cleanup_bucket_def)
qed

lemma and_iohash_mask: "unat ((i :: u32) AND HAMMER2_IOHASH_MASK) < HAMMER2_IOHASH_SIZE"
proof -
  have "(32767 :: u32) = mask 15" by (simp add: mask_eq_exp_minus_1)
  then show ?thesis
    by (simp only: take_bit_eq_mask [symmetric] unsigned_take_bit_eq) (simp add: take_bit_nat_def)
qed

lemma cleanup_scan_spec:
  "io_inv hmp \<Longrightarrow> \<exists>hmp'. cleanup_scan m count i hmp = Some hmp' \<and> io_inv hmp' \<and>
     io_shrunk hmp hmp' \<and> io_frame hmp hmp'"
proof (induction m arbitrary: count i hmp)
  case (Suc m)
  show ?case
  proof (cases "count \<le> 0")
    case False
    obtain ks n where 1: "cleanup_chain (now_ticks hmp) (kern_hz hmp)
        (iohash hmp (unat (i AND HAMMER2_IOHASH_MASK))) = Some (ks, n)"
      "io_inv (cleanup_bucket (unat (i AND HAMMER2_IOHASH_MASK)) ks n hmp)"
      "io_shrunk hmp (cleanup_bucket (unat (i AND HAMMER2_IOHASH_MASK)) ks n hmp)"
      "io_frame hmp (cleanup_bucket (unat (i AND HAMMER2_IOHASH_MASK)) ks n hmp)"
      using cleanup_bucket_spec [OF Suc.prems and_iohash_mask] by blast
    show ?thesis
      using Suc.IH [OF 1(2), of "count - int n" "io_iterator hmp"] False 1(1)
        io_shrunk_trans [OF 1(3)] io_frame_trans [OF 1(4)]
      by (auto simp: Let_def)
  qed (use Suc.prems in simp)
qed simp

lemma cleanup_spec:
  assumes "io_inv hmp"
  shows "\<exists>hmp'. hammer2_io_hash_cleanup hmp limit = Some hmp' \<and> io_inv hmp' \<and>
     io_shrunk hmp hmp' \<and> io_frame hmp hmp'"
proof -
  let ?hmp1 = "hmp\<lparr> io_iterator := io_iterator hmp + 1 \<rparr>"
  have "io_inv ?hmp1" "io_shrunk hmp ?hmp1" "io_frame hmp ?hmp1"
    using assms by (simp_all add: io_inv_def io_shrunk_def io_frame_def dio_get_def)
  then show ?thesis
    using assms cleanup_scan_spec [of ?hmp1] io_shrunk_trans io_frame_trans
    by (simp add: hammer2_io_hash_cleanup_def Let_def) blast
qed

section \<open>Allocation\<close>

lemma dio_set_io_inv:
  assumes "io_inv hmp" "dio_get hmp p = Some d" "dio_ok (f d)" "dio_pbase (f d) = p"
    "dio_free (f d) = dio_free d"
  shows "io_inv (dio_set p f hmp)"
proof -
  have "chains_ok (iohash hmp)" using assms(1) by (simp add: io_inv_def)
  from dio_set_inv [where f = f, OF this assms(2-4)] assms(1,5) show ?thesis
    by (auto simp: io_inv_def split: if_splits)
qed

lemma ref_found_spec:
  assumes inv: "io_inv hmp" and d: "dio_get hmp p = Some d" and lt: "refs_count (dio_refs d) + 1 < 2 ^ 56"
  shows "io_inv (dio_ref_found hmp d)" "io_frame hmp (dio_ref_found hmp d)"
    "dio_get (dio_ref_found hmp d) q =
       (if q = p then Some (d\<lparr> dio_refs := dio_refs d + 1 \<rparr>) else dio_get hmp q)"
proof -
  have p: "dio_pbase d = p" using d by (rule dio_get_pbase)
  have ch: "chains_ok (iohash hmp)" using inv by (simp add: io_inv_def)
  let ?f = "\<lambda>d. d\<lparr> dio_refs := dio_refs d + 1 \<rparr>"
  have "dio_ok d" using ch d by (rule dio_get_ok)
  then have ok: "dio_ok (?f d)" using refs_inc [OF lt] by (auto simp: dio_ok_def)
  have nf: "\<not> dio_free (?f d)" using refs_inc [OF lt] by (simp add: dio_free_def)
  note s = dio_set_inv [OF ch d, of ?f, OF ok]
  show "io_inv (dio_ref_found hmp d)"
    using inv s p nf
    by (auto simp: dio_ref_found_def Let_def io_inv_def dio_free_def split: if_splits)
  show "io_frame hmp (dio_ref_found hmp d)"
    by (simp add: dio_ref_found_def Let_def io_frame_def)
  have g: "dio_get (dio_ref_found hmp d) q = dio_get (dio_set p ?f hmp) q"
    by (simp add: dio_ref_found_def Let_def p dio_get_def)
  show "dio_get (dio_ref_found hmp d) q =
       (if q = p then Some (d\<lparr> dio_refs := dio_refs d + 1 \<rparr>) else dio_get hmp q)"
    unfolding g using d by (subst dio_get_set) auto
qed

text \<open>What a successful allocation leaves: the dio at \<open>p\<close> has one reference more than before
  (it is new and empty if there was none), every other dio is untouched.\<close>

definition io_allocated :: "'a hammer2_iodev_scheme \<Rightarrow> hammer2_off_t \<Rightarrow> 'a hammer2_iodev_scheme \<Rightarrow> bool" where
  "io_allocated hmp p hmp' \<longleftrightarrow> (\<forall>q. q \<noteq> p \<longrightarrow> dio_get hmp' q = dio_get hmp q) \<and>
     (\<exists>d. dio_get hmp' p = Some d \<and>
       (case dio_get hmp p of
          None \<Rightarrow> dio_refs d = 1 \<and> dio_block d = NoBlock \<and> dio_dedup_alloc d = 0 \<and> dio_dedup_valid d = 0
        | Some d0 \<Rightarrow> dio_refs d = dio_refs d0 + 1 \<and> dio_block d = dio_block d0 \<and>
            refs_count (dio_refs d0) + 1 < 2 ^ 56 \<and>
            dio_dedup_alloc d = dio_dedup_alloc d0 \<and> dio_dedup_valid d = dio_dedup_valid d0))"

lemma io_alloc_done_spec:
  assumes inv: "io_inv hmp" and d: "dio_get hmp p = Some d" "refs_count (dio_refs d) \<noteq> 0"
  shows "\<exists>hmp'. io_alloc_done hmp p = Some (hmp', Some p) \<and> io_inv hmp' \<and> io_frame hmp hmp' \<and>
     (\<forall>q. q \<noteq> p \<longrightarrow> dio_get hmp' q = dio_get hmp q) \<and>
     (\<exists>d'. dio_get hmp' p = Some d' \<and> dio_refs d' = dio_refs d \<and> dio_block d' = dio_block d \<and>
        dio_dedup_alloc d' = dio_dedup_alloc d \<and> dio_dedup_valid d' = dio_dedup_valid d)"
proof -
  let ?f = "\<lambda>d. d\<lparr> dio_ticks := now_ticks hmp, dio_act := (if dio_act d < 10 then dio_act d + 1 else dio_act d) \<rparr>"
  have "dio_ok d" using inv d(1) by (auto simp: io_inv_def intro: dio_get_ok)
  then have "io_inv (dio_set p ?f hmp)"
    using dio_get_pbase [OF d(1)] inv d by (intro dio_set_io_inv) (auto simp: dio_ok_def dio_free_def)
  moreover have g: "dio_get (dio_set p ?f hmp) q = (if q = p then Some (?f d) else dio_get hmp q)" for q
    using d by (subst dio_get_set) auto
  ultimately show ?thesis
    using d(2) by (auto simp: io_alloc_done_def hammer2_assert_io_refs_def Let_def io_frame_def)
qed

lemma get_volume_open:
  assumes "volumes_open vs" "hammer2_get_volume vs p = r"
  shows "\<exists>v. r = Some v \<and> (\<forall>vol. v = Some vol \<longrightarrow> vol_offset vol AND HAMMER2_FREEMAP_LEVEL1_MASK = 0)"
proof -
  have "find P vs = Some v \<Longrightarrow> v \<in> set vs" for P v
    by (auto simp: find_Some_iff)
  then show ?thesis
    using assms by (fastforce simp: hammer2_get_volume_def Let_def volumes_open_def split: option.splits)
qed

lemma io_enter_spec:
  assumes inv: "io_inv hmp" and none: "dio_get hmp (dio_pbase dio) = None"
    and dio: "dio_ok dio" "\<not> dio_free dio"
  shows "\<exists>hmp'. hammer2_io_hash_enter hmp dio = Some (hmp', False) \<and> io_inv hmp' \<and> io_frame hmp hmp' \<and>
     (\<forall>q. dio_get hmp' q = (if q = dio_pbase dio then Some dio else dio_get hmp q))"
proof -
  let ?h = "hammer2_io_hashv (dio_pbase dio)"
  define hmp' where "hmp' = hmp\<lparr> iohash := (iohash hmp)(?h := iohash hmp ?h @ [dio]) \<rparr>"
  have "dio_pbase dio \<notin> dio_pbase ` set (iohash hmp ?h)"
    using none by (auto simp: dio_get_def find_None_iff)
  moreover have ch: "chains_ok (iohash hmp)" using inv by (simp add: io_inv_def)
  ultimately have "chains_ok (iohash hmp')"
    using dio(1) by (auto simp: hmp'_def chains_ok_def)
  moreover have "free_dios (iohash hmp') = free_dios (iohash hmp)"
    using free_dios_upd [OF hashv_less, of "iohash hmp" "dio_pbase dio" "iohash hmp ?h @ [dio]"] dio(2)
    by (simp add: hmp'_def)
  ultimately have "io_inv hmp'" using inv by (simp add: io_inv_def) (simp add: hmp'_def)
  moreover have "find P (ds @ [d]) = (case find P ds of None \<Rightarrow> if P d then Some d else None | Some x \<Rightarrow> Some x)"
    for P ds and d :: hammer2_io by (induction ds) auto
  then have "dio_get hmp' q = (if q = dio_pbase dio then Some dio else dio_get hmp q)" for q
    using none by (auto simp: dio_get_def hmp'_def split: option.splits)
  moreover have "hammer2_io_hash_enter hmp dio = Some (hmp', False)"
    using dio(2) none by (simp add: hammer2_io_hash_enter_def Let_def dio_free_def hmp'_def)
  ultimately show ?thesis by (auto simp: io_frame_def hmp'_def)
qed

lemma and_not_and: "(a AND NOT m) AND m = (0 :: 'a::len word)"
  by (rule bit_word_eqI) (simp only: bit_and_iff bit_not_iff bit_0_eq bot_apply bot_bool_def, blast)

lemma pbase_aligned: "data_off_pbase x AND HAMMER2_PBUFMASK = 0"
  unfolding data_off_pbase_def by (rule and_not_and)

text \<open>The offset names a range inside one physical buffer.\<close>

definition data_off_ok :: "hammer2_off_t \<Rightarrow> bool" where
  "data_off_ok x \<longleftrightarrow> data_off_pbase x \<noteq> 0 \<and>
     (data_off_lbase x + data_off_lsize x - 1) AND NOT HAMMER2_PBUFMASK = data_off_pbase x"

lemma io_alloc_found:
  assumes inv: "io_inv hmp" "io_room hmp" and ok: "data_off_ok x" and d: "dio_get hmp (data_off_pbase x) = Some d"
  shows "\<exists>hmp'. hammer2_io_alloc hmp x btype createit = Some (hmp', Some (data_off_pbase x)) \<and> io_inv hmp' \<and>
    io_frame hmp hmp' \<and> io_allocated hmp (data_off_pbase x) hmp'"
proof -
  let ?p = "data_off_pbase x"
  have lt: "refs_count (dio_refs d) + 1 < 2 ^ 56"
    using inv d io_room_get by blast
  note rf = ref_found_spec [OF inv(1) d lt]
  note dn = io_alloc_done_spec [OF rf(1), of ?p, unfolded rf(3), simplified]
  have "hammer2_assert_io_refs (dio_ref_found hmp d) ?p = Some ()"
    using rf(3) refs_inc [OF lt] by (simp add: hammer2_assert_io_refs_def)
  then have "hammer2_io_hash_lookup hmp ?p = Some (dio_ref_found hmp d, True)"
    using d by (simp add: hammer2_io_hash_lookup_def)
  then have eq: "hammer2_io_alloc hmp x btype createit = io_alloc_done (dio_ref_found hmp d) ?p"
    using ok by (simp add: hammer2_io_alloc_def Let_def data_off_ok_def)
  show ?thesis
    unfolding eq using dn refs_inc [OF lt] d lt io_frame_trans [OF rf(2)]
    by (fastforce simp: io_allocated_def)
qed

lemma io_alloc_create:
  assumes inv: "io_inv hmp" and ok: "data_off_ok x" and none: "dio_get hmp (data_off_pbase x) = None"
    and bt: "btype_ok btype" and vol: "hammer2_get_volume (hmp_volumes hmp) (data_off_pbase x) = Some (Some vol)"
    "vol_offset vol AND HAMMER2_FREEMAP_LEVEL1_MASK = 0"
  shows "\<exists>hmp'. hammer2_io_alloc hmp x btype True = Some (hmp', Some (data_off_pbase x)) \<and> io_inv hmp' \<and>
    io_frame hmp hmp' \<and> io_allocated hmp (data_off_pbase x) hmp'"
proof -
  let ?p = "data_off_pbase x"
  define dio where "dio = \<lparr> dio_pbase = ?p, dio_dbase = vol_offset vol, dio_refs = 1,
    dio_act = 5, dio_btype = btype, dio_ticks = 0, dio_error = 0,
    dio_dedup_valid = 0, dio_dedup_alloc = 0, dio_block = NoBlock \<rparr>"
  have one: "refs_count 1 = 1" by (simp add: refs_count_mod)
  have "\<not> bit (1 :: u64) 62" by (simp add: bit_1_iff)
  then have dio: "dio_ok dio" "\<not> dio_free dio"
    using ok bt pbase_aligned one by (simp_all add: dio_def dio_ok_def dio_free_def data_off_ok_def)
  obtain hmp1 where h1: "hammer2_io_hash_enter hmp dio = Some (hmp1, False)" "io_inv hmp1"
      "io_frame hmp hmp1" "\<forall>q. dio_get hmp1 q = (if q = ?p then Some dio else dio_get hmp q)"
    using io_enter_spec [OF inv(1) _ dio] none by (auto simp: dio_def)
  let ?hmp2 = "hmp1\<lparr> count_dio_allocated := count_dio_allocated hmp1 + 1 \<rparr>"
  have h2: "io_inv ?hmp2" "io_frame hmp ?hmp2"
      "\<forall>q. dio_get ?hmp2 q = (if q = ?p then Some dio else dio_get hmp q)"
    using h1 by (simp_all add: io_inv_def io_frame_def dio_get_def)
  have eq: "hammer2_io_alloc hmp x btype True = io_alloc_done ?hmp2 ?p"
    using ok none vol h1(1)
    by (simp add: hammer2_io_alloc_def Let_def dio_def hammer2_io_hash_lookup_def data_off_ok_def)
  show ?thesis
    unfolding eq using io_alloc_done_spec [OF h2(1), of ?p dio] h2 one none io_frame_trans [OF h2(2)]
    by (fastforce simp: io_allocated_def dio_def)
qed

lemma io_alloc_spec:
  assumes inv: "io_inv hmp" "io_room hmp" and bt: "createit \<Longrightarrow> btype_ok btype"
  shows "\<exists>hmp' r. hammer2_io_alloc hmp x btype createit = Some (hmp', r) \<and> io_inv hmp' \<and>
    io_frame hmp hmp' \<and>
    (case r of None \<Rightarrow> iohash hmp' = iohash hmp
     | Some p \<Rightarrow> p = data_off_pbase x \<and> io_allocated hmp p hmp')"
proof -
  let ?p = "data_off_pbase x"
  have pan: "io_inv (hpanic hmp)" "io_frame hmp (hpanic hmp)"
    using inv by (simp_all add: io_inv_def io_frame_def)
  obtain v where v: "hammer2_get_volume (hmp_volumes hmp) ?p = Some v"
      "\<And>vol. v = Some vol \<Longrightarrow> vol_offset vol AND HAMMER2_FREEMAP_LEVEL1_MASK = 0"
    using get_volume_open [of "hmp_volumes hmp" ?p] inv by (auto simp: io_inv_def)
  consider (bad) "\<not> data_off_ok x" | (found) d where "data_off_ok x" "dio_get hmp ?p = Some d"
    | (create) vol where "data_off_ok x" "dio_get hmp ?p = None" "createit" "v = Some vol"
    | (novol) "data_off_ok x" "dio_get hmp ?p = None" "createit" "v = None"
    | (none) "data_off_ok x" "dio_get hmp ?p = None" "\<not> createit"
    by fastforce
  then show ?thesis
  proof cases
    case bad
    then show ?thesis using pan by (auto simp: hammer2_io_alloc_def Let_def data_off_ok_def)
  next
    case found
    then show ?thesis using io_alloc_found [OF inv] by fastforce
  next
    case create
    then show ?thesis using io_alloc_create [OF inv(1)] bt v by fastforce
  next
    case novol
    then show ?thesis using v pan
      by (simp add: hammer2_io_alloc_def Let_def data_off_ok_def hammer2_io_hash_lookup_def)
  next
    case none
    then show ?thesis using inv
      by (simp add: hammer2_io_alloc_def Let_def data_off_ok_def hammer2_io_hash_lookup_def)
  qed
qed

section \<open>Putting\<close>

lemma inc_iostat_ok: "btype_ok t \<Longrightarrow> \<exists>st. hammer2_inc_iostat ios t HAMMER2_PBUFSIZE = Some st"
  unfolding btype_ok_def hammer2_inc_iostat_def by (elim insertE emptyE) simp_all

lemma io_dispose_spec:
  assumes "btype_ok (dio_btype d)"
  shows "\<exists>hmp'. io_dispose hmp d orefs = Some hmp' \<and> iohash hmp' = iohash hmp \<and>
     iofree_count hmp' = iofree_count hmp \<and> io_frame hmp hmp' \<and> hammer2_dio_limit hmp' = hammer2_dio_limit hmp"
  using inc_iostat_ok [OF assms, of "iostat_write hmp"]
  by (auto simp: io_dispose_def Let_def io_frame_def split: dio_block.splits)

text \<open>After a put: the dio at \<open>p\<close> has one reference less, a dio that has references left is
  otherwise as it was, one without any may be gone.\<close>

definition io_put :: "'a hammer2_iodev_scheme \<Rightarrow> hammer2_off_t \<Rightarrow> 'a hammer2_iodev_scheme \<Rightarrow> bool" where
  "io_put hmp p hmp' \<longleftrightarrow> (\<forall>q.
     (\<forall>d'. dio_get hmp' q = Some d' \<longrightarrow> (\<exists>d. dio_get hmp q = Some d \<and>
        dio_dedup_alloc d' = dio_dedup_alloc d \<and> dio_dedup_valid d' = dio_dedup_valid d \<and>
        refs_count (dio_refs d') = refs_count (dio_refs d) - (if q = p then 1 else 0))) \<and>
     (\<forall>d. dio_get hmp q = Some d \<and> refs_count (dio_refs d) > (if q = p then 1 else 0) \<longrightarrow>
        dio_get hmp' q = Some (if q = p then d\<lparr> dio_refs := dio_refs d - 1 \<rparr> else d)))"

lemma io_trim_spec:
  "io_inv hmp \<Longrightarrow> \<exists>hmp'. io_trim hmp = Some hmp' \<and> io_inv hmp' \<and> io_shrunk hmp hmp' \<and> io_frame hmp hmp'"
  unfolding io_trim_def Let_def using cleanup_spec by (auto split: if_splits)

lemma io_put_of_shrunk:
  assumes d: "dio_get hmp p = Some d" "refs_count (dio_refs d) = 1"
    and g: "\<And>q. dio_get hmp2 q = (if q = p then Some d2 else dio_get hmp q)"
    and d2: "dio_dedup_alloc d2 = dio_dedup_alloc d" "dio_dedup_valid d2 = dio_dedup_valid d"
      "refs_count (dio_refs d2) = 0"
    and sh: "io_shrunk hmp2 hmp3"
  shows "io_put hmp p hmp3"
  unfolding io_put_def
proof (intro allI conjI impI; (elim conjE)?)
  fix q d' assume "dio_get hmp3 q = Some d'"
  then obtain x where x: "dio_get hmp2 q = Some x" "dio_same x d'"
    using sh unfolding io_shrunk_def by blast
  show "\<exists>d. dio_get hmp q = Some d \<and> dio_dedup_alloc d' = dio_dedup_alloc d \<and>
    dio_dedup_valid d' = dio_dedup_valid d \<and>
    refs_count (dio_refs d') = refs_count (dio_refs d) - (if q = p then 1 else 0)"
    using x(1) g [of q] d d2 dio_sameD [OF x(2)] by (cases "q = p") auto
next
  fix q x assume x: "dio_get hmp q = Some x" "refs_count (dio_refs x) > (if q = p then 1 else 0)"
  then have "q \<noteq> p" "\<not> dio_free x" using d by (auto simp: dio_free_def split: if_splits)
  then have "dio_get hmp2 q = Some x" using g [of q] x by simp
  with \<open>\<not> dio_free x\<close> \<open>q \<noteq> p\<close> sh show "dio_get hmp3 q = Some (if q = p then x\<lparr> dio_refs := dio_refs x - 1 \<rparr> else x)"
    unfolding io_shrunk_def by auto
qed

lemma io_putblk_more:
  assumes inv: "io_inv hmp" and d: "dio_get hmp p = Some d" "refs_count (dio_refs d) > 1"
  shows "\<exists>hmp'. hammer2_io_putblk hmp p = Some hmp' \<and> io_inv hmp' \<and> io_frame hmp hmp' \<and> io_put hmp p hmp'"
proof -
  let ?f = "\<lambda>d. d\<lparr> dio_refs := dio_refs d - 1 \<rparr>"
  have "refs_count (dio_refs d) \<noteq> 0" using d(2) by simp
  note dec = refs_dec [OF this]
  have ok: "dio_ok d" using inv d(1) by (auto simp: io_inv_def intro: dio_get_ok)
  have "dio_ok (?f d)" "dio_free (?f d) = dio_free d"
    using ok dec d(2) by (auto simp: dio_ok_def dio_free_def)
  then have "io_inv (dio_set p ?f hmp)"
    using inv d dio_get_pbase [OF d(1)] by (intro dio_set_io_inv) auto
  moreover have "dio_get (dio_set p ?f hmp) q = (if q = p then Some (?f d) else dio_get hmp q)" for q
    using d by (subst dio_get_set) auto
  ultimately show ?thesis
    using d dec by (auto simp: hammer2_io_putblk_def Let_def io_frame_def io_put_def)
qed

lemma io_putblk_last:
  assumes inv: "io_inv hmp" and d: "dio_get hmp p = Some d" "refs_count (dio_refs d) = 1"
  shows "\<exists>hmp'. hammer2_io_putblk hmp p = Some hmp' \<and> io_inv hmp' \<and> io_frame hmp hmp' \<and> io_put hmp p hmp'"
proof -
  have ch: "chains_ok (iohash hmp)" using inv by (simp add: io_inv_def)
  have ok: "dio_ok d" using ch d(1) by (rule dio_get_ok)
  define refs where "refs = refs_lastdrop (dio_refs d)"
  let ?f = "\<lambda>d. d\<lparr> dio_refs := refs, dio_block := NoBlock \<rparr>"
  have cnt: "refs_count refs = 0" "\<not> bit refs 62"
    using d(2) refs_dec(1) [of "dio_refs d"] by (simp_all add: refs_def)
  have bt: "btype_ok (dio_btype (d\<lparr> dio_refs := refs \<rparr>))" using ok by (simp add: dio_ok_def)
  obtain hmp1 where h1: "io_dispose hmp (d\<lparr> dio_refs := refs \<rparr>) (dio_refs d) = Some hmp1"
      "iohash hmp1 = iohash hmp" "iofree_count hmp1 = iofree_count hmp" "io_frame hmp hmp1"
    using io_dispose_spec [OF bt] by blast
  let ?hmp2 = "(dio_set p ?f hmp1)\<lparr> iofree_count := iofree_count hmp1 + 1 \<rparr>"
  have g1: "dio_get hmp1 q = dio_get hmp q" for q by (simp add: dio_get_def h1)
  have s: "dio_ok (?f d)" "dio_free (?f d)" "\<not> dio_free d"
    using ok cnt d(2) by (simp_all add: dio_ok_def dio_free_def)
  have "io_inv ?hmp2"
    using dio_set_inv [where f = ?f and hmp = hmp1, of p d] ch inv h1 s dio_get_pbase [OF d(1)] d(1)
    by (auto simp: io_inv_def g1 io_frame_def)
  moreover have f2: "io_frame hmp ?hmp2" using h1(4) by (simp add: io_frame_def)
  moreover have g2: "dio_get ?hmp2 q = (if q = p then Some (?f d) else dio_get hmp q)" for q
    using d g1 dio_get_set [of ?f p hmp1 q] by (simp add: dio_get_def)
  ultimately obtain hmp3 where h3: "hammer2_io_putblk hmp p = Some hmp3" "io_inv hmp3"
      "io_shrunk ?hmp2 hmp3" "io_frame ?hmp2 hmp3"
    using io_trim_spec [of ?hmp2] d h1(1) cnt(2)
    by (auto simp: hammer2_io_putblk_def Let_def refs_def [symmetric] refs_flag_good)
  have "io_put hmp p hmp3"
    by (rule io_put_of_shrunk [OF d g2 _ _ _ h3(3)]) (simp_all add: cnt)
  with h3 io_frame_trans [OF f2 h3(4)] show ?thesis by blast
qed

lemma io_putblk_spec:
  assumes "io_inv hmp" "dio_get hmp p = Some d" "refs_count (dio_refs d) \<noteq> 0"
  shows "\<exists>hmp'. hammer2_io_putblk hmp p = Some hmp' \<and> io_inv hmp' \<and> io_frame hmp hmp' \<and> io_put hmp p hmp'"
  using io_putblk_more [OF assms(1,2)] io_putblk_last [OF assms(1,2)] assms(3)
  by (cases "refs_count (dio_refs d) = 1") auto

section \<open>Effects of whole operations\<close>

text \<open>What is observable of a dio that may come and go: its references and its dedup bits.\<close>

definition ref_of :: "'a hammer2_iodev_scheme \<Rightarrow> hammer2_off_t \<Rightarrow> nat" where
  "ref_of hmp q = (case dio_get hmp q of None \<Rightarrow> 0 | Some d \<Rightarrow> refs_count (dio_refs d))"

definition dedup_of :: "'a hammer2_iodev_scheme \<Rightarrow> hammer2_off_t \<Rightarrow> u64 \<times> u64" where
  "dedup_of hmp q = (case dio_get hmp q of None \<Rightarrow> (0, 0) | Some d \<Rightarrow> (dio_dedup_alloc d, dio_dedup_valid d))"

text \<open>The operation left every reference count as it was, and the dedup bits at \<open>q\<close> are
  \<open>f q\<close> of what they were, or none because the dio was cleaned out.\<close>

definition io_effect :: "(hammer2_off_t \<Rightarrow> u64 \<times> u64 \<Rightarrow> u64 \<times> u64) \<Rightarrow>
    'a hammer2_iodev_scheme \<Rightarrow> 'a hammer2_iodev_scheme \<Rightarrow> bool" where
  "io_effect f hmp hmp' \<longleftrightarrow> io_inv hmp' \<and> io_frame hmp hmp' \<and>
     (\<forall>q. ref_of hmp' q = ref_of hmp q \<and>
       (dedup_of hmp' q = (0, 0) \<or> dedup_of hmp' q = f q (dedup_of hmp q)))"

lemma io_effect_room: "io_effect f hmp hmp' \<Longrightarrow> io_inv hmp \<Longrightarrow> io_room hmp \<Longrightarrow> io_room hmp'"
proof -
  assume e: "io_effect f hmp hmp'" and "io_inv hmp" "io_room hmp"
  then have "\<And>q. ref_of hmp q + 1 < 2 ^ 56"
    using io_room_get [of hmp] by (auto simp: ref_of_def split: option.splits)
  then have "ref_of hmp' q + 1 < 2 ^ 56" for q using e by (simp add: io_effect_def)
  then show ?thesis
    using e io_room_get [of hmp'] by (fastforce simp: io_effect_def ref_of_def split: option.splits)
qed

lemma io_put_effect:
  assumes a: "io_allocated hmp p hmp1"
    and g: "\<And>q. dio_get hmp2 q = (if q = p then Some d2 else dio_get hmp1 q)"
    and d2: "dio_get hmp1 p = Some d1" "refs_count (dio_refs d2) = refs_count (dio_refs d1)"
      "(dio_dedup_alloc d2, dio_dedup_valid d2) = f (dio_dedup_alloc d1, dio_dedup_valid d1)"
    and put: "io_put hmp2 p hmp3"
  shows "ref_of hmp3 q = ref_of hmp q \<and>
    (dedup_of hmp3 q = (0, 0) \<or> dedup_of hmp3 q = (if q = p then f (dedup_of hmp q) else dedup_of hmp q))"
proof (cases "q = p")
  case False
  then have g': "dio_get hmp2 q = dio_get hmp q" using a g by (simp add: io_allocated_def)
  show ?thesis
  proof (cases "dio_get hmp3 q")
    case None
    then have "ref_of hmp q = 0"
      using put False g' unfolding io_put_def ref_of_def by (force split: option.splits)
    with None show ?thesis by (simp add: ref_of_def dedup_of_def)
  next
    case (Some d)
    then show ?thesis
      using put False g' unfolding io_put_def ref_of_def dedup_of_def by (fastforce split: option.splits)
  qed
next
  case True
  have one: "refs_count 1 = 1" by (simp add: refs_count_mod)
  have r: "refs_count (dio_refs d2) = ref_of hmp p + 1"
      "(dio_dedup_alloc d2, dio_dedup_valid d2) = f (dedup_of hmp p)"
    using a d2 one refs_inc(1) by (auto simp: io_allocated_def ref_of_def dedup_of_def split: option.splits)
  have g': "dio_get hmp2 p = Some d2" using g by simp
  show ?thesis
  proof (cases "dio_get hmp3 p")
    case None
    then have "\<not> refs_count (dio_refs d2) > 1" using put g' unfolding io_put_def by force
    with None r True show ?thesis by (simp add: ref_of_def dedup_of_def)
  next
    case (Some d)
    then show ?thesis using put g' r True unfolding io_put_def ref_of_def [of hmp3] dedup_of_def [of hmp3]
      by (fastforce split: option.splits)
  qed
qed

text \<open>A failed read or grab answers with an errno.\<close>

definition res_ok :: "blk_res \<Rightarrow> bool" where
  "res_ok r \<longleftrightarrow> r \<noteq> BlkErr 0"

lemma block_map_NoBlock [simp]: "block_map f b = NoBlock \<longleftrightarrow> b = NoBlock"
  by (cases b) auto

lemma word_minus_mask: "(x :: 'a::len word) - (x AND NOT m) = x AND m"
proof -
  have "x = (x AND m) + (x AND NOT m)"
    by (subst disjunctive_add) (auto simp: bit_and_iff bit_not_iff bit_or_iff intro: bit_word_eqI)
  then show ?thesis by (metis add_diff_cancel_right')
qed

lemma lbase_in_buffer: "sint (ucast (data_off_lbase x - data_off_pbase x) :: 32 word) = int (unat (data_off_lbase x AND HAMMER2_PBUFMASK))"
    "unat (data_off_lbase x AND HAMMER2_PBUFMASK) < HAMMER2_PBUFSIZE"
proof -
  have m: "(65535 :: u64) = mask 16" by (simp add: mask_eq_exp_minus_1)
  show lt: "unat (data_off_lbase x AND HAMMER2_PBUFMASK) < HAMMER2_PBUFSIZE"
    unfolding m by (simp only: take_bit_eq_mask [symmetric] unsigned_take_bit_eq) (simp add: take_bit_nat_def)
  have u: "unat (ucast (data_off_lbase x AND HAMMER2_PBUFMASK) :: 32 word) = unat (data_off_lbase x AND HAMMER2_PBUFMASK)"
    using lt by (simp add: unsigned_ucast_eq take_bit_nat_eq_self)
  then have "sint (ucast (data_off_lbase x AND HAMMER2_PBUFMASK) :: 32 word) = int (unat (data_off_lbase x AND HAMMER2_PBUFMASK))"
    using lt sint_small [of "ucast (data_off_lbase x AND HAMMER2_PBUFMASK) :: 32 word"] by simp
  then show "sint (ucast (data_off_lbase x - data_off_pbase x) :: 32 word) = int (unat (data_off_lbase x AND HAMMER2_PBUFMASK))"
    unfolding data_off_pbase_def by (simp only: word_minus_mask)
qed

text \<open>\<open>d'\<close> is \<open>d\<close> with another block, perhaps dirtied.\<close>

definition dio_filled :: "hammer2_io \<Rightarrow> hammer2_io \<Rightarrow> bool" where
  "dio_filled d d' \<longleftrightarrow> dio_pbase d' = dio_pbase d \<and> dio_btype d' = dio_btype d \<and>
     dio_dedup_alloc d' = dio_dedup_alloc d \<and> dio_dedup_valid d' = dio_dedup_valid d \<and>
     refs_count (dio_refs d') = refs_count (dio_refs d) \<and> (bit (dio_refs d') 62 \<longleftrightarrow> bit (dio_refs d) 62)"

lemma io_apply_op_spec:
  assumes "dio_block d \<noteq> NoBlock" "dio_pbase d = data_off_pbase lbase"
  shows "\<exists>d'. io_apply_op op lbase lsize d = Some d' \<and> dio_filled d d' \<and> dio_block d' \<noteq> NoBlock"
proof -
  obtain n where "sint (ucast (data_off_lbase lbase - data_off_pbase lbase) :: 32 word) = int n" "n < 65536"
    using lbase_in_buffer [of lbase] by blast
  then show ?thesis
    using assms
    by (cases op) (auto simp: io_apply_op_def io_zero_def hammer2_io_data_def dio_filled_def Let_def)
qed

lemma bread_spec:
  assumes "btype_ok (dio_btype d)" "dio_block d = NoBlock" "res_ok r"
  shows "\<exists>hmp' d' e. hammer2_bread hmp d r = Some (hmp', d', e) \<and> dio_filled d d' \<and>
    (e = 0 \<longleftrightarrow> dio_block d' \<noteq> NoBlock) \<and> iohash hmp' = iohash hmp \<and> iofree_count hmp' = iofree_count hmp \<and>
    io_frame hmp hmp'"
  using inc_iostat_ok [OF assms(1), of "iostat_read hmp"] assms(2,3)
  by (cases r) (auto simp: hammer2_bread_def dio_filled_def io_frame_def res_ok_def)

lemma io_fill_spec:
  assumes "btype_ok (dio_btype d)" "dio_block d = NoBlock" "res_ok r" "dio_pbase d = data_off_pbase lbase"
  shows "\<exists>hmp' d' e. io_fill hmp d lbase lsize op r = Some (hmp', d', e) \<and> dio_filled d d' \<and>
    (e = 0 \<longleftrightarrow> dio_block d' \<noteq> NoBlock) \<and> iohash hmp' = iohash hmp \<and> iofree_count hmp' = iofree_count hmp \<and>
    io_frame hmp hmp'"
proof (cases "dio_pbase d = data_off_lbase lbase \<and> HAMMER2_PBUFSIZE = lsize \<and>
    (op = HAMMER2_DOP_NEW \<or> op = HAMMER2_DOP_NEWNZ)")
  case True
  then show ?thesis
    using assms(2,3) by (cases r; auto simp: io_fill_def hammer2_getblk_new_def err_of_res_def blk_of_res_def
        dio_filled_def res_ok_def)
next
  case False
  obtain hmp' d' e where b: "hammer2_bread hmp d r = Some (hmp', d', e)" "dio_filled d d'"
    "e = 0 \<longleftrightarrow> dio_block d' \<noteq> NoBlock" "iohash hmp' = iohash hmp" "iofree_count hmp' = iofree_count hmp"
    "io_frame hmp hmp'"
    using bread_spec [OF assms(1-3)] by blast
  show ?thesis
  proof (cases "dio_block d' = NoBlock \<or> (dio_pbase d = data_off_lbase lbase \<and> HAMMER2_PBUFSIZE = lsize)")
    case True
    with False b show ?thesis by (auto simp: io_fill_def)
  next
    case nb: False
    moreover have "dio_pbase d' = data_off_pbase lbase" using b(2) assms(4) by (simp add: dio_filled_def)
    ultimately obtain d2 where "io_apply_op op lbase lsize d' = Some d2" "dio_filled d' d2" "dio_block d2 \<noteq> NoBlock"
      using io_apply_op_spec by blast
    with nb b show ?thesis by (auto simp: io_fill_def dio_filled_def)
  qed
qed

text \<open>A block got: \<open>io_allocated\<close>, with the block filled in and the error recorded.\<close>

lemma dio_filled_trans: "dio_filled a b \<Longrightarrow> dio_filled b c \<Longrightarrow> dio_filled a c"
  by (simp add: dio_filled_def)

lemma dio_set_const_spec:
  assumes "io_inv hmp" "dio_get hmp p = Some d0" "dio_ok d" "dio_pbase d = p" "dio_free d = dio_free d0"
  shows "io_inv (dio_set p (\<lambda>_. d) hmp)"
    "dio_get (dio_set p (\<lambda>_. d) hmp) q = (if q = p then Some d else dio_get hmp q)"
proof -
  show "io_inv (dio_set p (\<lambda>_. d) hmp)" using assms by (intro dio_set_io_inv [of hmp p d0]) auto
  have "find (\<lambda>d. dio_pbase d = q) (dio_update p (\<lambda>_. d) ds) = find (\<lambda>d. dio_pbase d = q) ds"
    if "q \<noteq> p" for ds using that assms(4) by (induction ds) auto
  then show "dio_get (dio_set p (\<lambda>_. d) hmp) q = (if q = p then Some d else dio_get hmp q)"
    using dio_get_set_const [OF assms(2,4)] by (simp add: dio_get_def dio_set_def)
qed

lemma io_getblk_spec:
  assumes al: "hammer2_io_alloc hmp lbase btype (op \<noteq> HAMMER2_DOP_READQ) = Some (hmp1, Some p)"
    and inv: "io_inv hmp1" and p: "p = data_off_pbase lbase"
    and d: "dio_get hmp1 p = Some d" "refs_count (dio_refs d) \<noteq> 0"
    and sz: "2 ^ unat (lbase AND HAMMER2_OFF_MASK_RADIX) = lsize" and r: "res_ok r"
  shows "\<exists>hmp2 d2. hammer2_io_getblk hmp btype lbase lsize op r = Some (hmp2, Some p) \<and> io_inv hmp2 \<and>
    io_frame hmp1 hmp2 \<and> (\<forall>q. dio_get hmp2 q = (if q = p then Some d2 else dio_get hmp1 q)) \<and>
    refs_count (dio_refs d2) = refs_count (dio_refs d) \<and>
    dio_dedup_alloc d2 = dio_dedup_alloc d \<and> dio_dedup_valid d2 = dio_dedup_valid d"
proof -
  define op' where "op' = (if op = HAMMER2_DOP_READQ then HAMMER2_DOP_READ else op)"
  have ok: "dio_ok d" using inv d(1) by (auto simp: io_inv_def intro: dio_get_ok)
  have pb: "dio_pbase d = p" using d(1) by (rule dio_get_pbase)
  show ?thesis
  proof (cases "bit (dio_refs d) 62")
    case True
    then have "dio_block d \<noteq> NoBlock" using ok by (simp add: dio_ok_def)
    then obtain d2 where d2: "io_apply_op op' lbase lsize d = Some d2" "dio_filled d d2" "dio_block d2 \<noteq> NoBlock"
      using io_apply_op_spec pb p by blast
    have "dio_ok d2" "dio_pbase d2 = p" "dio_free d2 = dio_free d"
      using d2 ok True pb d(2) by (auto simp: dio_filled_def dio_ok_def dio_free_def)
    note s = dio_set_const_spec [OF inv d(1) this]
    show ?thesis
      using al d d2 sz True s
      by (simp add: hammer2_io_getblk_def Let_def hammer2_assert_io_refs_def refs_flag_good op'_def
          dio_filled_def io_frame_def)
  next
    case False
    then have nb: "dio_block d = NoBlock" "btype_ok (dio_btype d)" using ok by (simp_all add: dio_ok_def)
    have pl: "dio_pbase d = data_off_pbase lbase" using pb p by simp
    obtain hmp' d' e where f: "io_fill hmp1 d lbase lsize op' r = Some (hmp', d', e)" "dio_filled d d'"
      "e = 0 \<longleftrightarrow> dio_block d' \<noteq> NoBlock" "iohash hmp' = iohash hmp1" "iofree_count hmp' = iofree_count hmp1"
      "io_frame hmp1 hmp'"
      using io_fill_spec [OF nb(2,1) r pl] by blast
    define d2 where "d2 = (if e = 0 then d'\<lparr> dio_error := e, dio_refs := dio_refs d' OR HAMMER2_DIO_GOOD \<rparr>
      else d'\<lparr> dio_error := e \<rparr>)"
    have inv': "io_inv hmp'" "dio_get hmp' p = Some d" using inv f d by (simp_all add: io_inv_def dio_get_def io_frame_def)
    have "dio_ok d2" "dio_pbase d2 = p" "dio_free d2 = dio_free d"
      using f(2,3) ok False pb d(2) by (auto simp: dio_filled_def dio_ok_def dio_free_def d2_def)
    note s = dio_set_const_spec [OF inv' this]
    have "hammer2_io_getblk hmp btype lbase lsize op r = Some (dio_set p (\<lambda>_. d2) hmp', Some p)"
      using al d f(1,3) sz False nb(1)
      by (auto simp: hammer2_io_getblk_def Let_def hammer2_assert_io_refs_def refs_flag_good op'_def d2_def)
    moreover have "refs_count (dio_refs d2) = refs_count (dio_refs d)"
      "dio_dedup_alloc d2 = dio_dedup_alloc d" "dio_dedup_valid d2 = dio_dedup_valid d"
      using f(2) by (simp_all add: dio_filled_def d2_def)
    ultimately show ?thesis
      using s f(4,6) by (auto simp: io_frame_def dio_get_def)
  qed
qed


section \<open>The contract of the operations on dedup bits\<close>

lemma io_allocated_ref:
  assumes "io_allocated hmp p hmp1"
  shows "\<exists>d. dio_get hmp1 p = Some d \<and> refs_count (dio_refs d) \<noteq> 0"
proof -
  have one: "refs_count 1 = 1" by (simp add: refs_count_mod)
  show ?thesis using assms one refs_inc(1) by (auto simp: io_allocated_def split: option.splits)
qed

text \<open>The range at \<open>x\<close> lies in one buffer on a volume.\<close>

definition data_off_backed :: "hammer2_off_t \<Rightarrow> 'a hammer2_iodev_scheme \<Rightarrow> bool" where
  "data_off_backed x hmp \<longleftrightarrow> data_off_ok x \<and>
     (\<exists>vol. hammer2_get_volume (hmp_volumes hmp) (data_off_pbase x) = Some (Some vol))"

lemma data_off_backed_frame: "data_off_backed x hmp \<Longrightarrow> io_frame hmp hmp' \<Longrightarrow> data_off_backed x hmp'"
  by (simp add: data_off_backed_def io_frame_def)

lemma io_alloc_backed:
  assumes inv: "io_inv hmp" "io_room hmp" and bt: "btype_ok btype" and ok: "data_off_backed x hmp"
  shows "\<exists>hmp'. hammer2_io_alloc hmp x btype True = Some (hmp', Some (data_off_pbase x)) \<and> io_inv hmp' \<and>
    io_frame hmp hmp' \<and> io_allocated hmp (data_off_pbase x) hmp'"
proof (cases "dio_get hmp (data_off_pbase x)")
  case None
  then obtain vol where vol: "hammer2_get_volume (hmp_volumes hmp) (data_off_pbase x) = Some (Some vol)"
    using ok by (auto simp: data_off_backed_def)
  moreover from this have "vol_offset vol AND HAMMER2_FREEMAP_LEVEL1_MASK = 0"
    using get_volume_open inv(1) by (fastforce simp: io_inv_def)
  ultimately show ?thesis
    using io_alloc_create [OF inv(1) _ None bt] ok by (auto simp: data_off_backed_def)
next
  case (Some d)
  then show ?thesis using io_alloc_found [OF inv _ Some] ok by (auto simp: data_off_backed_def)
qed

lemma io_newnz_put_effect:
  assumes inv: "io_inv hmp" "io_room hmp" and bt: "btype_ok btype" and ok: "data_off_backed x hmp"
    and sz: "2 ^ unat (x AND HAMMER2_OFF_MASK_RADIX) = lsize" and r: "res_ok r"
  shows "\<exists>hmp'. io_newnz_put hmp btype x lsize r = Some hmp' \<and> io_effect (\<lambda>_. id) hmp hmp'"
proof -
  let ?p = "data_off_pbase x"
  obtain hmp1 where h1: "hammer2_io_alloc hmp x btype True = Some (hmp1, Some ?p)" "io_inv hmp1"
      "io_frame hmp hmp1" "io_allocated hmp ?p hmp1"
    using io_alloc_backed [OF inv bt ok] by blast
  obtain d where d: "dio_get hmp1 ?p = Some d" "refs_count (dio_refs d) \<noteq> 0"
    using io_allocated_ref [OF h1(4)] by blast
  obtain hmp2 d2 where h2: "hammer2_io_getblk hmp btype x lsize HAMMER2_DOP_NEWNZ r = Some (hmp2, Some ?p)"
      "io_inv hmp2" "io_frame hmp1 hmp2" "\<And>q. dio_get hmp2 q = (if q = ?p then Some d2 else dio_get hmp1 q)"
      "refs_count (dio_refs d2) = refs_count (dio_refs d)"
      "dio_dedup_alloc d2 = dio_dedup_alloc d" "dio_dedup_valid d2 = dio_dedup_valid d"
    using io_getblk_spec [OF _ h1(2) refl d sz r, of hmp btype HAMMER2_DOP_NEWNZ] h1(1) by auto
  obtain hmp3 where h3: "hammer2_io_putblk hmp2 ?p = Some hmp3" "io_inv hmp3" "io_frame hmp2 hmp3" "io_put hmp2 ?p hmp3"
    using io_putblk_spec [OF h2(2), of ?p d2] h2(4,5) d(2) by auto
  have "ref_of hmp3 q = ref_of hmp q \<and> (dedup_of hmp3 q = (0, 0) \<or> dedup_of hmp3 q = dedup_of hmp q)" for q
    using io_put_effect [OF h1(4) h2(4) d(1) h2(5) _ h3(4), of id q] h2(6,7)
    by (simp only: id_apply if_cancel)
  then have "io_effect (\<lambda>_. id) hmp hmp3"
    using h2(3) h3 h1(3) by (simp add: io_effect_def io_frame_def)
  with h2(1) h3(1) show ?thesis by (simp add: io_newnz_put_def hammer2_io_newnz_def)
qed

text \<open>The operations that take a dio, change its dedup bits by \<open>g\<close> and drop it.\<close>

lemma io_dedup_change:
  assumes inv: "io_inv hmp1" and a: "io_allocated hmp p hmp1" and fr: "io_frame hmp hmp1"
    and g: "\<And>d. (dio_dedup_alloc (g d), dio_dedup_valid (g d)) = f (dio_dedup_alloc d, dio_dedup_valid d)"
      "\<And>d. dio_same (g d) (d\<lparr> dio_dedup_alloc := dio_dedup_alloc (g d), dio_dedup_valid := dio_dedup_valid (g d) \<rparr>)"
  shows "\<exists>hmp'. hammer2_io_putblk (dio_set p g hmp1) p = Some hmp' \<and>
    io_effect (\<lambda>q b. if q = p then f b else b) hmp hmp'"
proof -
  obtain d where d: "dio_get hmp1 p = Some d" "refs_count (dio_refs d) \<noteq> 0"
    using io_allocated_ref [OF a] by blast
  have ok: "dio_ok d" using inv d(1) by (auto simp: io_inv_def intro: dio_get_ok)
  have gd: "dio_pbase (g x) = dio_pbase x" "dio_refs (g x) = dio_refs x" "dio_ok (g x) = dio_ok x" for x
    using dio_sameD [OF g(2) [of x]] by (simp_all add: dio_ok_def)
  have "io_inv (dio_set p g hmp1)"
    using inv d(1) ok gd dio_get_pbase [OF d(1)] by (intro dio_set_io_inv) (auto simp: dio_free_def)
  moreover have g1: "dio_get (dio_set p g hmp1) q = (if q = p then Some (g d) else dio_get hmp1 q)" for q
    using d gd by (subst dio_get_set) auto
  ultimately obtain hmp3 where h3: "hammer2_io_putblk (dio_set p g hmp1) p = Some hmp3" "io_inv hmp3"
      "io_frame (dio_set p g hmp1) hmp3" "io_put (dio_set p g hmp1) p hmp3"
    using io_putblk_spec [of "dio_set p g hmp1" p "g d"] d gd by auto
  have "io_effect (\<lambda>q b. if q = p then f b else b) hmp hmp3"
    using io_put_effect [where f = f, OF a g1 d(1) _ g(1) h3(4)] gd h3 fr by (simp add: io_effect_def io_frame_def)
  with h3(1) show ?thesis by blast
qed

text \<open>The dedup bits of \<open>x\<close> set, and cleared, in the buffer they belong to.\<close>

definition dedup_bits_set :: "hammer2_off_t \<Rightarrow> nat \<Rightarrow> hammer2_off_t \<Rightarrow> u64 \<times> u64 \<Rightarrow> u64 \<times> u64" where
  "dedup_bits_set x bytes q b =
     (if q = data_off_pbase x
      then (fst b OR hammer2_dedup_mask q x bytes, snd b AND NOT (hammer2_dedup_mask q x bytes)) else b)"

definition dedup_bits_clear :: "hammer2_off_t \<Rightarrow> nat \<Rightarrow> hammer2_off_t \<Rightarrow> u64 \<times> u64 \<Rightarrow> u64 \<times> u64" where
  "dedup_bits_clear x bytes q b =
     (if q = data_off_pbase x
      then (fst b AND NOT (hammer2_dedup_mask q x bytes), snd b AND NOT (hammer2_dedup_mask q x bytes)) else b)"

lemma io_effect_same:
  "io_inv hmp' \<Longrightarrow> io_frame hmp hmp' \<Longrightarrow> iohash hmp' = iohash hmp \<Longrightarrow>
   (\<And>q. dedup_of hmp q = (0, 0) \<or> f q (dedup_of hmp q) = dedup_of hmp q) \<Longrightarrow> io_effect f hmp hmp'"
proof -
  assume a: "io_inv hmp'" "io_frame hmp hmp'" "iohash hmp' = iohash hmp"
    "\<And>q. dedup_of hmp q = (0, 0) \<or> f q (dedup_of hmp q) = dedup_of hmp q"
  then have "dedup_of hmp' q = dedup_of hmp q" "ref_of hmp' q = ref_of hmp q" for q
    by (simp_all add: ref_of_def dedup_of_def dio_get_def)
  with a show ?thesis by (simp add: io_effect_def) metis
qed


lemma dedup_set_effect:
  assumes inv: "io_inv hmp" "io_room hmp" and bt: "btype_ok (br_type bref)"
    and ok: "data_off_backed (br_data_off bref) hmp"
  shows "\<exists>hmp'. hammer2_io_dedup_set hmp bref = Some hmp' \<and>
     io_effect (dedup_bits_set (br_data_off bref) (unat (data_off_lsize (br_data_off bref)))) hmp hmp'"
proof -
  let ?x = "br_data_off bref"
  let ?p = "data_off_pbase ?x"
  let ?m = "hammer2_dedup_mask ?p ?x (unat (data_off_lsize ?x))"
  let ?g = "\<lambda>d. d\<lparr> dio_dedup_valid := dio_dedup_valid d AND NOT ?m, dio_dedup_alloc := dio_dedup_alloc d OR ?m \<rparr>"
  obtain hmp1 where h1: "hammer2_io_alloc hmp ?x (br_type bref) True = Some (hmp1, Some ?p)" "io_inv hmp1"
      "io_frame hmp hmp1" "io_allocated hmp ?p hmp1"
    using io_alloc_backed [OF inv bt ok] by blast
  have as: "hammer2_assert_io_refs hmp1 ?p = Some ()"
    using io_allocated_ref [OF h1(4)] by (auto simp: hammer2_assert_io_refs_def)
  obtain hmp' where "hammer2_io_putblk (dio_set ?p ?g hmp1) ?p = Some hmp'"
      "io_effect (\<lambda>q b. if q = ?p then (fst b OR ?m, snd b AND NOT ?m) else b) hmp hmp'"
    using io_dedup_change [OF h1(2,4,3), of ?g "\<lambda>b. (fst b OR ?m, snd b AND NOT ?m)"]
    by (auto simp: dio_same_def)
  moreover have "(\<lambda>q b. if q = ?p then (fst b OR ?m, snd b AND NOT ?m) else b) =
      dedup_bits_set ?x (unat (data_off_lsize ?x))"
    by (intro ext) (simp add: dedup_bits_set_def)
  ultimately show ?thesis
    using h1(1) as by (auto simp: hammer2_io_dedup_set_def Let_def)
qed

definition dedup_range_ok :: "hammer2_off_t \<Rightarrow> nat \<Rightarrow> bool" where
  "dedup_range_ok x bytes \<longleftrightarrow> data_off_ok x \<and> data_off_pbase x \<le> x \<and>
     data_off_lbase x + of_nat bytes \<le> data_off_pbase x + HAMMER2_PBUFSIZE"

lemma dedup_delete_effect:
  assumes inv: "io_inv hmp" "io_room hmp" and ok: "dedup_range_ok x bytes"
  shows "\<exists>hmp'. hammer2_io_dedup_delete hmp HAMMER2_BREF_TYPE_DATA x bytes = Some hmp' \<and>
     io_effect (dedup_bits_clear x bytes) hmp hmp'"
proof -
  let ?p = "data_off_pbase x"
  let ?m = "hammer2_dedup_mask ?p x bytes"
  let ?g = "\<lambda>d. d\<lparr> dio_dedup_alloc := dio_dedup_alloc d AND NOT ?m, dio_dedup_valid := dio_dedup_valid d AND NOT ?m \<rparr>"
  have nz: "data_off_lbase x \<noteq> 0" using ok by (auto simp: dedup_range_ok_def data_off_ok_def data_off_pbase_def)
  show ?thesis
  proof (cases "dio_get hmp ?p")
    case None
    then have "hammer2_io_dedup_delete hmp HAMMER2_BREF_TYPE_DATA x bytes = Some hmp"
      using nz ok by (simp add: hammer2_io_dedup_delete_def hammer2_io_alloc_def hammer2_io_hash_lookup_def
          Let_def dedup_range_ok_def data_off_ok_def)
    moreover have "io_effect (dedup_bits_clear x bytes) hmp hmp"
      using inv None by (intro io_effect_same) (auto simp: dedup_bits_clear_def dedup_of_def)
    ultimately show ?thesis by blast
  next
    case (Some d)
    obtain hmp1 where h1: "hammer2_io_alloc hmp x HAMMER2_BREF_TYPE_DATA False = Some (hmp1, Some ?p)" "io_inv hmp1"
        "io_frame hmp hmp1" "io_allocated hmp ?p hmp1"
      using io_alloc_found [OF inv _ Some] ok by (auto simp: dedup_range_ok_def)
    have as: "hammer2_assert_io_refs hmp1 ?p = Some ()"
      using io_allocated_ref [OF h1(4)] by (auto simp: hammer2_assert_io_refs_def)
    obtain hmp' where h': "hammer2_io_putblk (dio_set ?p ?g hmp1) ?p = Some hmp'"
        "io_effect (\<lambda>q b. if q = ?p then (fst b AND NOT ?m, snd b AND NOT ?m) else b) hmp hmp'"
      using io_dedup_change [OF h1(2,4,3), of ?g "\<lambda>b. (fst b AND NOT ?m, snd b AND NOT ?m)"]
      by (auto simp: dio_same_def)
    have "(\<lambda>q b. if q = ?p then (fst b AND NOT ?m, snd b AND NOT ?m) else b) = dedup_bits_clear x bytes"
      by (intro ext) (simp add: dedup_bits_clear_def)
    with h' h1(1) as nz ok show ?thesis
      by (auto simp: hammer2_io_dedup_delete_def Let_def dedup_range_ok_def not_less)
  qed
qed

section \<open>Sequences of operations\<close>

primrec ops_run :: "('b \<Rightarrow> 's \<Rightarrow> 's option) \<Rightarrow> 'b list \<Rightarrow> 's \<Rightarrow> 's option" where
  "ops_run op [] s = Some s"
| "ops_run op (x # xs) s = do { s' \<leftarrow> op x s; ops_run op xs s' }"

text \<open>
  The contract every whole operation of the layer keeps: under its precondition, which later
  operations do not invalidate, it returns, keeps the invariant and all reference counts, and
  changes the dedup bits only as \<open>bits\<close> says.
\<close>

locale dio_op =
  fixes op :: "'b \<Rightarrow> 'a hammer2_iodev_scheme \<Rightarrow> 'a hammer2_iodev_scheme option"
    and pre :: "'b \<Rightarrow> 'a hammer2_iodev_scheme \<Rightarrow> bool"
    and bits :: "'b \<Rightarrow> hammer2_off_t \<Rightarrow> u64 \<times> u64 \<Rightarrow> u64 \<times> u64"
  assumes effect: "pre x hmp \<Longrightarrow> io_inv hmp \<Longrightarrow> io_room hmp \<Longrightarrow>
      \<exists>hmp'. op x hmp = Some hmp' \<and> io_effect (bits x) hmp hmp'"
    and stable: "pre x hmp \<Longrightarrow> io_frame hmp hmp' \<Longrightarrow> pre x hmp'"
begin

lemma run_effect:
  assumes "\<forall>x \<in> set xs. pre x hmp" "io_inv hmp" "io_room hmp"
  shows "\<exists>hmp'. ops_run op xs hmp = Some hmp' \<and> io_inv hmp' \<and> io_room hmp' \<and> io_frame hmp hmp' \<and>
    (\<forall>q. ref_of hmp' q = ref_of hmp q)"
  using assms
proof (induction xs arbitrary: hmp)
  case (Cons x xs)
  then obtain hmp1 where 1: "op x hmp = Some hmp1" "io_effect (bits x) hmp hmp1"
    using effect [of x hmp] by auto
  then have i1: "io_inv hmp1" "io_room hmp1" "io_frame hmp hmp1"
    using Cons.prems io_effect_room by (auto simp: io_effect_def)
  then have "\<forall>x \<in> set xs. pre x hmp1" using Cons.prems stable by auto
  from Cons.IH [OF this i1(1,2)] 1 io_frame_trans [OF i1(3)] show ?case
    by (auto simp: io_effect_def)
qed simp

end

interpretation dedup_set_op: dio_op "\<lambda>bref hmp. hammer2_io_dedup_set hmp bref"
    "\<lambda>bref hmp. btype_ok (br_type bref) \<and> data_off_backed (br_data_off bref) hmp"
    "\<lambda>bref. dedup_bits_set (br_data_off bref) (unat (data_off_lsize (br_data_off bref)))"
  by unfold_locales (auto intro: dedup_set_effect data_off_backed_frame)

interpretation dedup_delete_op: dio_op
    "\<lambda>(x, bytes) hmp. hammer2_io_dedup_delete hmp HAMMER2_BREF_TYPE_DATA x bytes"
    "\<lambda>(x, bytes) hmp. dedup_range_ok x bytes" "\<lambda>(x, bytes). dedup_bits_clear x bytes"
  by unfold_locales (auto intro: dedup_delete_effect)

interpretation newnz_op: dio_op
    "\<lambda>(btype, x, lsize, r) hmp. io_newnz_put hmp btype x lsize r"
    "\<lambda>(btype, x, lsize, r) hmp. btype_ok btype \<and> data_off_backed x hmp \<and>
       2 ^ unat (x AND HAMMER2_OFF_MASK_RADIX) = lsize \<and> res_ok r"
    "\<lambda>_ _. id"
  by unfold_locales (auto intro: io_newnz_put_effect data_off_backed_frame)

section \<open>Main properties\<close>

lemma exp_minus_1_mask: "push_bit n 1 - 1 = (mask n :: 'a::len word)"
  by (simp add: mask_eq_exp_minus_1)


lemma io_assert_pass:
  assumes inv: "io_inv hmp" "io_room hmp" and ok: "data_off_ok x"
    and z: "fst (dedup_of hmp (data_off_pbase x)) AND hammer2_dedup_mask (data_off_pbase x) x bytes = 0"
  shows "\<exists>hmp'. hammer2_io_dedup_assert hmp x bytes = Some hmp' \<and> io_effect (\<lambda>_ b. b) hmp hmp'"
proof (cases "dio_get hmp (data_off_pbase x)")
  case None
  have "hammer2_io_dedup_assert hmp x bytes = Some hmp"
    using None ok by (simp add: hammer2_io_dedup_assert_def hammer2_io_alloc_def hammer2_io_hash_lookup_def
        Let_def data_off_ok_def)
  then show ?thesis using inv by (auto intro: io_effect_same)
next
  case (Some d)
  let ?p = "data_off_pbase x"
  obtain hmp1 where h1: "hammer2_io_alloc hmp x HAMMER2_BREF_TYPE_DATA False = Some (hmp1, Some ?p)" "io_inv hmp1"
      "io_frame hmp hmp1" "io_allocated hmp ?p hmp1"
    using io_alloc_found [OF inv ok Some] by blast
  obtain d1 where d1: "dio_get hmp1 ?p = Some d1" "refs_count (dio_refs d1) \<noteq> 0" "dio_dedup_alloc d1 = dio_dedup_alloc d"
    using io_allocated_ref [OF h1(4)] h1(4) Some by (auto simp: io_allocated_def)
  obtain hmp2 where h2: "hammer2_io_putblk hmp1 ?p = Some hmp2" "io_inv hmp2" "io_frame hmp1 hmp2" "io_put hmp1 ?p hmp2"
    using io_putblk_spec [OF h1(2) d1(1,2)] by blast
  have g: "\<And>q. dio_get hmp1 q = (if q = ?p then Some d1 else dio_get hmp1 q)" using d1 by simp
  have "ref_of hmp2 q = ref_of hmp q \<and> (dedup_of hmp2 q = (0, 0) \<or> dedup_of hmp2 q = dedup_of hmp q)" for q
    using io_put_effect [OF h1(4) g d1(1) refl _ h2(4), of id q] by (simp only: id_apply if_cancel)
  then have "io_effect (\<lambda>_ b. b) hmp hmp2" using h2 h1(3) by (simp add: io_effect_def io_frame_def)
  moreover have "hammer2_io_dedup_assert hmp x bytes = Some hmp2"
    using h1(1) d1 h2(1) z Some
    by (simp add: hammer2_io_dedup_assert_def hammer2_assert_io_refs_def dedup_of_def)
  ultimately show ?thesis by blast
qed

text \<open>C16: Clearing the dedup bits of a range makes the later assertion on it pass: from any state
  of the I/O layer that satisfies its invariant, \<open>hammer2_io_dedup_delete\<close> returns, and then
  \<open>hammer2_io_dedup_assert\<close> on the same range returns without failing, both keeping the
  invariant and every reference count.\<close>

theorem dedup_delete_then_assert:
  assumes "io_inv hmp" "io_room hmp" "dedup_range_ok x bytes"
  shows "\<exists>hmp1 hmp2. hammer2_io_dedup_delete hmp HAMMER2_BREF_TYPE_DATA x bytes = Some hmp1 \<and>
     hammer2_io_dedup_assert hmp1 x bytes = Some hmp2 \<and> io_inv hmp2 \<and>
     (\<forall>q. ref_of hmp2 q = ref_of hmp q)"
proof -
  obtain hmp1 where 1: "hammer2_io_dedup_delete hmp HAMMER2_BREF_TYPE_DATA x bytes = Some hmp1"
      "io_effect (dedup_bits_clear x bytes) hmp hmp1"
    using dedup_delete_effect [OF assms] by blast
  have "fst (dedup_of hmp1 (data_off_pbase x)) AND hammer2_dedup_mask (data_off_pbase x) x bytes = 0"
    using 1(2) by (auto simp: io_effect_def dedup_bits_clear_def dest!: spec [of _ "data_off_pbase x"])
      (simp_all only: and_not_and fst_conv)
  moreover have "io_inv hmp1" "io_room hmp1" "data_off_ok x"
    using 1(2) assms io_effect_room by (auto simp: io_effect_def dedup_range_ok_def)
  ultimately obtain hmp2 where "hammer2_io_dedup_assert hmp1 x bytes = Some hmp2" "io_effect (\<lambda>_ b. b) hmp1 hmp2"
    using io_assert_pass by blast
  with 1 show ?thesis by (auto simp: io_effect_def)
qed

definition ex_iostat :: hammer2_iostat where
  "ex_iostat = (let z = \<lparr> io_count = 0, io_bytes = 0 \<rparr> in
     \<lparr> ios_inode = z, ios_indirect = z, ios_data = z, ios_dirent = z, ios_freemap_node = z,
       ios_freemap_leaf = z, ios_freemap = z, ios_volume = z \<rparr>)"

definition ex_iodev :: hammer2_iodev where
  "ex_iodev = \<lparr> iohash = (\<lambda>_. []), iofree_count = 0, io_iterator = 0, hmp_volumes = take 2 ex_volumes,
     iostat_read = ex_iostat, iostat_write = ex_iostat, count_dio_allocated = 0, device_error = False,
     io_written = [], now_ticks = 100, kern_hz = 100, hammer2_dio_limit = 256 \<rparr>"

lemma free_dios_empty: "free_dios (\<lambda>_. []) = 0"
  unfolding free_dios_def by (simp only: filter.simps list.size sum.neutral_const)

lemma ex_iodev_inv: "io_inv ex_iodev" "io_room ex_iodev"
  by (simp_all add: io_inv_def io_room_def ex_iodev_def chains_ok_def free_dios_empty volumes_open_def
      ex_volumes_def ex_devvp_def)

theorem dedup_delete_then_assert_witness:
  "\<exists>hmp1 hmp2. hammer2_io_dedup_delete ex_iodev HAMMER2_BREF_TYPE_DATA (0x20000 OR 14) 16384 = Some hmp1 \<and>
     hammer2_io_dedup_assert hmp1 (0x20000 OR 14) 16384 = Some hmp2"
proof -
  have "dedup_range_ok (0x20000 OR 14) 16384"
    by (simp add: dedup_range_ok_def data_off_ok_def data_off_pbase_def data_off_lbase_def data_off_lsize_def Let_def)
  from dedup_delete_then_assert [OF ex_iodev_inv this] show ?thesis by blast
qed

text \<open>C14: A reference keeps its block: when a dio has more than one reference, dropping one leaves
  the dio, its block and its flags in place and only lowers the count, no other referenced dio
  changes, and the drop keeps the invariant (in particular the count of free dios is exact).\<close>

theorem putblk_keeps_referenced:
  assumes "io_inv hmp" "dio_get hmp p = Some d" "refs_count (dio_refs d) > 1"
  shows "\<exists>hmp'. hammer2_io_putblk hmp p = Some hmp' \<and> io_inv hmp' \<and>
     dio_get hmp' p = Some (d\<lparr> dio_refs := dio_refs d - 1 \<rparr>) \<and>
     (\<forall>q e. q \<noteq> p \<and> dio_get hmp q = Some e \<and> refs_count (dio_refs e) > 0 \<longrightarrow> dio_get hmp' q = Some e)"
  using io_putblk_more [OF assms] assms(2,3) by (fastforce simp: io_put_def)

definition ex_dio :: hammer2_io where
  "ex_dio = \<lparr> dio_pbase = 0x20000, dio_dbase = 0, dio_refs = 2, dio_act = 5, dio_btype = 3, dio_ticks = 0,
     dio_error = 0, dio_dedup_valid = 0, dio_dedup_alloc = 0, dio_block = NoBlock \<rparr>"

theorem putblk_keeps_referenced_witness:
  "\<exists>hmp'. hammer2_io_putblk (ex_iodev\<lparr> iohash := (\<lambda>_. [])(2 := [ex_dio]) \<rparr>) 0x20000 = Some hmp' \<and>
     dio_get hmp' 0x20000 = Some (ex_dio\<lparr> dio_refs := 1 \<rparr>)"
proof -
  let ?hmp = "ex_iodev\<lparr> iohash := (\<lambda>_. [])(2 := [ex_dio]) \<rparr>"
  have c: "refs_count (dio_refs ex_dio) = 2" "\<not> bit (2 :: u64) 62"
    by (simp_all add: ex_dio_def refs_count_mod)
  have hv: "hammer2_io_hashv 0x20000 = 2" by (simp add: hammer2_io_hashv_def drop_bit_eq_div)
  have "free_dios ((\<lambda>_. [])(2 := [ex_dio])) + 0 = free_dios (\<lambda>_. []) + 0"
    using free_dios_upd [of 2 "\<lambda>_. []" "[ex_dio]"] c by (simp add: dio_free_def)
  then have "io_inv ?hmp"
    using c hv ex_iodev_inv
    by (auto simp: io_inv_def chains_ok_def dio_ok_def ex_dio_def btype_ok_def ex_iodev_def free_dios_empty)
  moreover have "dio_get ?hmp 0x20000 = Some ex_dio" by (simp add: dio_get_def hv ex_dio_def)
  moreover have "refs_count (dio_refs ex_dio) > 1" using c by simp
  ultimately obtain hmp' where "hammer2_io_putblk ?hmp 0x20000 = Some hmp'"
      "dio_get hmp' 0x20000 = Some (ex_dio\<lparr> dio_refs := dio_refs ex_dio - 1 \<rparr>)"
    using putblk_keeps_referenced by blast
  then show ?thesis by (simp add: ex_dio_def)
qed

lemma cleanup_scan_written: "cleanup_scan m c i hmp = Some hmp' \<Longrightarrow> io_written hmp' = io_written hmp"
proof (induction m arbitrary: c i hmp)
  case (Suc m)
  then show ?case
    by (auto simp: Let_def cleanup_bucket_def split: if_splits bind_splits prod.splits dest!: Suc.IH)
qed simp

lemma io_trim_written: "io_trim hmp = Some hmp' \<Longrightarrow> io_written hmp' = io_written hmp"
  by (auto simp: io_trim_def hammer2_io_hash_cleanup_def Let_def split: if_splits dest!: cleanup_scan_written)

lemma dirty_cleared: "\<not> bit (orefs AND NOT HAMMER2_DIO_DIRTY) 60"
  by (simp only: bit_and_iff bit_not_iff bit_dirty_iff simp_thms)

lemma io_dispose_error:
  "device_error hmp \<Longrightarrow> io_dispose hmp d orefs = Some hmp' \<Longrightarrow> hmp' = hmp"
  using dirty_cleared [of orefs]
  by (auto simp: io_dispose_def Let_def refs_flag_dirty split: dio_block.splits if_splits)

text \<open>C21: Once the device is marked in error no block reaches the media any more: dropping a
  reference, whatever the flags of the dio, records no write.\<close>

theorem putblk_device_error:
  assumes "device_error hmp" "hammer2_io_putblk hmp p = Some hmp'"
  shows "io_written hmp' = io_written hmp"
  using assms
  by (auto simp: hammer2_io_putblk_def Let_def split: bind_splits if_splits dest!: io_dispose_error io_trim_written)

definition ex_dirty_dio :: hammer2_io where
  "ex_dirty_dio = ex_dio\<lparr> dio_refs := 1 OR HAMMER2_DIO_GOOD OR HAMMER2_DIO_DIRTY, dio_block := Folio [1, 2, 3] \<rparr>"

definition ex_dirty_dev :: hammer2_iodev where
  "ex_dirty_dev = ex_iodev\<lparr> iohash := (\<lambda>_. [])(2 := [ex_dirty_dio]) \<rparr>"

lemma ex_dirty_get: "dio_get (ex_dirty_dev\<lparr> device_error := e \<rparr>) 0x20000 = Some ex_dirty_dio"
    "refs_count (dio_refs ex_dirty_dio) = 1"
proof -
  have "hammer2_io_hashv 0x20000 = 2" by (simp add: hammer2_io_hashv_def drop_bit_eq_div)
  then show "dio_get (ex_dirty_dev\<lparr> device_error := e \<rparr>) 0x20000 = Some ex_dirty_dio"
    by (simp add: dio_get_def ex_dirty_dev_def ex_dirty_dio_def ex_dio_def)
  show "refs_count (dio_refs ex_dirty_dio) = 1"
    by (simp add: ex_dirty_dio_def refs_count_mod)
qed

lemma ex_dirty_inv: "io_inv ex_dirty_dev"
proof -
  have hv: "hammer2_io_hashv 0x20000 = 2" by (simp add: hammer2_io_hashv_def drop_bit_eq_div)
  have "dio_pbase ex_dirty_dio = 0x20000" "dio_btype ex_dirty_dio = 3" "dio_block ex_dirty_dio \<noteq> NoBlock"
    by (simp_all add: ex_dirty_dio_def ex_dio_def)
  moreover have "bit (dio_refs ex_dirty_dio) 62"
    using refs_flag_good [of "dio_refs ex_dirty_dio"] by (simp add: ex_dirty_dio_def)
  ultimately have "dio_ok ex_dirty_dio" "\<not> dio_free ex_dirty_dio"
    using ex_dirty_get(2) by (simp_all add: dio_ok_def dio_free_def btype_ok_def)
  moreover from this have "free_dios ((\<lambda>_. [])(2 := [ex_dirty_dio])) = 0"
    using free_dios_upd [of 2 "\<lambda>_. []" "[ex_dirty_dio]"] by (simp add: free_dios_empty)
  ultimately show ?thesis
    using ex_iodev_inv(1) hv \<open>dio_pbase ex_dirty_dio = 0x20000\<close>
    by (auto simp: io_inv_def chains_ok_def ex_dirty_dev_def) (simp add: ex_iodev_def)
qed

theorem putblk_device_error_witness:
  "\<exists>hmp'. hammer2_io_putblk (ex_dirty_dev\<lparr> device_error := True \<rparr>) 0x20000 = Some hmp' \<and> io_written hmp' = []"
proof -
  have "io_inv (ex_dirty_dev\<lparr> device_error := True \<rparr>)" using ex_dirty_inv by (simp add: io_inv_def)
  then obtain hmp' where h: "hammer2_io_putblk (ex_dirty_dev\<lparr> device_error := True \<rparr>) 0x20000 = Some hmp'"
    using io_putblk_last [OF _ ex_dirty_get] by blast
  then have "io_written hmp' = io_written (ex_dirty_dev\<lparr> device_error := True \<rparr>)"
    by (intro putblk_device_error) simp_all
  with h show ?thesis by (simp add: ex_dirty_dev_def ex_iodev_def)
qed



end
