(* ===== verification/Hammer2_Bmap.thy ===== *)
theory Hammer2_Bmap
  imports Hammer2_Io
begin

unbundle bit_operations_syntax

text \<open>
  \<^verbatim>\<open>hammer2_bmap_alloc\<close> of \<^verbatim>\<open>hammer2_freemap.c\<close>: allocation inside one entry of a level 1
  freemap leaf.  An entry covers 4MB with two bits per 16KB chunk in eight 64-bit elements,
  the linear iterator for sub-16KB allocations, and the bytes available.  The theory also holds
  the state of the device the freemap works on: the leaves are the level 1 chains of the
  freemap topology, kept as a map from their key (\<open>hmp_fleaves\<close>).

  The lemmas lead from the bits of an element to the bytes of the segment: \<open>chunk_free\<close> and
  \<open>byte_free\<close> say what is still to be had, \<open>bmap_ok\<close> is the invariant of an entry.
\<close>

section \<open>State\<close>

text \<open>A level 1 leaf: \<open>chain->error\<close>, the hints in \<open>bref.check.freemap\<close> and \<open>data->bmdata\<close>
  (\<open>None\<close> is a null \<open>data\<close>).\<close>

record freemap_leaf =
  fl_error :: h2error
  fl_bigmask :: u32
  fl_avail :: u64
  fl_bmdata :: "hammer2_bmap_data list option"

record hammer2_dev = hammer2_iodev +
  hmp_spmp :: bool
  hmp_total_size :: hammer2_off_t
  hmp_voldata :: hammer2_volume_data
  hmp_voldata_modified :: bool
  hmp_freemap_relaxed :: bool
  hmp_heur_freemap :: "hammer2_off_t list"
  hmp_fleaves :: "hammer2_key_t \<Rightarrow> freemap_leaf option"
  alloc_data_bytes :: u64
  alloc_meta_bytes :: u64

section \<open>Allocation inside one entry\<close>

definition bmap_bmradix :: "nat \<Rightarrow> nat" where
  "bmap_bmradix radix =
     (if radix \<le> HAMMER2_FREEMAP_BLOCK_RADIX then 2 else 2 * 2 ^ (radix - HAMMER2_FREEMAP_BLOCK_RADIX))"

definition bmap_bmmask :: "nat \<Rightarrow> hammer2_bitmap_t" where
  "bmap_bmmask bmradix =
     (if bmradix = HAMMER2_BMAP_BITS_PER_ELEMENT then -1 else push_bit bmradix 1 - 1)"

text \<open>The general element scan: the inner loop over the bits of one element, the outer one
  over the elements.  \<open>Some (i, j, bmmask)\<close> is the \<open>goto success\<close>.\<close>

function bmap_scan_bits :: "hammer2_bitmap_t \<Rightarrow> nat \<Rightarrow> hammer2_bitmap_t \<Rightarrow> nat \<Rightarrow> (nat \<times> hammer2_bitmap_t) option"
  where
  "bmap_scan_bits q bmradix bmmask j =
     (if bmradix = 0 then None
      else if j < HAMMER2_BMAP_BITS_PER_ELEMENT
      then (if q AND bmmask = 0 then Some (j, bmmask)
            else bmap_scan_bits q bmradix (push_bit bmradix bmmask) (j + bmradix))
      else None)"
  by pat_completeness auto
termination by (relation "measure (\<lambda>(q, r, m, j). 64 - j)") auto

declare bmap_scan_bits.simps [simp del]

fun bmap_scan :: "hammer2_bitmap_t list \<Rightarrow> nat \<Rightarrow> nat \<Rightarrow> (nat \<times> nat \<times> hammer2_bitmap_t) option" where
  "bmap_scan [] bmradix i = None"
| "bmap_scan (q # qs) bmradix i =
     (case bmap_scan_bits q bmradix (bmap_bmmask bmradix) 0 of
        Some (j, bmmask) \<Rightarrow> Some (i, j, bmmask)
      | None \<Rightarrow> bmap_scan qs bmradix (Suc i))"

text \<open>The placement tried first for file data of 16KB and more, from the low bits of its key.\<close>

definition bmap_sub_key_hint :: "u16 \<Rightarrow> nat \<Rightarrow> int \<Rightarrow> (nat \<times> nat) option" where
  "bmap_sub_key_hint class radix sub_key =
     (if drop_bit 8 class = ucast HAMMER2_BREF_TYPE_DATA \<and> radix \<ge> HAMMER2_FREEMAP_BLOCK_RADIX
      then Some (nat ((sub_key AND 4194303) div 524288), nat ((sub_key AND 524287) div 16384) * 2)
      else None)"

definition bmap_find :: "hammer2_bitmap_t list \<Rightarrow> u16 \<Rightarrow> nat \<Rightarrow> int \<Rightarrow> nat \<Rightarrow>
    (nat \<times> nat \<times> hammer2_bitmap_t) option option" where
  "bmap_find bitmapq class radix sub_key bmradix =
     (case bmap_sub_key_hint class radix sub_key of
        None \<Rightarrow> Some (bmap_scan bitmapq bmradix 0)
      | Some (i, j) \<Rightarrow> do {
          KKASSERT (i < HAMMER2_BMAP_ELEMENTS);
          KKASSERT (j < 2 * HAMMER2_BMAP_BLOCKS_PER_ELEMENT);
          KKASSERT (j + bmradix \<le> HAMMER2_BMAP_BITS_PER_ELEMENT);
          let bmmask = push_bit j (bmap_bmmask bmradix);
          if bitmapq ! i AND bmmask = 0 then Some (Some (i, j, bmmask))
          else Some (bmap_scan bitmapq bmradix 0) })"

text \<open>\<open>while ((pbmmask & bmmask) == 0) pbmmask <<= pbmradix\<close>: with \<open>pbmradix = 8\<close> a mask still
  disjoint after eight turns has been shifted out and the loop would not end.\<close>

fun pbmmask_loop :: "nat \<Rightarrow> hammer2_bitmap_t \<Rightarrow> hammer2_bitmap_t \<Rightarrow> hammer2_bitmap_t option" where
  "pbmmask_loop 0 pbmmask bmmask = None"
| "pbmmask_loop (Suc n) pbmmask bmmask =
     (if pbmmask AND bmmask = 0 then pbmmask_loop n (push_bit 8 pbmmask) bmmask else Some pbmmask)"

text \<open>The buffer cache optimisation: a physical buffer none of which is allocated yet is
  instantiated without reading it.\<close>

definition bmap_newnz ::
    "hammer2_dev \<Rightarrow> hammer2_bitmap_t \<Rightarrow> hammer2_bitmap_t \<Rightarrow> u16 \<Rightarrow> nat \<Rightarrow> int \<Rightarrow> hammer2_key_t \<Rightarrow> blk_res \<Rightarrow>
     hammer2_dev option" where
  "bmap_newnz hmp q bmmask class radix offset base r =
     (if q AND bmmask = 0 \<and> HAMMER2_PBUFSIZE \<noteq> (2 :: nat) ^ radix
      then do {
        pbmmask \<leftarrow> pbmmask_loop 8 (bmap_bmmask 8) bmmask;
        if q AND pbmmask = 0
        then io_newnz_put hmp (ucast (drop_bit 8 class))
               ((base + word_of_int (offset AND NOT HAMMER2_PBUFMASK)) OR of_nat (hammer2_getradix HAMMER2_PBUFSIZE))
               HAMMER2_PBUFSIZE r
        else Some hmp }
      else Some hmp)"

definition bmap_bgsize :: "hammer2_bitmap_t \<Rightarrow> hammer2_bitmap_t \<Rightarrow> nat \<Rightarrow> nat" where
  "bmap_bgsize q bmmask radix =
     (if radix < HAMMER2_FREEMAP_BLOCK_RADIX
      then (if q AND bmmask \<noteq> 0 then 0 else HAMMER2_FREEMAP_BLOCK_SIZE)
      else 2 ^ radix)"

definition hmp_allocator_free_sub :: "nat \<Rightarrow> hammer2_dev \<Rightarrow> hammer2_dev" where
  "hmp_allocator_free_sub bgsize hmp =
     (if bgsize \<noteq> 0
      then hmp\<lparr> hmp_voldata := (hmp_voldata hmp)\<lparr>
                  vd_allocator_free := vd_allocator_free (hmp_voldata hmp) - of_nat bgsize \<rparr>,
                hmp_voldata_modified := True \<rparr>
      else hmp)"

text \<open>The tail of \<open>hammer2_bmap_alloc\<close>, common to both ways of finding a block.\<close>

definition bmap_commit ::
    "hammer2_dev \<Rightarrow> hammer2_bmap_data \<Rightarrow> u16 \<Rightarrow> nat \<Rightarrow> hammer2_key_t \<Rightarrow> blk_res \<Rightarrow>
     nat \<Rightarrow> hammer2_bitmap_t \<Rightarrow> int \<Rightarrow> (h2error \<times> hammer2_dev \<times> hammer2_bmap_data \<times> hammer2_key_t) option" where
  "bmap_commit hmp bmap class radix base r i bmmask offset = do {
     KKASSERT (i < HAMMER2_BMAP_ELEMENTS);
     let q = bm_bitmapq bmap ! i;
     hmp \<leftarrow> bmap_newnz hmp q bmmask class radix offset base r;
     let bgsize = bmap_bgsize q bmmask radix;
     let bmap = bmap\<lparr> bm_bitmapq := (bm_bitmapq bmap)[i := q OR bmmask],
       bm_class := (if bm_class bmap = 0 then class else bm_class bmap),
       bm_avail := bm_avail bmap - of_nat bgsize \<rparr>;
     Some (0, hmp_allocator_free_sub bgsize hmp, bmap, base + word_of_int offset) }"

definition hammer2_bmap_alloc ::
    "hammer2_dev \<Rightarrow> hammer2_bmap_data \<Rightarrow> u16 \<Rightarrow> int \<Rightarrow> nat \<Rightarrow> hammer2_key_t \<Rightarrow> blk_res \<Rightarrow>
     (h2error \<times> hammer2_dev \<times> hammer2_bmap_data \<times> hammer2_key_t) option" where
  "hammer2_bmap_alloc hmp bmap class sub_key radix base r =
     (let size = 2 ^ radix; bmradix = bmap_bmradix radix; linear = bm_linear bmap in
      if (linear AND HAMMER2_FREEMAP_BLOCK_MASK) + size \<le> HAMMER2_FREEMAP_BLOCK_SIZE \<and>
         linear AND HAMMER2_FREEMAP_BLOCK_MASK \<noteq> 0 \<and> linear < HAMMER2_SEGSIZE
      then do {
        KKASSERT (linear \<ge> 0);
        KKASSERT (linear + size \<le> HAMMER2_SEGSIZE);
        KKASSERT (linear AND (HAMMER2_ALLOC_MIN - 1) = 0);
        let i = nat (linear div (HAMMER2_SEGSIZE div HAMMER2_BMAP_ELEMENTS));
        let j = nat ((linear div (HAMMER2_FREEMAP_BLOCK_SIZE div 2)) AND 62);
        bmap_commit hmp (bmap\<lparr> bm_linear := linear + size \<rparr>) class radix base r
          i (push_bit j (bmap_bmmask bmradix)) linear }
      else do {
        found \<leftarrow> bmap_find (bm_bitmapq bmap) class radix sub_key bmradix;
        (case found of
           None \<Rightarrow> Some (HAMMER2_ERROR_ENOSPC, hmp, bmap, base)
         | Some (i, j, bmmask) \<Rightarrow> do {
             let offset = int i * (HAMMER2_SEGSIZE div HAMMER2_BMAP_ELEMENTS) +
                          int j * (HAMMER2_FREEMAP_BLOCK_SIZE div 2);
             let bmap = (if size AND HAMMER2_FREEMAP_BLOCK_MASK \<noteq> 0
                         then bmap\<lparr> bm_linear := offset + size \<rparr> else bmap);
             bmap_commit hmp bmap class radix base r i bmmask offset }) })"

section \<open>Chunks of an entry\<close>

text \<open>Chunk \<open>p\<close> of an element is free when both its bits are clear.\<close>

definition pair_free :: "hammer2_bitmap_t \<Rightarrow> nat \<Rightarrow> bool" where
  "pair_free q p \<longleftrightarrow> \<not> bit q (2 * p) \<and> \<not> bit q (2 * p + 1)"

lemma and_bitrun_pairs:
  assumes "p + k \<le> 32"
  shows "q AND bitrun (2 * p) (2 * k) = 0 \<longleftrightarrow> (\<forall>x. p \<le> x \<and> x < p + k \<longrightarrow> pair_free q x)"
proof -
  have "(\<forall>b. 2 * p \<le> b \<and> b < 2 * p + 2 * k \<and> b < 64 \<longrightarrow> \<not> bit q b) \<longleftrightarrow>
      (\<forall>x. p \<le> x \<and> x < p + k \<longrightarrow> pair_free q x)" (is "?l \<longleftrightarrow> ?r")
  proof
    assume ?l
    then show ?r using assms by (auto simp: pair_free_def)
  next
    assume r: ?r
    show ?l
    proof (intro allI impI)
      fix b assume b: "2 * p \<le> b \<and> b < 2 * p + 2 * k \<and> b < 64"
      then have "p \<le> b div 2" "b div 2 < p + k" by auto
      then have "pair_free q (b div 2)" using r by blast
      then show "\<not> bit q b" by (cases "even b") (auto simp: pair_free_def elim: evenE oddE)
    qed
  qed
  then show ?thesis by (simp add: and_bitrun_eq_0)
qed

lemma pair_free_or_bitrun:
  assumes "p + k \<le> 32" "x < 32"
  shows "pair_free (q OR bitrun (2 * p) (2 * k)) x \<longleftrightarrow> pair_free q x \<and> \<not> (p \<le> x \<and> x < p + k)"
  using assms by (auto simp: pair_free_def bit_or_bitrun)

lemma bmap_bmmask_mask: "bmap_bmmask n = mask n"
  by (simp add: bmap_bmmask_def mask_eq_exp_minus_1)

text \<open>The number of 16KB chunks an allocation of \<open>2 ^ radix\<close> bytes takes in the bitmap.\<close>

definition radix_chunks :: "nat \<Rightarrow> nat" where
  "radix_chunks radix = 2 ^ (radix - HAMMER2_FREEMAP_BLOCK_RADIX)"

lemma bmap_bmradix_chunks: "bmap_bmradix radix = 2 * radix_chunks radix"
  by (simp add: bmap_bmradix_def radix_chunks_def)

lemma radix_chunks_values: "radix \<le> 16 \<Longrightarrow> radix_chunks radix \<in> {1, 2, 4}"
proof -
  assume "radix \<le> 16"
  then have "radix - 14 = 0 \<or> radix - 14 = 1 \<or> radix - 14 = 2" by linarith
  then show ?thesis by (auto simp: radix_chunks_def)
qed

lemma dvd_diff_step: "(j :: nat) + r \<le> j' \<Longrightarrow> r dvd j' - (j + r) \<longleftrightarrow> r dvd j' - j"
proof -
  assume "j + r \<le> j'"
  then have "j' - j = (j' - (j + r)) + r" by simp
  then show ?thesis by (simp only: dvd_add_triv_right_iff)
qed

lemma bmap_scan_bits_Some:
  assumes "bmap_scan_bits q r m j = Some (j', m')" "m = bitrun j r" "r > 0"
  shows "j \<le> j' \<and> j' < 64 \<and> m' = bitrun j' r \<and> q AND m' = 0 \<and> r dvd (j' - j)"
  using assms
proof (induction q r m j rule: bmap_scan_bits.induct)
  case (1 q r m j)
  show ?case
  proof (cases "j < 64 \<and> q AND m \<noteq> 0")
    case True
    then have e: "bmap_scan_bits q r (push_bit r m) (j + r) = Some (j', m')"
      using "1.prems"(1,3) by (simp add: bmap_scan_bits.simps [of q r m j])
    have "push_bit r m = bitrun (j + r) r" using "1.prems"(2) by (simp add: add.commute)
    note IH = "1.IH" [OF _ _ _ e this]
    from IH True "1.prems"(3) have h: "j + r \<le> j'" "j' < 64" "m' = bitrun j' r" "q AND m' = 0" "r dvd j' - (j + r)" by auto
    then show ?thesis using dvd_diff_step [OF h(1)] by simp
  next
    case False
    with "1.prems"(1,3) have "j < 64 \<and> q AND m = 0 \<and> j' = j \<and> m' = m"
      by (auto simp: bmap_scan_bits.simps [of q r m j] split: if_splits)
    with "1.prems"(2) show ?thesis by simp
  qed
qed

lemma bmap_scan_bits_None:
  assumes "bmap_scan_bits q r m j = None" "m = bitrun j r" "r > 0"
  shows "\<forall>j'. j \<le> j' \<and> j' < 64 \<and> r dvd (j' - j) \<longrightarrow> q AND bitrun j' r \<noteq> 0"
  using assms
proof (induction q r m j rule: bmap_scan_bits.induct)
  case (1 q r m j)
  show ?case
  proof (cases "j < 64")
    case True
    with "1.prems"(1,3) have ne: "q AND m \<noteq> 0" and e: "bmap_scan_bits q r (push_bit r m) (j + r) = None"
      by (auto simp: bmap_scan_bits.simps [of q r m j] split: if_splits)
    have "push_bit r m = bitrun (j + r) r" using "1.prems"(2) by (simp add: add.commute)
    note IH = "1.IH" [OF _ True ne e this]
    show ?thesis
    proof (intro allI impI; elim conjE)
      fix j' assume j': "j \<le> j'" "j' < 64" "r dvd j' - j"
      show "q AND bitrun j' r \<noteq> 0"
      proof (cases "j' = j")
        case False
        with j' have "j + r \<le> j'" using dvd_imp_le [of r "j' - j"] by linarith
        with dvd_diff_step [OF this] j' IH "1.prems"(3) show ?thesis by simp
      qed (use ne "1.prems"(2) in simp)
    qed
  qed auto
qed

lemma bmap_scan_Some:
  "bmap_scan qs r i0 = Some (i, j, m) \<Longrightarrow>
   i0 \<le> i \<and> i < i0 + length qs \<and> bmap_scan_bits (qs ! (i - i0)) r (bmap_bmmask r) 0 = Some (j, m)"
proof (induction qs r i0 rule: bmap_scan.induct)
  case (2 q qs r i0)
  show ?case
  proof (cases "bmap_scan_bits q r (bmap_bmmask r) 0")
    case None
    with 2 have "Suc i0 \<le> i \<and> i < Suc i0 + length qs \<and>
      bmap_scan_bits (qs ! (i - Suc i0)) r (bmap_bmmask r) 0 = Some (j, m)" by simp
    then show ?thesis by (auto simp: nth_Cons' Suc_diff_Suc)
  next
    case (Some a)
    with 2 show ?thesis by (cases a) auto
  qed
qed simp

lemma bmap_scan_None:
  "bmap_scan qs r i0 = None \<Longrightarrow> q \<in> set qs \<Longrightarrow> bmap_scan_bits q r (bmap_bmmask r) 0 = None"
  by (induction qs r i0 rule: bmap_scan.induct) (auto split: option.splits)

definition chunk_free :: "hammer2_bmap_data \<Rightarrow> nat \<Rightarrow> bool" where
  "chunk_free b c \<longleftrightarrow> pair_free (bm_bitmapq b ! (c div 32)) (c mod 32)"

definition free_chunks :: "hammer2_bmap_data \<Rightarrow> nat set" where
  "free_chunks b = {c. c < 256 \<and> chunk_free b c}"

text \<open>
  The invariant of an entry: eight elements, a linear iterator inside the segment and on a
  1KB boundary whose chunk, unless it sits on a chunk boundary, is marked in the bitmap, and
  \<open>avail\<close> exactly the bytes of the free chunks.
\<close>

definition bmap_ok :: "hammer2_bmap_data \<Rightarrow> bool" where
  "bmap_ok b \<longleftrightarrow> length (bm_bitmapq b) = 8 \<and> 0 \<le> bm_linear b \<and> bm_linear b \<le> HAMMER2_SEGSIZE \<and>
     bm_linear b mod 1024 = 0 \<and>
     (bm_linear b mod 16384 \<noteq> 0 \<longrightarrow> \<not> chunk_free b (nat (bm_linear b div 16384))) \<and>
     unat (bm_avail b) = 16384 * card (free_chunks b)"

text \<open>Byte \<open>x\<close> of the segment can still be handed out: its chunk is free, or it lies behind
  the linear iterator in the chunk the iterator is in.\<close>

definition byte_free :: "hammer2_bmap_data \<Rightarrow> nat \<Rightarrow> bool" where
  "byte_free b x \<longleftrightarrow> chunk_free b (x div 16384) \<or>
     bm_linear b mod 16384 \<noteq> 0 \<and> bm_linear b \<le> int x \<and> int (x div 16384) = bm_linear b div 16384"

lemma finite_free_chunks [simp]: "finite (free_chunks b)"
  by (simp add: free_chunks_def)

lemma int_and_16383: "(x :: int) AND HAMMER2_FREEMAP_BLOCK_MASK = x mod 16384"
proof -
  have "(16383 :: int) = mask 14" by (simp add: mask_eq_exp_minus_1)
  then have "x AND 16383 = take_bit 14 x" by (simp only: take_bit_eq_mask)
  then show ?thesis by (simp add: take_bit_eq_mod)
qed

lemma int_and_1023: "(x :: int) AND (HAMMER2_ALLOC_MIN - 1) = x mod 1024"
proof -
  have "(1024 - 1 :: int) = mask 10" by (simp add: mask_eq_exp_minus_1)
  then have "x AND (1024 - 1) = take_bit 10 x" by (simp only: take_bit_eq_mask)
  then show ?thesis by (simp add: take_bit_eq_mod)
qed

section \<open>Marking a run of chunks\<close>

definition mark_run :: "nat \<Rightarrow> nat \<Rightarrow> nat \<Rightarrow> hammer2_bmap_data \<Rightarrow> hammer2_bmap_data" where
  "mark_run i p k b = b\<lparr> bm_bitmapq := (bm_bitmapq b)[i := bm_bitmapq b ! i OR bitrun (2 * p) (2 * k)] \<rparr>"

lemma chunk_free_mark_run:
  assumes "length (bm_bitmapq b) = 8" "i < 8" "p + k \<le> 32" "c < 256"
  shows "chunk_free (mark_run i p k b) c \<longleftrightarrow>
     chunk_free b c \<and> \<not> (32 * i + p \<le> c \<and> c < 32 * i + p + k)"
proof (cases "c div 32 = i")
  case True
  have c: "c = 32 * i + c mod 32" using True by auto
  have "chunk_free (mark_run i p k b) c \<longleftrightarrow> pair_free (bm_bitmapq b ! i) (c mod 32) \<and> \<not> (p \<le> c mod 32 \<and> c mod 32 < p + k)"
    using assms True by (simp add: chunk_free_def mark_run_def pair_free_or_bitrun)
  moreover have "p \<le> c mod 32 \<longleftrightarrow> 32 * i + p \<le> c" "c mod 32 < p + k \<longleftrightarrow> c < 32 * i + p + k"
    using c by linarith+
  ultimately show ?thesis using True by (simp add: chunk_free_def)
next
  case False
  have "\<not> (32 * i + p \<le> c \<and> c < 32 * i + p + k)"
  proof
    assume "32 * i + p \<le> c \<and> c < 32 * i + p + k"
    then have "32 * i \<le> c" "c < 32 * Suc i" using assms(3) by auto
    then have "c div 32 = i" by (intro div_nat_eqI) auto
    with False show False by simp
  qed
  with False show ?thesis by (simp add: chunk_free_def mark_run_def)
qed

lemma free_chunks_mark_run:
  assumes "length (bm_bitmapq b) = 8" "i < 8" "p + k \<le> 32"
  shows "free_chunks (mark_run i p k b) = free_chunks b - {32 * i + p ..< 32 * i + p + k}"
  using chunk_free_mark_run [OF assms] by (auto simp: free_chunks_def)

lemma run_free_iff:
  assumes "i < 8" "p + k \<le> 32"
  shows "bm_bitmapq b ! i AND bitrun (2 * p) (2 * k) = 0 \<longleftrightarrow>
     (\<forall>c. 32 * i + p \<le> c \<and> c < 32 * i + p + k \<longrightarrow> chunk_free b c)"
  unfolding and_bitrun_pairs [OF assms(2)]
proof
  assume *: "\<forall>x. p \<le> x \<and> x < p + k \<longrightarrow> pair_free (bm_bitmapq b ! i) x"
  show "\<forall>c. 32 * i + p \<le> c \<and> c < 32 * i + p + k \<longrightarrow> chunk_free b c"
  proof (intro allI impI)
    fix c assume c: "32 * i + p \<le> c \<and> c < 32 * i + p + k"
    define x where "x = c - 32 * i"
    have "c = 32 * i + x" "p \<le> x" "x < p + k" "x < 32"
      using c assms(2) unfolding x_def by linarith+
    then show "chunk_free b c" using * by (simp add: chunk_free_def)
  qed
next
  assume *: "\<forall>c. 32 * i + p \<le> c \<and> c < 32 * i + p + k \<longrightarrow> chunk_free b c"
  show "\<forall>x. p \<le> x \<and> x < p + k \<longrightarrow> pair_free (bm_bitmapq b ! i) x"
  proof (intro allI impI)
    fix x assume x: "p \<le> x \<and> x < p + k"
    then have "chunk_free b (32 * i + x)" using * by simp
    moreover have "x < 32" using x assms(2) by linarith
    ultimately show "pair_free (bm_bitmapq b ! i) x" by (simp add: chunk_free_def)
  qed
qed

section \<open>Finding a run\<close>

text \<open>An aligned run of free chunks for the radix starts at chunk \<open>c\<close>.\<close>

definition free_run :: "hammer2_bmap_data \<Rightarrow> nat \<Rightarrow> nat \<Rightarrow> bool" where
  "free_run b radix c \<longleftrightarrow> radix_chunks radix dvd c \<and> c + radix_chunks radix \<le> 256 \<and>
     (\<forall>x < radix_chunks radix. chunk_free b (c + x))"

text \<open>Where the key of a data block asks for a place, the place is aligned for the radix.\<close>

definition sub_key_aligned :: "u16 \<Rightarrow> nat \<Rightarrow> int \<Rightarrow> bool" where
  "sub_key_aligned class radix sub_key \<longleftrightarrow>
     (drop_bit 8 class = ucast HAMMER2_BREF_TYPE_DATA \<and> radix \<ge> 14 \<longrightarrow> 2 ^ radix dvd sub_key)"

lemma free_runI:
  assumes "i < 8" "p + radix_chunks radix \<le> 32" "radix_chunks radix dvd p" "radix_chunks radix \<in> {1, 2, 4}"
    "bm_bitmapq b ! i AND bitrun (2 * p) (2 * radix_chunks radix) = 0"
  shows "free_run b radix (32 * i + p)"
proof -
  have "radix_chunks radix dvd 32 * i" using assms(4) by auto
  moreover have "32 * i + p + radix_chunks radix \<le> 256" using assms(1,2) by linarith
  moreover have "\<forall>x < radix_chunks radix. chunk_free b (32 * i + p + x)"
    using assms(5) unfolding run_free_iff [OF assms(1,2)] by simp
  ultimately show ?thesis using assms(3) by (simp add: free_run_def)
qed

lemma scan_bits_fits:
  assumes k: "k \<in> {1, 2, 4 :: nat}" and j: "j < 64" "2 * k dvd j"
  obtains p where "j = 2 * p" "p + k \<le> 32" "k dvd p"
proof -
  obtain n where n: "j = 2 * k * n" using j(2) by (auto elim: dvdE)
  have "k * n + k \<le> 32" using k j(1) n by auto
  with that [of "k * n"] n show ?thesis by simp
qed

lemma bmap_scan_find:
  assumes len: "length (bm_bitmapq b) = 8" and k: "k = radix_chunks radix" "k \<in> {1, 2, 4}"
    and s: "bmap_scan (bm_bitmapq b) (2 * k) 0 = Some (i, j, m)"
  obtains p where "i < 8" "j = 2 * p" "p + k \<le> 32" "m = bitrun (2 * p) (2 * k)"
    "bm_bitmapq b ! i AND m = 0" "k dvd p"
proof -
  have k0: "2 * k > 0" using k(2) by auto
  have i: "i < 8" and sb: "bmap_scan_bits (bm_bitmapq b ! i) (2 * k) (bmap_bmmask (2 * k)) 0 = Some (j, m)"
    using bmap_scan_Some [OF s] len by simp_all
  have j: "j < 64" "m = bitrun j (2 * k)" "bm_bitmapq b ! i AND m = 0" "2 * k dvd j"
    using bmap_scan_bits_Some [OF sb _ k0] by (auto simp: bmap_bmmask_mask)
  from scan_bits_fits [OF k(2) j(1,4)] obtain p where "j = 2 * p" "p + k \<le> 32" "k dvd p" by blast
  with i j that show ?thesis by simp
qed

lemma bmap_scan_fails:
  assumes len: "length (bm_bitmapq b) = 8" and k: "k = radix_chunks radix" "k \<in> {1, 2, 4}"
    and s: "bmap_scan (bm_bitmapq b) (2 * k) 0 = None"
  shows "\<not> free_run b radix c"
proof
  assume f: "free_run b radix c"
  define i where "i = c div 32" define p where "p = c mod 32"
  have kc: "k dvd c" "c + k \<le> 256" "\<forall>x < k. chunk_free b (c + x)" using f k(1) by (simp_all add: free_run_def)
  have i: "i < 8" using kc(2) k(2) by (auto simp: i_def)
  have "k dvd 32" using k(2) by auto
  then have kp: "k dvd p" using kc(1) by (simp add: p_def dvd_mod)
  have "2 * p < 64" "2 * k dvd 2 * p" using kp by (simp_all add: p_def)
  from scan_bits_fits [OF k(2) this] have fits: "p + k \<le> 32" by simp
  have c: "c = 32 * i + p" by (simp add: i_def p_def)
  have run: "chunk_free b y" if "c \<le> y" "y < c + k" for y
  proof -
    have "y - c < k" "y = c + (y - c)" using that by linarith+
    with kc(3) show ?thesis by metis
  qed
  have "bm_bitmapq b ! i AND bitrun (2 * p) (2 * k) = 0"
    unfolding run_free_iff [OF i fits] using run c by simp
  moreover have "bm_bitmapq b ! i \<in> set (bm_bitmapq b)" using i len by simp
  then have sn: "bmap_scan_bits (bm_bitmapq b ! i) (2 * k) (bmap_bmmask (2 * k)) 0 = None"
    using bmap_scan_None [OF s] by blast
  have "2 * k > 0" "2 * p < 64" "2 * k dvd 2 * p - 0" using k(2) kp fits by auto
  then have "bm_bitmapq b ! i AND bitrun (2 * p) (2 * k) \<noteq> 0"
    using bmap_scan_bits_None [OF sn] by (simp add: bmap_bmmask_mask)
  ultimately show False by simp
qed

lemma int_and_mask: "(x :: int) AND mask n = x mod 2 ^ n"
  by (simp add: take_bit_eq_mask [symmetric] take_bit_eq_mod)

lemma sub_key_masks:
  "(x :: int) AND 4194303 = x mod 4194304" "(x :: int) AND 524287 = x mod 524288"
proof -
  have 1: "(4194303 :: int) = mask 22" "(524287 :: int) = mask 19" by (simp_all add: mask_eq_exp_minus_1)
  show "x AND 4194303 = x mod 4194304" unfolding 1(1) int_and_mask by simp
  show "x AND 524287 = x mod 524288" unfolding 1(2) int_and_mask by simp
qed

lemma sub_key_hint_aligned:
  assumes r: "14 \<le> radix" "radix \<le> 16" and d: "2 ^ radix dvd (sub_key :: int)"
  shows "radix_chunks radix dvd nat (sub_key mod 524288 div 16384)"
proof -
  have p: "(2 :: int) ^ radix = 16384 * int (radix_chunks radix)"
  proof -
    have "(2 :: int) ^ radix = 2 ^ (14 + (radix - 14))" using r by simp
    then show ?thesis by (simp only: power_add) (simp add: radix_chunks_def)
  qed
  have "radix_chunks radix \<in> {1, 2, 4}" using r(2) by (rule radix_chunks_values)
  then have "(16384 * int (radix_chunks radix)) dvd 524288" by auto
  then have "(16384 * int (radix_chunks radix)) dvd sub_key mod 524288"
    using d unfolding p by (rule dvd_mod [rotated])
  then obtain n where "sub_key mod 524288 = 16384 * (int (radix_chunks radix) * n)"
    by (metis dvdE mult.assoc)
  then have "sub_key mod 524288 div 16384 = int (radix_chunks radix) * n" by simp
  moreover from this have "0 \<le> int (radix_chunks radix) * n"
    by (metis pos_imp_zdiv_nonneg_iff pos_mod_sign zero_less_numeral)
  ultimately have "int (nat (sub_key mod 524288 div 16384)) = int (radix_chunks radix) * n" by simp
  then have "int (radix_chunks radix) dvd int (nat (sub_key mod 524288 div 16384))" by (rule dvdI)
  then show ?thesis by (simp only: of_nat_dvd_iff)
qed

lemma bmap_find_spec:
  assumes len: "length (bm_bitmapq b) = 8" and r: "radix \<le> 16" and al: "sub_key_aligned class radix sub_key"
    and k: "k = radix_chunks radix"
  shows "\<exists>res. bmap_find (bm_bitmapq b) class radix sub_key (bmap_bmradix radix) = Some res \<and>
    (case res of None \<Rightarrow> \<forall>c. \<not> free_run b radix c
     | Some (i, j, m) \<Rightarrow> \<exists>p. i < 8 \<and> j = 2 * p \<and> p + k \<le> 32 \<and> m = bitrun (2 * p) (2 * k) \<and>
         bm_bitmapq b ! i AND m = 0 \<and> k dvd p)"
proof -
  have kv: "k \<in> {1, 2, 4}" using radix_chunks_values [OF r] k by simp
  have scan: "case bmap_scan (bm_bitmapq b) (2 * k) 0 of None \<Rightarrow> \<forall>c. \<not> free_run b radix c
     | Some (i, j, m) \<Rightarrow> \<exists>p. i < 8 \<and> j = 2 * p \<and> p + k \<le> 32 \<and> m = bitrun (2 * p) (2 * k) \<and>
         bm_bitmapq b ! i AND m = 0 \<and> k dvd p"
  proof (cases "bmap_scan (bm_bitmapq b) (2 * k) 0")
    case None
    then show ?thesis using bmap_scan_fails [OF len k kv] by simp
  next
    case (Some t)
    then obtain i j m where t: "t = (i, j, m)" by (cases t)
    from bmap_scan_find [OF len k kv Some [unfolded t]] show ?thesis using Some t by auto
  qed
  show ?thesis
  proof (cases "bmap_sub_key_hint class radix sub_key")
    case None
    then show ?thesis using scan by (simp add: bmap_find_def bmap_bmradix_chunks k)
  next
    case (Some t)
    define i where "i = nat (sub_key mod 4194304 div 524288)"
    define p where "p = nat (sub_key mod 524288 div 16384)"
    have t: "t = (i, 2 * p)" and c: "drop_bit 8 class = ucast HAMMER2_BREF_TYPE_DATA" "radix \<ge> 14"
      using Some by (auto simp: bmap_sub_key_hint_def sub_key_masks i_def p_def split: if_splits)
    have "0 \<le> sub_key mod 4194304" "sub_key mod 4194304 < 4194304" "0 \<le> sub_key mod 524288" "sub_key mod 524288 < 524288"
      by simp_all
    then have i: "i < 8" and p: "p < 32" unfolding i_def p_def by linarith+
    have kp: "k dvd p" unfolding k p_def using sub_key_hint_aligned [OF c(2) r] al c by (simp add: sub_key_aligned_def)
    have "2 * p < 64" "2 * k dvd 2 * p" using p kp by simp_all
    from scan_bits_fits [OF kv this] have fits: "p + k \<le> 32" by simp
    show ?thesis
      using scan i p fits kp Some
      by (auto simp: bmap_find_def t bmap_bmradix_chunks k [symmetric] bmap_bmmask_mask Let_def)
  qed
qed

lemma pbmmask_loop_returns:
  assumes "s \<le> p div 4" "p div 4 < s + n" "p < 32" "k > 0"
  shows "\<exists>m. pbmmask_loop n (bitrun (8 * s) 8) (bitrun (2 * p) (2 * k)) = Some m"
  using assms
proof (induction n arbitrary: s)
  case (Suc n)
  show ?case
  proof (cases "s = p div 4")
    case True
    have "bit (bitrun (8 * s) 8 AND bitrun (2 * p) (2 * k) :: u64) (2 * p)"
      using Suc.prems True by (simp add: bit_and_iff bit_bitrun)
    then have "(bitrun (8 * s) 8 AND bitrun (2 * p) (2 * k) :: u64) \<noteq> 0" by auto
    then show ?thesis by simp
  next
    case False
    have "push_bit 8 (bitrun (8 * s) 8 :: u64) = bitrun (8 * Suc s) 8" by simp
    then show ?thesis using Suc.IH [of "Suc s"] Suc.prems False by auto
  qed
qed simp

text \<open>The segment at \<open>base\<close> lies on the volumes.\<close>

definition seg_backed :: "'a hammer2_iodev_scheme \<Rightarrow> hammer2_off_t \<Rightarrow> bool" where
  "seg_backed hmp base \<longleftrightarrow> base \<noteq> 0 \<and> base AND HAMMER2_SEGMASK = 0 \<and>
     (\<forall>o' < 64. \<exists>vol. hammer2_get_volume (hmp_volumes hmp) (base + of_nat (65536 * o')) = Some (Some vol))"

lemma seg_backed_frame: "seg_backed hmp base \<Longrightarrow> io_frame hmp hmp' \<Longrightarrow> seg_backed hmp' base"
  by (simp add: seg_backed_def io_frame_def)

lemma and_mask_eq_0: "(B :: 'a::len word) AND mask n = 0 \<longleftrightarrow> (\<forall>k < n. \<not> bit B k)"
  by (auto simp: bit_eq_iff bit_and_iff bit_mask_iff dest: bit_imp_le_length)

lemma pbuf_data_off:
  assumes "B \<noteq> 0" "(B :: u64) AND HAMMER2_PBUFMASK = 0"
  shows "data_off_ok (B OR 16)" "data_off_pbase (B OR 16) = B" "(B OR 16) AND HAMMER2_OFF_MASK_RADIX = 16"
proof -
  have m: "(65535 :: u64) = mask 16" "(63 :: u64) = mask 6" by (simp_all add: mask_eq_exp_minus_1)
  have z: "\<not> bit B k" if "k < 16" for k using assms(2) that unfolding m(1) and_mask_eq_0 by simp
  have z6: "\<not> bit B k" if "k < 6" for k using z that by simp
  have b16: "bit (16 :: int) k \<longleftrightarrow> k = 4" for k
    using bit_exp_iff [where 'a = int, of 4 k] by auto
  show r: "(B OR 16) AND HAMMER2_OFF_MASK_RADIX = 16"
    unfolding m(2) by (rule bit_word_eqI) (auto simp: bit_and_iff bit_or_iff bit_mask_iff b16 z)
  have l: "data_off_lbase (B OR 16) = B"
    unfolding data_off_lbase_def m(2)
    by (rule bit_word_eqI) (auto simp: bit_and_iff bit_or_iff bit_not_iff bit_mask_iff b16 dest: z z6)
  show p: "data_off_pbase (B OR 16) = B"
    unfolding data_off_pbase_def l m(1)
    by (rule bit_word_eqI) (auto simp: bit_and_iff bit_not_iff bit_mask_iff dest: z)
  have s: "data_off_lsize (B OR 16) = 65536" unfolding data_off_lsize_def Let_def r by simp
  have "B + 65536 - 1 = B OR mask 16"
  proof -
    have "B + mask 16 = B OR mask 16"
      by (rule disjunctive_add) (auto simp: bit_mask_iff dest: z)
    then show ?thesis by (simp add: m(1) [symmetric] add.commute)
  qed
  then have "(B + 65536 - 1) AND NOT HAMMER2_PBUFMASK = B"
    unfolding m(1) by (auto intro!: bit_word_eqI simp: bit_and_iff bit_or_iff bit_not_iff bit_mask_iff dest: z)
  then show "data_off_ok (B OR 16)" unfolding data_off_ok_def p l s using assms(1) by simp
qed


lemma int_and_split: "((x :: int) AND m) + (x AND NOT m) = x"
  by (subst disjunctive_add) (auto simp: bit_and_iff bit_not_iff bit_or_iff bit_eq_iff)

lemma int_and_not_pbuf: "0 \<le> off \<Longrightarrow> off AND NOT HAMMER2_PBUFMASK = 65536 * (off div 65536 :: int)"
proof -
  have "(65535 :: int) = mask 16" by (simp add: mask_eq_exp_minus_1)
  then have "off AND 65535 = off mod 2 ^ 16" by (simp only: int_and_mask)
  then have "off AND 65535 = off mod 65536" by simp
  moreover have "(off AND 65535) + (off AND NOT 65535) = off" by (rule int_and_split)
  ultimately show ?thesis by (simp add: minus_mod_eq_mult_div [symmetric] algebra_simps)
qed

lemma seg_buffer:
  assumes "(base :: u64) \<noteq> 0" "base AND HAMMER2_SEGMASK = 0" "o' < 64"
  shows "base + of_nat (65536 * o') \<noteq> 0" "(base + of_nat (65536 * o')) AND HAMMER2_PBUFMASK = 0"
proof -
  have m: "(65535 :: u64) = mask 16" "(4194303 :: u64) = mask 22" by (simp_all add: mask_eq_exp_minus_1)
  have z: "\<not> bit base k" if "k < 22" for k using assms(2) that unfolding m(2) and_mask_eq_0 by simp
  define w :: u64 where "w = of_nat (65536 * o')"
  have w: "w = push_bit 16 (of_nat o')" by (simp add: w_def push_bit_eq_mult)
  have wb: "bit w k \<longleftrightarrow> 16 \<le> k \<and> k < 64 \<and> bit o' (k - 16)" for k
    unfolding w by (auto simp: bit_push_bit_iff bit_of_nat_iff)
  have "\<not> bit w k" if "22 \<le> k" for k
  proof
    assume "bit w k"
    then have "bit o' (k - 16)" by (simp add: wb)
    then have "2 ^ (k - 16) \<le> o'" by (auto simp: bit_iff_odd dest: odd_pos intro: ccontr)
    moreover have "(2 :: nat) ^ 6 \<le> 2 ^ (k - 16)" using that by (intro power_increasing) auto
    ultimately show False using assms(3) by simp
  qed
  then have "base + w = base OR w" using z by (intro disjunctive_add) (meson not_le)
  moreover obtain k where "bit base k" using assms(1) by (auto simp: bit_eq_iff)
  then have "bit (base OR w) k" by (simp add: bit_or_iff)
  then have "base OR w \<noteq> 0" by auto
  ultimately show "base + of_nat (65536 * o') \<noteq> 0" "(base + of_nat (65536 * o')) AND HAMMER2_PBUFMASK = 0"
    using z unfolding w_def [symmetric] m(1) and_mask_eq_0 by (auto simp: bit_or_iff wb)
qed

section \<open>Allocation\<close>

definition linear_usable :: "hammer2_bmap_data \<Rightarrow> nat \<Rightarrow> bool" where
  "linear_usable b radix \<longleftrightarrow> bm_linear b mod 16384 \<noteq> 0 \<and> bm_linear b mod 16384 + 2 ^ radix \<le> 16384 \<and>
     bm_linear b < HAMMER2_SEGSIZE"

text \<open>The entry has room for the radix: behind the linear iterator, or an aligned free run.\<close>

definition bmap_can_alloc :: "hammer2_bmap_data \<Rightarrow> nat \<Rightarrow> bool" where
  "bmap_can_alloc b radix \<longleftrightarrow> linear_usable b radix \<or> (\<exists>c. free_run b radix c)"

text \<open>The bytes \<open>[off, off + 2 ^ radix)\<close> were free and are no longer, and nothing became free.\<close>

definition bmap_took :: "hammer2_bmap_data \<Rightarrow> nat \<Rightarrow> nat \<Rightarrow> hammer2_bmap_data \<Rightarrow> bool" where
  "bmap_took b radix off b' \<longleftrightarrow> off + 2 ^ radix \<le> HAMMER2_SEGSIZE \<and>
     (\<forall>x. off \<le> x \<and> x < off + 2 ^ radix \<longrightarrow> byte_free b x \<and> \<not> byte_free b' x) \<and>
     (\<forall>x < HAMMER2_SEGSIZE. byte_free b' x \<longrightarrow> byte_free b x)"

lemma pow2_1024: "10 \<le> radix \<Longrightarrow> (1024 :: nat) dvd 2 ^ radix"
  using le_imp_power_dvd [of 10 radix 2] by simp

lemma nat_div_mod_chunk: "16384 * c \<le> x \<Longrightarrow> x < 16384 * c + 16384 \<Longrightarrow> x div 16384 = (c :: nat)"
  by (intro div_nat_eqI) auto

lemma byte_free_at:
  assumes "bm_linear b = int (16384 * c + l)" "l < 16384"
  shows "byte_free b x \<longleftrightarrow> chunk_free b (x div 16384) \<or> l \<noteq> 0 \<and> 16384 * c + l \<le> x \<and> x div 16384 = c"
proof -
  have "bm_linear b mod 16384 = int l" "bm_linear b div 16384 = int c"
    using assms by (simp_all flip: of_nat_mod of_nat_div add: zmod_int zdiv_int)
  then have "byte_free b x \<longleftrightarrow> chunk_free b (x div 16384) \<or>
      int l \<noteq> int 0 \<and> int (16384 * c + l) \<le> int x \<and> int (x div 16384) = int c"
    unfolding byte_free_def assms(1) [symmetric] by simp
  then show ?thesis by (simp only: of_nat_le_iff of_nat_eq_iff)
qed

text \<open>The linear iterator as chunk and offset.\<close>

lemma bmap_ok_linear:
  assumes "bmap_ok b"
  obtains c l where "bm_linear b = int (16384 * c + l)" "l < 16384" "l mod 1024 = 0"
    "16384 * c + l \<le> 4194304" "l \<noteq> 0 \<Longrightarrow> c < 256 \<and> \<not> chunk_free b c"
proof -
  define n where "n = nat (bm_linear b)"
  have n: "bm_linear b = int n" using assms by (simp add: n_def bmap_ok_def)
  have "int n \<le> int 4194304" "int (n mod 1024) = int 0"
      "int (n mod 16384) \<noteq> int 0 \<longrightarrow> \<not> chunk_free b (nat (int (n div 16384)))"
    using assms by (simp_all add: bmap_ok_def n zmod_int zdiv_int)
  then have "n \<le> 4194304" "n mod 1024 = 0" "n mod 16384 \<noteq> 0 \<longrightarrow> \<not> chunk_free b (n div 16384)"
    by (simp_all only: of_nat_le_iff of_nat_eq_iff nat_int)
  moreover have "n mod 16384 mod 1024 = n mod 1024" by (simp add: mod_mod_cancel)
  moreover have "n div 16384 < 256" if "n mod 16384 \<noteq> 0" "n \<le> 4194304"
  proof -
    have "n \<noteq> 4194304" using that(1) by auto
    then have "n < 256 * 16384" using that(2) by simp
    then show ?thesis by (rule less_mult_imp_div_less)
  qed
  ultimately show ?thesis
    using n by (intro that [of "n div 16384" "n mod 16384"]) auto
qed

lemma linear_usable_at:
  assumes "bm_linear b = int (16384 * c + l)" "l < 16384"
  shows "linear_usable b radix \<longleftrightarrow> l \<noteq> 0 \<and> l + 2 ^ radix \<le> 16384 \<and> 16384 * c + l < 4194304"
proof -
  have m: "bm_linear b mod 16384 = int l" using assms by (simp flip: of_nat_mod add: zmod_int)
  have "linear_usable b radix \<longleftrightarrow> int l \<noteq> int 0 \<and> int (l + 2 ^ radix) \<le> int 16384 \<and>
      int (16384 * c + l) < int 4194304"
    unfolding linear_usable_def m unfolding assms(1) by simp
  then show ?thesis by (simp only: of_nat_le_iff of_nat_less_iff of_nat_eq_iff)
qed

lemma bmap_okI:
  assumes "length (bm_bitmapq b) = 8" "bm_linear b = int n" "n \<le> 4194304" "n mod 1024 = 0"
    "n mod 16384 \<noteq> 0 \<Longrightarrow> \<not> chunk_free b (n div 16384)" "unat (bm_avail b) = 16384 * card (free_chunks b)"
  shows "bmap_ok b"
proof -
  have "int n \<le> int 4194304" "int (n mod 1024) = int 0" using assms(3,4) by (simp_all only: of_nat_le_iff of_nat_eq_iff)
  moreover have "int (n mod 16384) \<noteq> int 0 \<longrightarrow> \<not> chunk_free b (nat (int (n div 16384)))"
    using assms(5) by (simp only: of_nat_eq_iff nat_int) blast
  ultimately show ?thesis using assms(1,2,6) by (simp add: bmap_ok_def zmod_int zdiv_int)
qed

lemma byte_free_end:
  assumes "bm_linear b = int (16384 * c + m)" "0 < m" "m \<le> 16384"
  shows "byte_free b x \<longleftrightarrow> chunk_free b (x div 16384) \<or>
    m \<noteq> 16384 \<and> 16384 * c + m \<le> x \<and> x div 16384 = c"
proof (cases "m = 16384")
  case True
  then have "bm_linear b = int (16384 * Suc c + 0)" using assms(1) by simp
  from byte_free_at [OF this] show ?thesis using True by simp
next
  case False
  with byte_free_at [OF assms(1)] assms(2,3) show ?thesis by simp
qed

lemma took_linear:
  assumes ok: "bmap_ok b" and lu: "linear_usable b radix" and r: "10 \<le> radix"
    and b': "length (bm_bitmapq b') = 8" "bm_linear b' = bm_linear b + 2 ^ radix" "bm_avail b' = bm_avail b"
    and cf: "\<And>c. c < 256 \<Longrightarrow> chunk_free b' c = chunk_free b c"
  shows "bmap_ok b' \<and> bmap_took b radix (nat (bm_linear b)) b'"
proof -
  define s :: nat where "s = 2 ^ radix"
  obtain c l where L: "bm_linear b = int (16384 * c + l)" "l < 16384" "l mod 1024 = 0"
      "l \<noteq> 0 \<Longrightarrow> c < 256 \<and> \<not> chunk_free b c"
    using bmap_ok_linear [OF ok] by metis
  have ls: "l \<noteq> 0" "l + s \<le> 16384" using lu linear_usable_at [OF L(1,2)] by (simp_all add: s_def)
  then have c: "c < 256" "\<not> chunk_free b c" "\<not> chunk_free b' c" using L(4) cf by auto
  have s: "0 < s" "s mod 1024 = 0" using pow2_1024 [OF r] by (simp_all add: s_def)
  have L': "bm_linear b' = int (16384 * c + (l + s))" using b'(2) L(1) by (simp add: s_def)
  have bf: "byte_free b x \<longleftrightarrow> chunk_free b (x div 16384) \<or> 16384 * c + l \<le> x \<and> x div 16384 = c" for x
    using byte_free_at [OF L(1,2)] ls by simp
  note bf' = byte_free_end [OF L' _ ls(2)]
  have "bmap_ok b'"
  proof (rule bmap_okI [OF b'(1) L'])
    show "16384 * c + (l + s) \<le> 4194304" using c(1) ls by simp
    show "(16384 * c + (l + s)) mod 1024 = 0"
      using L(3) s(2) by (auto simp: mod_eq_0_iff_dvd intro!: dvd_add dvd_mult2)
    show "\<not> chunk_free b' ((16384 * c + (l + s)) div 16384)" if "(16384 * c + (l + s)) mod 16384 \<noteq> 0"
    proof -
      have "l + s \<noteq> 16384" using that by auto
      then have "(16384 * c + (l + s)) div 16384 = c" using ls by (intro nat_div_mod_chunk) auto
      then show ?thesis using c by simp
    qed
    have "free_chunks b' = free_chunks b" using cf by (auto simp: free_chunks_def)
    then show "unat (bm_avail b') = 16384 * card (free_chunks b')" using b'(3) ok by (simp add: bmap_ok_def)
  qed
  moreover have "bmap_took b radix (16384 * c + l) b'"
    unfolding bmap_took_def s_def [symmetric]
  proof (intro conjI allI impI)
    show "16384 * c + l + s \<le> 4194304" using c(1) ls by simp
    fix x assume x: "16384 * c + l \<le> x \<and> x < 16384 * c + l + s"
    then have "x div 16384 = c" using ls by (intro nat_div_mod_chunk) auto
    then show "byte_free b x" "\<not> byte_free b' x" using x c(3) bf bf' s(1) by auto
  next
    fix x :: nat assume "x < 4194304" "byte_free b' x"
    moreover from this have "x div 16384 < 256" by (simp add: less_mult_imp_div_less)
    ultimately show "byte_free b x" using cf bf bf' s(1) by auto
  qed
  ultimately show ?thesis by (simp only: L(1) nat_int simp_thms)
qed


lemma radix_size:
  "radix < 14 \<Longrightarrow> (2 :: nat) ^ radix < 16384" "14 \<le> radix \<Longrightarrow> (2 :: nat) ^ radix = 16384 * radix_chunks radix"
proof -
  assume "radix < 14"
  then have "(2 :: nat) ^ radix < 2 ^ 14" by (intro power_strict_increasing) auto
  then show "(2 :: nat) ^ radix < 16384" by simp
next
  assume "14 \<le> radix"
  then have "(2 :: nat) ^ radix = 2 ^ (14 + (radix - 14))" by simp
  then show "(2 :: nat) ^ radix = 16384 * radix_chunks radix"
    by (simp only: power_add) (simp add: radix_chunks_def)
qed

lemma radix_size_le: "(2 :: nat) ^ radix \<le> 16384 * radix_chunks radix"
  using radix_size [of radix] by (cases "radix < 14") (auto simp: radix_chunks_def)

lemma chunk_of_run:
  "16384 * c0 \<le> x \<Longrightarrow> x < 16384 * (c0 + k) \<Longrightarrow> c0 \<le> x div 16384 \<and> x div 16384 < c0 + (k :: nat)"
proof (intro conjI)
  assume "16384 * c0 \<le> x"
  then have "16384 * c0 div 16384 \<le> x div 16384" by (rule div_le_mono)
  then show "c0 \<le> x div 16384" by simp
  assume "x < 16384 * (c0 + k)"
  then have "x < (c0 + k) * 16384" by simp
  then show "x div 16384 < c0 + k" by (rule less_mult_imp_div_less)
qed

text \<open>The chunks of the run, its bytes, and the entry after a run has been marked.\<close>

definition run_marked :: "hammer2_bmap_data \<Rightarrow> nat \<Rightarrow> nat \<Rightarrow> hammer2_bmap_data \<Rightarrow> bool" where
  "run_marked b radix c0 b' \<longleftrightarrow> length (bm_bitmapq b') = 8 \<and>
     (\<forall>c < 256. chunk_free b' c \<longleftrightarrow> chunk_free b c \<and> \<not> (c0 \<le> c \<and> c < c0 + radix_chunks radix)) \<and>
     bm_linear b' = (if radix < 14 then int (16384 * c0 + 2 ^ radix) else bm_linear b) \<and>
     bm_avail b' = bm_avail b - of_nat (16384 * radix_chunks radix)"

lemma run_marked_avail:
  assumes ok: "bmap_ok b" and run: "free_run b radix c0" and rm: "run_marked b radix c0 b'"
  shows "unat (bm_avail b') = 16384 * card (free_chunks b')"
    "unat (bm_avail b) = unat (bm_avail b') + 16384 * radix_chunks radix"
proof -
  let ?k = "radix_chunks radix"
  let ?R = "{c0 ..< c0 + ?k}"
  have sub: "?R \<subseteq> free_chunks b"
  proof
    fix c assume c: "c \<in> ?R"
    then have "c - c0 < ?k" "c0 + (c - c0) = c" by auto
    then have "chunk_free b c" using run unfolding free_run_def by metis
    moreover have "c < 256" using c run by (simp add: free_run_def)
    ultimately show "c \<in> free_chunks b" by (simp add: free_chunks_def)
  qed
  have "free_chunks b' = free_chunks b - ?R"
    using rm by (auto simp: free_chunks_def run_marked_def)
  then have c: "card (free_chunks b') = card (free_chunks b) - ?k" "?k \<le> card (free_chunks b)"
    using sub card_mono [OF finite_free_chunks sub] by (simp_all add: card_Diff_subset)
  have a: "unat (bm_avail b) = 16384 * card (free_chunks b)" using ok by (simp add: bmap_ok_def)
  then have le: "16384 * ?k \<le> unat (bm_avail b)" using c(2) by simp
  also have "\<dots> < 2 ^ 32" using unsigned_less [of "bm_avail b"] by simp
  finally have n: "unat (of_nat (16384 * ?k) :: u32) = 16384 * ?k" by (intro unat_of_nat_small) simp
  have "(of_nat (16384 * ?k) :: u32) \<le> bm_avail b" unfolding word_le_nat_alt n by (rule le)
  then have "unat (bm_avail b - of_nat (16384 * ?k)) = unat (bm_avail b) - 16384 * ?k" by (simp only: unat_sub n)
  then have "unat (bm_avail b') = unat (bm_avail b) - 16384 * ?k" using rm by (simp only: run_marked_def)
  then show "unat (bm_avail b') = 16384 * card (free_chunks b')"
      "unat (bm_avail b) = unat (bm_avail b') + 16384 * ?k"
    using a c by (simp_all add: diff_mult_distrib2)
qed

lemma run_marked_chunk:
  assumes run: "free_run b radix c0" and rm: "run_marked b radix c0 b'"
    and y: "c0 \<le> y" "y < c0 + radix_chunks radix"
  shows "chunk_free b y" "\<not> chunk_free b' y"
proof -
  have "y - c0 < radix_chunks radix" "c0 + (y - c0) = y" using y by auto
  then show "chunk_free b y" using run unfolding free_run_def by metis
  show "\<not> chunk_free b' y" using y run rm by (simp add: run_marked_def free_run_def)
qed

text \<open>Where the linear iterator is afterwards: behind the block just cut from a chunk, or
  where it was, in a chunk the run does not touch.\<close>

lemma run_marked_linear:
  assumes ok: "bmap_ok b" and r: "10 \<le> radix" and run: "free_run b radix c0" and rm: "run_marked b radix c0 b'"
    and L: "bm_linear b = int (16384 * c + l)" "l < 16384"
  obtains c' l' where "bm_linear b' = int (16384 * c' + l')" "l' < 16384" "l' mod 1024 = 0"
      "16384 * c' + l' \<le> 4194304" "l' \<noteq> 0 \<longrightarrow> \<not> chunk_free b' c'"
      "l' \<noteq> 0 \<longrightarrow> (c' = c0 \<and> l' = 2 ^ radix) \<or> (c' = c \<and> l' = l \<and> \<not> (c0 \<le> c' \<and> c' < c0 + radix_chunks radix))"
proof (cases "radix < 14")
  case True
  have "1 \<le> radix_chunks radix" by (simp add: radix_chunks_def)
  then have c0: "c0 < 256" using run by (simp add: free_run_def)
  have "bm_linear b' = int (16384 * c0 + 2 ^ radix)" "(2 :: nat) ^ radix < 16384"
    using rm radix_size(1) True by (simp_all add: run_marked_def)
  moreover have "\<not> chunk_free b' c0" using run_marked_chunk [OF run rm] by (simp add: radix_chunks_def)
  ultimately show ?thesis using pow2_1024 [OF r] c0 by (intro that [of c0 "2 ^ radix"]) simp_all
next
  case False
  obtain c1 l1 where 1: "bm_linear b = int (16384 * c1 + l1)" "l1 < 16384" "l1 mod 1024 = 0"
      "16384 * c1 + l1 \<le> 4194304" "l1 \<noteq> 0 \<Longrightarrow> c1 < 256 \<and> \<not> chunk_free b c1"
    using bmap_ok_linear [OF ok] by metis
  have eq: "16384 * c1 + l1 = 16384 * c + l" using 1(1) L(1) by (simp only: of_nat_eq_iff)
  then have "(16384 * c1 + l1) div 16384 = (16384 * c + l) div 16384" by (simp only:)
  then have "c1 = c" using 1(2) L(2) by simp
  moreover from this eq have "l1 = l" by simp
  moreover have "bm_linear b' = bm_linear b" using rm False by (simp add: run_marked_def)
  moreover have "\<not> chunk_free b' c" "\<not> (c0 \<le> c \<and> c < c0 + radix_chunks radix)" if "l \<noteq> 0"
    using that 1(5) rm run_marked_chunk(1) [OF run rm, of c] \<open>c1 = c\<close> \<open>l1 = l\<close> by (auto simp: run_marked_def)
  ultimately show ?thesis using 1 by (intro that [of c l]) auto
qed

lemma took_run:
  assumes ok: "bmap_ok b" and r: "10 \<le> radix" and run: "free_run b radix c0" and rm: "run_marked b radix c0 b'"
  shows "bmap_ok b' \<and> bmap_took b radix (16384 * c0) b'"
proof -
  let ?k = "radix_chunks radix"
  define s :: nat where "s = 2 ^ radix"
  have s: "s \<le> 16384 * ?k" using radix_size_le by (simp add: s_def)
  obtain c l where L: "bm_linear b = int (16384 * c + l)" "l < 16384"
    using bmap_ok_linear [OF ok] by metis
  have c0: "c0 + ?k \<le> 256" "1 \<le> ?k" using run by (simp_all add: free_run_def radix_chunks_def)
  note free = run_marked_chunk [OF run rm]
  obtain c' l' where L': "bm_linear b' = int (16384 * c' + l')" "l' < 16384" "l' mod 1024 = 0"
      "16384 * c' + l' \<le> 4194304" "l' \<noteq> 0 \<longrightarrow> \<not> chunk_free b' c'"
      "l' \<noteq> 0 \<longrightarrow> (c' = c0 \<and> l' = s) \<or> (c' = c \<and> l' = l \<and> \<not> (c0 \<le> c' \<and> c' < c0 + ?k))"
    by (rule run_marked_linear [OF ok r run rm L, folded s_def])
  have "bmap_ok b'"
  proof (rule bmap_okI [OF _ L'(1,4)])
    show "length (bm_bitmapq b') = 8" using rm by (simp add: run_marked_def)
    show "(16384 * c' + l') mod 1024 = 0" using L'(3) by (auto simp: mod_eq_0_iff_dvd intro!: dvd_add dvd_mult2)
    show "\<not> chunk_free b' ((16384 * c' + l') div 16384)" if "(16384 * c' + l') mod 16384 \<noteq> 0"
      using that L'(2,5) by simp
    show "unat (bm_avail b') = 16384 * card (free_chunks b')" by (rule run_marked_avail [OF ok run rm])
  qed
  moreover have "bmap_took b radix (16384 * c0) b'"
    unfolding bmap_took_def s_def [symmetric]
  proof (intro conjI allI impI)
    show "16384 * c0 + s \<le> 4194304" using c0(1) s by simp
    fix x assume x: "16384 * c0 \<le> x \<and> x < 16384 * c0 + s"
    then have "x < 16384 * (c0 + ?k)" using s by simp
    with x chunk_of_run [of c0 x ?k] have y: "c0 \<le> x div 16384" "x div 16384 < c0 + ?k" by simp_all
    show "byte_free b x" using free(1) [OF y] by (simp add: byte_free_def)
    show "\<not> byte_free b' x"
      using free(2) [OF y] x L'(6) y unfolding byte_free_at [OF L'(1,2)] by auto
  next
    fix x :: nat assume x: "x < 4194304" "byte_free b' x"
    then have "x div 16384 < 256" by (simp add: less_mult_imp_div_less)
    moreover have "chunk_free b' y \<Longrightarrow> chunk_free b y" if "y < 256" for y using that rm by (simp add: run_marked_def)
    ultimately show "byte_free b x"
      using x L'(6) free(1) [of c0] c0(2)
      unfolding byte_free_at [OF L'(1,2)] byte_free_at [OF L(1,2)] by auto
  qed
  ultimately show ?thesis by blast
qed

definition class_btype :: "u16 \<Rightarrow> u8" where
  "class_btype class = ucast (drop_bit 8 class)"

lemma io_effect_id_refl: "io_inv hmp \<Longrightarrow> io_effect (\<lambda>_. id) hmp hmp"
  by (simp add: io_effect_def)

lemma getradix_pbuf: "hammer2_getradix HAMMER2_PBUFSIZE = 16"
  using getradix_pow [of 16] by simp

lemma bmap_newnz_spec:
  assumes dev: "io_inv hmp" "io_room hmp" and sb: "seg_backed hmp base" and bt: "btype_ok (class_btype class)"
    and r: "res_ok r" and off: "0 \<le> off" "off < HAMMER2_SEGSIZE" and p: "p < 32" "k > 0"
  shows "\<exists>hmp'. bmap_newnz hmp q (bitrun (2 * p) (2 * k)) class radix off base r = Some hmp' \<and>
    io_effect (\<lambda>_. id) hmp hmp'"
proof -
  define o' where "o' = nat (off div 65536)"
  define B where "B = base + of_nat (65536 * o')"
  have o': "o' < 64" "65536 * (off div 65536) = int (65536 * o')"
    using off by (simp_all add: o'_def)
  have B: "base + word_of_int (off AND NOT HAMMER2_PBUFMASK) = B"
    unfolding int_and_not_pbuf [OF off(1)] o'(2) B_def by simp
  have nz: "B \<noteq> 0" "B AND HAMMER2_PBUFMASK = 0"
    using seg_buffer [of base o'] sb o'(1) by (simp_all add: seg_backed_def B_def)
  note po = pbuf_data_off [OF nz]
  have "data_off_backed (B OR 16) hmp"
    using po sb o'(1) by (simp add: data_off_backed_def seg_backed_def B_def)
  moreover have "2 ^ unat ((B OR 16) AND HAMMER2_OFF_MASK_RADIX) = (65536 :: nat)" unfolding po(3) by simp
  ultimately have io: "\<exists>hmp'. io_newnz_put hmp (class_btype class) (B OR 16) 65536 r = Some hmp' \<and>
      io_effect (\<lambda>_. id) hmp hmp'"
    using io_newnz_put_effect [OF dev bt _ _ r] by blast
  obtain m where m: "pbmmask_loop 8 (mask 8) (bitrun (2 * p) (2 * k)) = Some m"
    using pbmmask_loop_returns [of 0 p 8 k] p by (auto simp: less_mult_imp_div_less)
  show ?thesis
    using io m io_effect_id_refl [OF dev(1)]
    by (auto simp: bmap_newnz_def bmap_bmmask_mask getradix_pbuf B [simplified] class_btype_def)
qed

text \<open>The entry \<open>bmap_commit\<close> leaves.\<close>

lemma bmap_commit_spec:
  assumes dev: "io_inv hmp" "io_room hmp" "seg_backed hmp base" "btype_ok (class_btype class)" "res_ok r"
    and off: "0 \<le> off" "off < HAMMER2_SEGSIZE" and p: "p < 32" "k > 0" "i < 8"
    and bg: "bg = bmap_bgsize (bm_bitmapq b ! i) (bitrun (2 * p) (2 * k)) radix"
  shows "\<exists>hmp1. bmap_commit hmp b class radix base r i (bitrun (2 * p) (2 * k)) off =
     Some (0, hmp_allocator_free_sub bg hmp1,
       (mark_run i p k b)\<lparr> bm_class := (if bm_class b = 0 then class else bm_class b),
          bm_avail := bm_avail b - of_nat bg \<rparr>, base + word_of_int off) \<and>
     io_effect (\<lambda>_. id) hmp hmp1"
  using bmap_newnz_spec [OF dev off p(1,2), of "bm_bitmapq b ! i" radix] p(3) bg
  by (auto simp: bmap_commit_def Let_def mark_run_def)

text \<open>A block sits on a 1KB boundary and inside one 64KB device buffer.\<close>

definition block_placed :: "nat \<Rightarrow> nat \<Rightarrow> bool" where
  "block_placed radix off \<longleftrightarrow> off mod 1024 = 0 \<and> off mod 65536 + 2 ^ radix \<le> 65536"

lemma chunk_mod_pbuf: "l < 16384 \<Longrightarrow> (16384 * c + l) mod 65536 = 16384 * (c mod 4) + (l :: nat)"
proof -
  assume l: "l < 16384"
  have c: "c = 4 * (c div 4) + c mod 4" by simp
  have "16384 * c + l = 65536 * (c div 4) + (16384 * (c mod 4) + l)"
    using c by linarith
  moreover have "16384 * (c mod 4) + l < 65536" using l mod_less_divisor [of 4 c] by simp
  ultimately show ?thesis by (simp only: mod_mult_self4 mod_less)
qed

lemma placed_linear:
  assumes "bmap_ok b" "linear_usable b radix"
  shows "block_placed radix (nat (bm_linear b))"
proof -
  obtain c l where L: "bm_linear b = int (16384 * c + l)" "l < 16384" "l mod 1024 = 0"
    using bmap_ok_linear [OF assms(1)] by metis
  have "l + 2 ^ radix \<le> 16384" using assms(2) linear_usable_at [OF L(1,2)] by simp
  moreover have "c mod 4 \<le> 3" using mod_less_divisor [of 4 c] by simp
  moreover have "(16384 * c + l) mod 1024 = 0"
    using L(3) by (auto simp: mod_eq_0_iff_dvd intro!: dvd_add dvd_mult2)
  ultimately show ?thesis
    using chunk_mod_pbuf [OF L(2), of c] unfolding block_placed_def L(1) nat_int by linarith
qed

lemma placed_run:
  assumes "radix \<le> 16" "free_run b radix c"
  shows "block_placed radix (16384 * c)"
proof -
  have "c mod 4 + radix_chunks radix \<le> 4"
    using assms(2) radix_chunks_values [OF assms(1)] by (auto simp: free_run_def) presburger+
  moreover have "(16384 * c) mod 1024 = 0" by (simp add: mod_eq_0_iff_dvd dvd_mult2)
  ultimately show ?thesis
    using chunk_mod_pbuf [of 0 c, simplified] radix_size_le [of radix] unfolding block_placed_def by linarith
qed

text \<open>An allocation makes no room for another one.\<close>

lemma free_run_mono:
  "(\<And>c. c < 256 \<Longrightarrow> chunk_free b' c \<Longrightarrow> chunk_free b c) \<Longrightarrow> free_run b' r c \<Longrightarrow> free_run b r c"
  by (auto simp: free_run_def)

lemma can_alloc_linear:
  assumes ok: "bmap_ok b" and lu: "linear_usable b radix" and b': "bm_linear b' = bm_linear b + 2 ^ radix"
    and cf: "\<And>c. c < 256 \<Longrightarrow> chunk_free b' c = chunk_free b c" and r: "bmap_can_alloc b' r"
  shows "bmap_can_alloc b r"
proof -
  define s :: nat where "s = 2 ^ radix"
  obtain c l where L: "bm_linear b = int (16384 * c + l)" "l < 16384"
    using bmap_ok_linear [OF ok] by metis
  have ls: "l \<noteq> 0" "l + s \<le> 16384" "16384 * c + l < 4194304"
    using lu linear_usable_at [OF L(1,2)] by (simp_all add: s_def)
  have L': "bm_linear b' = int (16384 * c + (l + s))" using b' L(1) by (simp add: s_def)
  have "linear_usable b r" if "linear_usable b' r"
  proof (cases "l + s = 16384")
    case True
    then have "bm_linear b' = int (16384 * Suc c + 0)" using L' by simp
    from linear_usable_at [OF this] that show ?thesis by simp
  next
    case False
    with linear_usable_at [OF L'] that ls linear_usable_at [OF L(1,2)] show ?thesis by auto
  qed
  then show ?thesis using r free_run_mono [of b' b r] cf by (auto simp: bmap_can_alloc_def)
qed

lemma can_alloc_run:
  assumes ok: "bmap_ok b" and r: "10 \<le> radix" and run: "free_run b radix c0" and rm: "run_marked b radix c0 b'"
    and ca: "bmap_can_alloc b' r"
  shows "bmap_can_alloc b r"
proof -
  obtain c l where L: "bm_linear b = int (16384 * c + l)" "l < 16384"
    using bmap_ok_linear [OF ok] by metis
  obtain c' l' where L': "bm_linear b' = int (16384 * c' + l')" "l' < 16384"
      "l' \<noteq> 0 \<longrightarrow> (c' = c0 \<and> l' = 2 ^ radix) \<or> (c' = c \<and> l' = l)"
    by (rule run_marked_linear [OF ok r run rm L]) blast
  have k: "1 \<le> radix_chunks radix" by (simp add: radix_chunks_def)
  have c0: "chunk_free b c0" using run_marked_chunk(1) [OF run rm, of c0] k by simp
  have "bmap_can_alloc b r" if "linear_usable b' r"
  proof -
    have u: "l' \<noteq> 0" "l' + 2 ^ r \<le> 16384" "16384 * c' + l' < 4194304"
      using that linear_usable_at [OF L'(1,2)] by auto
    have "\<not> 14 \<le> r"
    proof
      assume "14 \<le> r"
      then have "2 ^ 14 \<le> (2 :: nat) ^ r" by (rule power_increasing) simp
      with u(1,2) show False by simp
    qed
    then have "radix_chunks r = 1" by (simp add: radix_chunks_def)
    then have "free_run b r c0" using c0 run k by (simp add: free_run_def)
    moreover have "linear_usable b r" if "c' = c" "l' = l" using that u linear_usable_at [OF L] by simp
    ultimately show ?thesis using u(1) L'(3) by (auto simp: bmap_can_alloc_def)
  qed
  moreover have "chunk_free b' c \<Longrightarrow> chunk_free b c" if "c < 256" for c using that rm by (simp add: run_marked_def)
  ultimately show ?thesis using ca free_run_mono [of b' b r] by (auto simp: bmap_can_alloc_def)
qed

text \<open>What an allocation leaves of the device: the I/O layer may have instantiated a buffer, and
  the free space counter is lowered by the chunks newly taken.\<close>

definition dev_alloc_step :: "nat \<Rightarrow> hammer2_dev \<Rightarrow> hammer2_dev \<Rightarrow> bool" where
  "dev_alloc_step bg hmp hmp' \<longleftrightarrow> (\<exists>hmp1. io_effect (\<lambda>_. id) hmp hmp1 \<and> hmp' = hmp_allocator_free_sub bg hmp1)"

text \<open>The outcome of an allocation in an entry that has room for it.\<close>

definition bmap_alloc_done :: "hammer2_dev \<Rightarrow> hammer2_bmap_data \<Rightarrow> nat \<Rightarrow> hammer2_key_t \<Rightarrow>
    (h2error \<times> hammer2_dev \<times> hammer2_bmap_data \<times> hammer2_key_t) option \<Rightarrow> bool" where
  "bmap_alloc_done hmp b radix base res \<longleftrightarrow> (\<exists>hmp' b' off bg. res = Some (0, hmp', b', base + of_nat off) \<and>
     bmap_ok b' \<and> bmap_took b radix off b' \<and> block_placed radix off \<and>
     (\<forall>r. bmap_can_alloc b' r \<longrightarrow> bmap_can_alloc b r) \<and>
     unat (bm_avail b) = unat (bm_avail b') + bg \<and> dev_alloc_step bg hmp hmp')"

lemma int_and_run: "(x :: int) AND push_bit a (mask n) = push_bit a (take_bit n (drop_bit a x))"
  by (rule bit_eqI) (auto simp: bit_and_iff bit_push_bit_iff bit_mask_iff bit_take_bit_iff bit_drop_bit_eq)

lemma int_and_62: "(x :: int) AND 62 = 2 * (x div 2 mod 32)"
proof -
  have "(62 :: int) = push_bit 1 (mask 5)" by (simp add: mask_eq_exp_minus_1 push_bit_eq_mult)
  then have "x AND 62 = push_bit 1 (take_bit 5 (drop_bit 1 x))" by (simp only: int_and_run)
  then show ?thesis by (simp add: push_bit_eq_mult take_bit_eq_mod drop_bit_eq_div)
qed

lemma linear_index:
  assumes "bm_linear b = int n"
  shows "nat (bm_linear b div (4194304 div 8)) = n div 16384 div 32"
    "nat ((bm_linear b div (16384 div 2)) AND 62) = 2 * (n div 16384 mod 32)"
proof -
  have "n div 524288 = n div 16384 div 32" by (simp flip: div_mult2_eq)
  then show "nat (bm_linear b div (4194304 div 8)) = n div 16384 div 32"
    unfolding assms by (simp flip: zdiv_int)
  have "int n div 8192 div 2 = int (n div 16384)"
    by (simp add: zdiv_int flip: zdiv_zmult2_eq)
  then have "(int n div 8192) AND 62 = int (2 * (n div 16384 mod 32))"
    unfolding int_and_62 by (simp add: zmod_int)
  then show "nat ((bm_linear b div (16384 div 2)) AND 62) = 2 * (n div 16384 mod 32)"
    unfolding assms by simp
qed

lemma bmap_alloc_linear:
  assumes ok: "bmap_ok b" and r: "10 \<le> radix" and lu: "linear_usable b radix"
    and dev: "io_inv hmp" "io_room hmp" "seg_backed hmp base" "btype_ok (class_btype class)" "res_ok res"
  shows "bmap_alloc_done hmp b radix base (hammer2_bmap_alloc hmp b class sub_key radix base res)"
proof -
  obtain c l where L: "bm_linear b = int (16384 * c + l)" "l < 16384" "l mod 1024 = 0"
      "l \<noteq> 0 \<Longrightarrow> c < 256 \<and> \<not> chunk_free b c"
    using bmap_ok_linear [OF ok] by metis
  have ls: "l \<noteq> 0" "l + 2 ^ radix \<le> 16384" using lu linear_usable_at [OF L(1,2)] by simp_all
  have c: "c < 256" "\<not> chunk_free b c" using L(4) ls by auto
  have rad: "radix < 14"
  proof (rule ccontr)
    assume "\<not> radix < 14"
    then have "(2 :: nat) ^ 14 \<le> 2 ^ radix" by (intro power_increasing) auto
    with ls show False by simp
  qed
  define b0 where "b0 = b\<lparr> bm_linear := bm_linear b + 2 ^ radix \<rparr>"
  let ?i = "c div 32" let ?p = "c mod 32"
  have len: "length (bm_bitmapq b0) = 8" using ok by (simp add: b0_def bmap_ok_def)
  have q: "bm_bitmapq b0 ! ?i AND bitrun (2 * ?p) (2 * 1) \<noteq> 0"
    using c run_free_iff [of ?i ?p 1 b] by (auto simp: b0_def)
  have bg: "0 = bmap_bgsize (bm_bitmapq b0 ! ?i) (bitrun (2 * ?p) (2 * 1)) radix"
    using q rad by (simp add: bmap_bgsize_def)
  have off: "0 \<le> bm_linear b" "bm_linear b < 4194304" using lu L(1) by (simp_all add: linear_usable_def)
  have p: "?p < 32" "(1 :: nat) > 0" "?i < 8" using c(1) by auto
  obtain hmp1 b' where h: "bmap_commit hmp b0 class radix base res ?i (bitrun (2 * ?p) (2 * 1)) (bm_linear b) =
        Some (0, hmp_allocator_free_sub 0 hmp1, b', base + word_of_int (bm_linear b))"
      "io_effect (\<lambda>_. id) hmp hmp1" "b' = (mark_run ?i ?p 1 b0)\<lparr> bm_class :=
        (if bm_class b0 = 0 then class else bm_class b0), bm_avail := bm_avail b0 - of_nat 0 \<rparr>"
    using bmap_commit_spec [OF dev off p bg] by blast
  have "chunk_free b' y = chunk_free (mark_run ?i ?p 1 b0) y" "chunk_free b0 y = chunk_free b y" for y
    by (simp_all add: h(3) chunk_free_def b0_def)
  moreover have "chunk_free (mark_run ?i ?p 1 b0) y \<longleftrightarrow> chunk_free b0 y \<and> y \<noteq> c" if "y < 256" for y
    using chunk_free_mark_run [OF len p(3) _ that, of ?p 1] by (auto simp: less_Suc_eq_le)
  ultimately have cf: "chunk_free b' y = chunk_free b y" if "y < 256" for y using that c(2) by auto
  have b': "length (bm_bitmapq b') = 8" "bm_linear b' = bm_linear b + 2 ^ radix" "bm_avail b' = bm_avail b"
    using len by (simp_all add: h(3) mark_run_def b0_def)
  have took: "bmap_ok b' \<and> bmap_took b radix (nat (bm_linear b)) b'" by (rule took_linear [OF ok lu r b' cf])
  then have fit: "bm_linear b + 2 ^ radix \<le> 4194304" using b'(2) by (simp add: bmap_ok_def)
  have idx: "nat (bm_linear b div (4194304 div 8)) = ?i" "nat ((bm_linear b div (16384 div 2)) AND 62) = 2 * ?p"
    using linear_index [OF L(1)] L(2) by simp_all
  have "hammer2_bmap_alloc hmp b class sub_key radix base res =
      bmap_commit hmp b0 class radix base res ?i (bitrun (2 * ?p) (2 * 1)) (bm_linear b)"
    unfolding hammer2_bmap_alloc_def Let_def int_and_16383 int_and_1023 idx
    using lu fit rad off ok by (simp add: linear_usable_def bmap_ok_def bmap_bmradix_def bmap_bmmask_mask b0_def)
  moreover have "base + word_of_int (bm_linear b) = base + of_nat (nat (bm_linear b))" using off(1) by simp
  ultimately show ?thesis
    unfolding bmap_alloc_done_def dev_alloc_step_def
    using took h(1,2) b'(3) placed_linear [OF ok lu] can_alloc_linear [OF ok lu b'(2) cf] by fastforce
qed


lemma pow2_mod_chunk: "(2 :: int) ^ radix mod 16384 \<noteq> 0 \<longleftrightarrow> radix < 14"
proof (cases "radix < 14")
  case True
  then have "(2 :: int) ^ radix < 2 ^ 14" by (intro power_strict_increasing) auto
  then have "(2 :: int) ^ radix mod 16384 = 2 ^ radix" by (intro mod_pos_pos_trivial) auto
  with True show ?thesis by simp
next
  case False
  then have "(2 :: int) ^ 14 dvd 2 ^ radix" by (intro le_imp_power_dvd) simp
  with False show ?thesis by simp
qed

lemma bmap_alloc_not_linear:
  assumes lu: "\<not> linear_usable b radix"
    and f: "bmap_find (bm_bitmapq b) class radix sub_key (bmap_bmradix radix) = Some found"
  shows "hammer2_bmap_alloc hmp b class sub_key radix base r =
    (case found of None \<Rightarrow> Some (HAMMER2_ERROR_ENOSPC, hmp, b, base)
     | Some (i, j, m) \<Rightarrow> bmap_commit hmp
         (if radix < 14 then b\<lparr> bm_linear := int (524288 * i + 8192 * j + 2 ^ radix) \<rparr> else b)
         class radix base r i m (int (524288 * i + 8192 * j)))"
proof -
  have nl: "(bm_linear b mod 16384 + 2 ^ radix \<le> 16384 \<and> bm_linear b mod 16384 \<noteq> 0 \<and> bm_linear b < 4194304) = False"
    using lu by (auto simp: linear_usable_def)
  show ?thesis
    unfolding hammer2_bmap_alloc_def Let_def int_and_16383 nl if_False f pow2_mod_chunk
    by (auto simp: mult.commute split: option.splits)
qed

lemma bmap_alloc_find:
  assumes ok: "bmap_ok b" and r: "10 \<le> radix" "radix \<le> 16" and lu: "\<not> linear_usable b radix"
    and al: "sub_key_aligned class radix sub_key"
    and dev: "io_inv hmp" "io_room hmp" "seg_backed hmp base" "btype_ok (class_btype class)" "res_ok res"
  shows "if \<exists>c. free_run b radix c
    then bmap_alloc_done hmp b radix base (hammer2_bmap_alloc hmp b class sub_key radix base res)
    else hammer2_bmap_alloc hmp b class sub_key radix base res = Some (HAMMER2_ERROR_ENOSPC, hmp, b, base)"
proof -
  let ?k = "radix_chunks radix"
  have len: "length (bm_bitmapq b) = 8" using ok by (simp add: bmap_ok_def)
  have kv: "?k \<in> {1, 2, 4}" by (rule radix_chunks_values [OF r(2)])
  obtain found where f: "bmap_find (bm_bitmapq b) class radix sub_key (bmap_bmradix radix) = Some found"
    "case found of None \<Rightarrow> \<forall>c. \<not> free_run b radix c
     | Some (i, j, m) \<Rightarrow> \<exists>p. i < 8 \<and> j = 2 * p \<and> p + ?k \<le> 32 \<and> m = bitrun (2 * p) (2 * ?k) \<and>
         bm_bitmapq b ! i AND m = 0 \<and> ?k dvd p"
    using bmap_find_spec [OF len r(2) al refl] by blast
  show ?thesis
  proof (cases found)
    case None
    with f(2) bmap_alloc_not_linear [OF lu f(1)] show ?thesis by simp
  next
    case (Some t)
    then obtain i p where t: "t = (i, 2 * p, bitrun (2 * p) (2 * ?k))" and ip: "i < 8" "p + ?k \<le> 32"
        "bm_bitmapq b ! i AND bitrun (2 * p) (2 * ?k) = 0" "?k dvd p"
      using f(2) by (cases t) auto
    define c where "c = 32 * i + p"
    have run: "free_run b radix c" unfolding c_def by (rule free_runI [OF ip(1,2,4) kv ip(3)])
    define b0 where "b0 = (if radix < 14 then b\<lparr> bm_linear := int (16384 * c + 2 ^ radix) \<rparr> else b)"
    have q: "bm_bitmapq b0 = bm_bitmapq b" "bm_avail b0 = bm_avail b" by (simp_all add: b0_def)
    have k0: "?k > 0" by (simp add: radix_chunks_def)
    have p: "p < 32" "?k > 0" "i < 8" using ip k0 by auto
    have bg: "16384 * ?k = bmap_bgsize (bm_bitmapq b0 ! i) (bitrun (2 * p) (2 * ?k)) radix"
      using ip(3) radix_size(2) [of radix] by (auto simp: bmap_bgsize_def q radix_chunks_def)
    have off: "0 \<le> int (16384 * c)" "int (16384 * c) < 4194304" using ip p by (auto simp: c_def)
    obtain hmp1 b' where h: "bmap_commit hmp b0 class radix base res i (bitrun (2 * p) (2 * ?k)) (int (16384 * c)) =
          Some (0, hmp_allocator_free_sub (16384 * ?k) hmp1, b', base + word_of_int (int (16384 * c)))"
        "io_effect (\<lambda>_. id) hmp hmp1" "b' = (mark_run i p ?k b0)\<lparr> bm_class :=
          (if bm_class b0 = 0 then class else bm_class b0), bm_avail := bm_avail b0 - of_nat (16384 * ?k) \<rparr>"
      using bmap_commit_spec [OF dev off p bg] by blast
    have rm: "run_marked b radix c b'"
      using chunk_free_mark_run [OF _ ip(1,2), of b0] len q
      by (simp add: run_marked_def h(3) chunk_free_def mark_run_def c_def) (simp add: b0_def c_def)
    have "hammer2_bmap_alloc hmp b class sub_key radix base res =
        bmap_commit hmp b0 class radix base res i (bitrun (2 * p) (2 * ?k)) (int (16384 * c))"
      unfolding bmap_alloc_not_linear [OF lu f(1)] Some t by (simp add: b0_def c_def algebra_simps)
    moreover have "base + word_of_int (int (16384 * c)) = base + of_nat (16384 * c)" by simp
    ultimately have "bmap_alloc_done hmp b radix base (hammer2_bmap_alloc hmp b class sub_key radix base res)"
      using took_run [OF ok r(1) run rm] run_marked_avail(2) [OF ok run rm] h(1,2)
        placed_run [OF r(2) run] can_alloc_run [OF ok r(1) run rm]
      unfolding bmap_alloc_done_def dev_alloc_step_def by metis
    then show ?thesis using run by auto
  qed
qed


lemma bmap_alloc_spec:
  assumes "bmap_ok b" "10 \<le> radix" "radix \<le> 16" "sub_key_aligned class radix sub_key"
    and "io_inv hmp" "io_room hmp" "seg_backed hmp base" "btype_ok (class_btype class)" "res_ok res"
  shows "if bmap_can_alloc b radix
    then bmap_alloc_done hmp b radix base (hammer2_bmap_alloc hmp b class sub_key radix base res)
    else hammer2_bmap_alloc hmp b class sub_key radix base res = Some (HAMMER2_ERROR_ENOSPC, hmp, b, base)"
proof (cases "linear_usable b radix")
  case True
  with bmap_alloc_linear [OF assms(1,2) True assms(5-9)] show ?thesis by (simp add: bmap_can_alloc_def)
next
  case False
  with bmap_alloc_find [OF assms(1-3) False assms(4-9)] show ?thesis by (simp add: bmap_can_alloc_def)
qed

text \<open>C6: \<open>hammer2_bmap_alloc\<close> is correct.  On an entry that satisfies the invariant, for a radix of
  1KB to 64KB, it always returns.  If the entry has room (behind the linear iterator or in an
  aligned run of free chunks) it hands out a block inside the segment all of whose bytes were
  free and none of whose bytes is free afterwards, on a 1KB boundary and within one device buffer,
  frees nothing and makes no room for any radix, keeps the invariant, and lowers \<open>avail\<close> and
  the volume header's \<open>allocator_free\<close> by the same amount; otherwise it answers \<open>ENOSPC\<close> and
  changes nothing.\<close>

theorem bmap_alloc_correct:
  assumes "bmap_ok b" "10 \<le> radix" "radix \<le> 16" "sub_key_aligned class radix sub_key"
    and "io_inv hmp" "io_room hmp" "seg_backed hmp base" "btype_ok (class_btype class)" "res_ok res"
  shows "if bmap_can_alloc b radix
    then bmap_alloc_done hmp b radix base (hammer2_bmap_alloc hmp b class sub_key radix base res)
    else hammer2_bmap_alloc hmp b class sub_key radix base res = Some (HAMMER2_ERROR_ENOSPC, hmp, b, base)"
  using assms by (rule bmap_alloc_spec)

text \<open>An entry with nothing allocated, and a device of two volumes to allocate on.\<close>

definition bmap_fresh :: hammer2_bmap_data where
  "bmap_fresh = \<lparr> bm_linear = 0, bm_class = 0, bm_avail = HAMMER2_FREEMAP_LEVEL0_SIZE, bm_bitmapq = replicate 8 0 \<rparr>"

lemma chunk_free_fresh: "c < 256 \<Longrightarrow> bm_bitmapq b = replicate 8 0 \<Longrightarrow> chunk_free b c"
  by (simp add: chunk_free_def pair_free_def less_mult_imp_div_less)

lemma bmap_fresh_ok: "bmap_ok bmap_fresh"
proof -
  have "free_chunks bmap_fresh = {..<256}"
    using chunk_free_fresh [of _ bmap_fresh] by (auto simp: free_chunks_def bmap_fresh_def)
  then have "card (free_chunks bmap_fresh) = 256" by (simp only: card_lessThan)
  then show ?thesis by (intro bmap_okI [where n = 0]) (simp_all add: bmap_fresh_def)
qed

definition ex_dev :: hammer2_dev where
  "ex_dev = \<lparr> iohash = (\<lambda>_. []), iofree_count = 0, io_iterator = 0, hmp_volumes = take 2 ex_volumes,
     iostat_read = ex_iostat, iostat_write = ex_iostat, count_dio_allocated = 0, device_error = False,
     io_written = [], now_ticks = 100, kern_hz = 100, hammer2_dio_limit = 256,
     hmp_spmp = True, hmp_total_size = 1073741824 + 8388608, hmp_voldata = ex_root\<lparr> vd_allocator_beg := HAMMER2_SEGSIZE,
       vd_allocator_free := 1073741824 \<rparr>,
     hmp_voldata_modified = False, hmp_freemap_relaxed = False, hmp_heur_freemap = replicate 32 0,
     hmp_fleaves = (\<lambda>_. None), alloc_data_bytes = 0, alloc_meta_bytes = 0 \<rparr>"

lemma ex_dev_inv: "io_inv ex_dev" "io_room ex_dev"
  by (simp_all add: io_inv_def io_room_def ex_dev_def chains_ok_def free_dios_empty volumes_open_def
      ex_volumes_def ex_devvp_def)

lemma ex_dev_seg: "seg_backed ex_dev HAMMER2_SEGSIZE"
proof -
  have "\<exists>vol. hammer2_get_volume (hmp_volumes ex_dev) (4194304 + of_nat (65536 * o')) = Some (Some vol)"
    if "o' < 64" for o'
  proof -
    let ?x = "4194304 + of_nat (65536 * o') :: u64"
    have "unat ?x = 4194304 + 65536 * o'"
      using that by (simp add: unat_word_ariths unat_of_nat)
    then have "?x < 1073741824" using that by (simp add: word_less_nat_alt)
    moreover have "?x AND NOT 63 \<le> ?x" by (rule word_and_le2)
    ultimately have "?x AND NOT 63 < 1073741824" by simp
    then show ?thesis
      by (simp add: hammer2_get_volume_def ex_dev_def ex_volumes_def ex_devvp_def)
  qed
  then show ?thesis by (simp add: seg_backed_def)
qed


lemma fresh_run: "free_run bmap_fresh 14 0"
  using chunk_free_fresh [of 0 bmap_fresh] by (simp add: free_run_def radix_chunks_def bmap_fresh_def)

theorem bmap_alloc_correct_witness:
  "\<exists>hmp' b' off. hammer2_bmap_alloc ex_dev bmap_fresh 0x0310 0 14 HAMMER2_SEGSIZE (BlkErr 5) =
     Some (0, hmp', b', HAMMER2_SEGSIZE + of_nat off) \<and> bmap_took bmap_fresh 14 off b'"
proof -
  have "sub_key_aligned 0x0310 14 0" "btype_ok (class_btype 0x0310)" "res_ok (BlkErr 5)"
    by (simp_all add: sub_key_aligned_def class_btype_def btype_ok_def res_ok_def drop_bit_eq_div)
  moreover have "bmap_can_alloc bmap_fresh 14" using fresh_run by (auto simp: bmap_can_alloc_def)
  ultimately show ?thesis
    using bmap_alloc_correct [OF bmap_fresh_ok _ _ _ ex_dev_inv ex_dev_seg, of 14 "0x0310" 0 "BlkErr 5"]
    by (auto simp: bmap_alloc_done_def)
qed

end
