(* ===== verification/Hammer2_Freemap.thy ===== *)
theory Hammer2_Freemap
  imports Hammer2_Bmap
begin

unbundle bit_operations_syntax

text \<open>
  \<^verbatim>\<open>hammer2_freemap.c\<close>: the block allocator.  A level 1 freemap leaf covers 1GB with 256
  entries of 4MB; the blocks of the freemap itself rotate in a reserved area.  The topology above
  the leaves (\<open>hammer2_chain_lookup\<close> and \<open>hammer2_chain_create\<close> on \<open>fchain\<close>) is the map
  \<open>hmp_fleaves\<close>.  What the chain layer answers to a create or modify is part of \<open>freemap_env\<close>, one
  per attempt, with the page cache's answer for the buffer cache optimisation.  The debug build's
  allocation refusals are not modelled.
\<close>

abbreviation (input) HAMMER2_FREEMAP_HEUR_NRADIX :: "'a::numeral" where "HAMMER2_FREEMAP_HEUR_NRADIX \<equiv> 4"
abbreviation (input) HAMMER2_FREEMAP_HEUR_TYPES :: "'a::numeral" where "HAMMER2_FREEMAP_HEUR_TYPES \<equiv> 8"
abbreviation (input) HAMMER2_FREEMAP_HEUR_SIZE :: "'a::numeral" where "HAMMER2_FREEMAP_HEUR_SIZE \<equiv> 32"
abbreviation (input) HAMMER2_FREEMAP_DORECOVER :: "'a::one" where "HAMMER2_FREEMAP_DORECOVER \<equiv> 1"

record hammer2_fiterate =
  fi_bpref :: hammer2_off_t
  fi_bnext :: hammer2_off_t
  fi_loops :: int
  fi_relaxed :: bool

record freemap_env =
  fe_create :: h2error
  fe_modify :: h2error
  fe_modify2 :: h2error
  fe_newnz :: blk_res

section \<open>Reserved blocks of the freemap itself\<close>

text \<open>The level a \<open>keybits\<close> value names: its block type, its radix and its slot in a group.\<close>

definition freemap_level :: "u8 \<Rightarrow> (u8 \<times> nat \<times> nat) option" where
  "freemap_level keybits =
     (if keybits = HAMMER2_FREEMAP_LEVEL5_RADIX then Some (HAMMER2_BREF_TYPE_FREEMAP_NODE, HAMMER2_FREEMAP_LEVEL5_RADIX, 4)
      else if keybits = HAMMER2_FREEMAP_LEVEL4_RADIX then Some (HAMMER2_BREF_TYPE_FREEMAP_NODE, HAMMER2_FREEMAP_LEVEL4_RADIX, 3)
      else if keybits = HAMMER2_FREEMAP_LEVEL3_RADIX then Some (HAMMER2_BREF_TYPE_FREEMAP_NODE, HAMMER2_FREEMAP_LEVEL3_RADIX, 2)
      else if keybits = HAMMER2_FREEMAP_LEVEL2_RADIX then Some (HAMMER2_BREF_TYPE_FREEMAP_NODE, HAMMER2_FREEMAP_LEVEL2_RADIX, 1)
      else if keybits = HAMMER2_FREEMAP_LEVEL1_RADIX then Some (HAMMER2_BREF_TYPE_FREEMAP_LEAF, HAMMER2_FREEMAP_LEVEL1_RADIX, 0)
      else None)"

text \<open>The rotating index 0..7: 0 for a first allocation, otherwise the one after the present.\<close>

definition freemap_reserve_index :: "hammer2_off_t \<Rightarrow> nat option" where
  "freemap_reserve_index data_off =
     (if data_off AND NOT HAMMER2_OFF_MASK_RADIX = 0 then Some 0
      else do {
        let off = unat (data_off AND NOT HAMMER2_OFF_MASK_RADIX AND HAMMER2_SEGMASK) div HAMMER2_PBUFSIZE;
        KKASSERT (off \<ge> HAMMER2_ZONE_FREEMAP_00 \<and> off < HAMMER2_ZONE_FREEMAP_END);
        let index = (off - HAMMER2_ZONE_FREEMAP_00) div HAMMER2_ZONE_FREEMAP_INC;
        KKASSERT (index < HAMMER2_NFREEMAPS);
        Some (if index + 1 = HAMMER2_NFREEMAPS then 0 else index + 1) })"

definition hammer2_freemap_reserve ::
    "'a hammer2_iodev_scheme \<Rightarrow> hammer2_blockref \<Rightarrow> nat \<Rightarrow>
     (h2error \<times> 'a hammer2_iodev_scheme \<times> hammer2_blockref) option" where
  "hammer2_freemap_reserve hmp bref radix = do {
     index \<leftarrow> freemap_reserve_index (br_data_off bref);
     (case freemap_level (br_keybits bref) of
        None \<Rightarrow> Some (HAMMER2_ERROR_EIO, hpanic hmp, bref)
      | Some (btype, level_radix, slot) \<Rightarrow> do {
          KKASSERT (br_type bref = btype);
          KKASSERT (2 ^ radix = (HAMMER2_FREEMAP_LEVELN_PSIZE :: nat));
          let off = H2FMBASE (br_key bref) level_radix +
            of_nat ((index * HAMMER2_ZONE_FREEMAP_INC + HAMMER2_ZONE_FREEMAP_00 + slot) * HAMMER2_PBUFSIZE);
          Some (0, hmp, bref\<lparr> br_data_off := off OR of_nat radix \<rparr>) }) }"

section \<open>Level 1 leaves\<close>

definition bmap_zero :: hammer2_bmap_data where
  "bmap_zero = \<lparr> bm_linear = 0, bm_class = 0, bm_avail = 0, bm_bitmapq = replicate 8 0 \<rparr>"

text \<open>\<open>hammer2_chain_modify\<close> on a leaf: a failure (a load or a new block that cannot be had) leaves
  \<open>chain->error\<close> set and \<open>chain->data\<close> null.\<close>

definition leaf_modify :: "h2error \<Rightarrow> freemap_leaf \<Rightarrow> freemap_leaf" where
  "leaf_modify error leaf =
     (if error = 0 then leaf\<lparr> fl_error := 0 \<rparr> else leaf\<lparr> fl_error := error, fl_bmdata := None \<rparr>)"

text \<open>The initialisation loop over the entries, with the leaf's \<open>avail\<close> hint.\<close>

fun freemap_init_loop :: "hammer2_key_t \<Rightarrow> hammer2_key_t \<Rightarrow> hammer2_key_t \<Rightarrow> u64 \<Rightarrow> hammer2_bmap_data list \<Rightarrow>
    hammer2_bmap_data list \<times> u64" where
  "freemap_init_loop key lokey hikey avail [] = ([], avail)"
| "freemap_init_loop key lokey hikey avail (bmap # bmaps) =
     (let (bmap, avail) =
        (if key < lokey \<or> key \<ge> hikey
         then (bmap\<lparr> bm_bitmapq := replicate 8 (-1), bm_avail := 0, bm_linear := HAMMER2_SEGSIZE \<rparr>,
               avail - HAMMER2_FREEMAP_LEVEL0_SIZE)
         else (bmap\<lparr> bm_avail := HAMMER2_FREEMAP_LEVEL0_SIZE \<rparr>, avail));
       (bmaps, avail) = freemap_init_loop (key + HAMMER2_FREEMAP_LEVEL0_SIZE) lokey hikey avail bmaps
      in (bmap # bmaps, avail))"

definition freemap_lokey :: "hammer2_off_t \<Rightarrow> hammer2_key_t \<Rightarrow> hammer2_key_t" where
  "freemap_lokey allocator_beg key =
     (let lokey = (allocator_beg + HAMMER2_SEGMASK) AND NOT HAMMER2_SEGMASK;
          lokey = (if lokey < H2FMBASE key HAMMER2_FREEMAP_LEVEL1_RADIX
                   then H2FMBASE key HAMMER2_FREEMAP_LEVEL1_RADIX else lokey)
      in if lokey < H2FMZONEBASE key + HAMMER2_ZONE_SEG then H2FMZONEBASE key + HAMMER2_ZONE_SEG else lokey)"

definition freemap_hikey :: "hammer2_off_t \<Rightarrow> hammer2_key_t \<Rightarrow> hammer2_key_t" where
  "freemap_hikey total_size key =
     (if key + HAMMER2_FREEMAP_LEVEL1_SIZE > total_size then total_size AND NOT HAMMER2_SEGMASK
      else key + HAMMER2_FREEMAP_LEVEL1_SIZE)"

definition hammer2_freemap_init :: "hammer2_dev \<Rightarrow> hammer2_key_t \<Rightarrow> freemap_leaf \<Rightarrow> freemap_leaf option" where
  "hammer2_freemap_init hmp key chain = do {
     bmdata \<leftarrow> fl_bmdata chain;
     let lokey = freemap_lokey (vd_allocator_beg (hmp_voldata hmp)) key;
     let hikey = freemap_hikey (hmp_total_size hmp) key;
     let (bmdata, avail) = freemap_init_loop key lokey hikey HAMMER2_FREEMAP_LEVEL1_SIZE bmdata;
     Some (chain\<lparr> fl_bmdata := Some bmdata, fl_avail := avail \<rparr>) }"

text \<open>The leaf \<open>hammer2_chain_create\<close> inserts, and what the caller makes of it once it is modified:
  the data zeroed, the hints at their highest, the map initialised.\<close>

definition leaf_created :: freemap_leaf where
  "leaf_created = \<lparr> fl_error = 0, fl_bigmask = 0, fl_avail = 0, fl_bmdata = None \<rparr>"

definition leaf_create :: "hammer2_dev \<Rightarrow> hammer2_key_t \<Rightarrow> h2error \<Rightarrow> (h2error \<times> freemap_leaf) option" where
  "leaf_create hmp key error =
     (let chain = leaf_modify error leaf_created in
      if error = 0
      then do {
        chain \<leftarrow> hammer2_freemap_init hmp key (chain\<lparr> fl_bmdata := Some (replicate HAMMER2_FREEMAP_COUNT bmap_zero),
                   fl_bigmask := -1, fl_avail := HAMMER2_FREEMAP_LEVEL1_SIZE \<rparr>);
        Some (0, chain) }
      else Some (error, chain))"

section \<open>One attempt\<close>

definition freemap_class :: "u8 \<Rightarrow> u16" where
  "freemap_class btype = push_bit 8 (ucast btype) OR HAMMER2_PBUFRADIX"

definition freemap_availchk :: "nat \<Rightarrow> hammer2_bmap_data \<Rightarrow> bool" where
  "freemap_availchk radix bmap \<longleftrightarrow> bm_avail bmap \<noteq> 0 \<or>
     radix < HAMMER2_FREEMAP_BLOCK_RADIX \<and> bm_linear bmap AND HAMMER2_FREEMAP_BLOCK_MASK \<noteq> 0"

text \<open>One visit of entry \<open>n\<close>, forwards or backwards of the start; an entry out of the array, or
  one the checks pass over, leaves the scan's \<open>ENOSPC\<close> standing.\<close>

definition freemap_try_entry ::
    "hammer2_dev \<Rightarrow> hammer2_bmap_data list \<Rightarrow> u16 \<Rightarrow> int \<Rightarrow> nat \<Rightarrow> bool \<Rightarrow> hammer2_key_t \<Rightarrow> blk_res \<Rightarrow> int \<Rightarrow>
     (h2error \<times> hammer2_dev \<times> hammer2_bmap_data list \<times> hammer2_key_t) option" where
  "freemap_try_entry hmp bmdata class sub_key radix relaxed key r n =
     (if n < 0 \<or> n \<ge> HAMMER2_FREEMAP_COUNT then Some (HAMMER2_ERROR_ENOSPC, hmp, bmdata, key)
      else let bmap = bmdata ! nat n in
        if freemap_availchk radix bmap \<and> (bm_class bmap = 0 \<or> bm_class bmap = class \<or> relaxed)
        then do {
          (error, hmp, bmap, base_key) \<leftarrow>
            hammer2_bmap_alloc hmp bmap class sub_key radix (key + word_of_int n * HAMMER2_FREEMAP_LEVEL0_SIZE) r;
          Some (error, hmp, bmdata[nat n := bmap], if error \<noteq> HAMMER2_ERROR_ENOSPC then base_key else key) }
        else Some (HAMMER2_ERROR_ENOSPC, hmp, bmdata, key))"

text \<open>The loop over \<open>count\<close>, outwards from \<open>start\<close> in both directions.\<close>

fun freemap_scan ::
    "hammer2_dev \<Rightarrow> hammer2_bmap_data list \<Rightarrow> u16 \<Rightarrow> int \<Rightarrow> nat \<Rightarrow> bool \<Rightarrow> hammer2_key_t \<Rightarrow> blk_res \<Rightarrow> int \<Rightarrow> int list \<Rightarrow>
     (h2error \<times> hammer2_dev \<times> hammer2_bmap_data list \<times> hammer2_key_t) option" where
  "freemap_scan hmp bmdata class sub_key radix relaxed key r start [] =
     Some (HAMMER2_ERROR_ENOSPC, hmp, bmdata, key)"
| "freemap_scan hmp bmdata class sub_key radix relaxed key r start (count # counts) =
     (if start + count \<ge> HAMMER2_FREEMAP_COUNT \<and> start - count < 0
      then Some (HAMMER2_ERROR_ENOSPC, hmp, bmdata, key)
      else do {
        (error, hmp, bmdata, key) \<leftarrow> freemap_try_entry hmp bmdata class sub_key radix relaxed key r (start + count);
        if error \<noteq> HAMMER2_ERROR_ENOSPC then Some (error, hmp, bmdata, key)
        else do {
          (error, hmp, bmdata, key) \<leftarrow> freemap_try_entry hmp bmdata class sub_key radix relaxed key r (start - count);
          if error \<noteq> HAMMER2_ERROR_ENOSPC then Some (error, hmp, bmdata, key)
          else freemap_scan hmp bmdata class sub_key radix relaxed key r start counts } })"

definition hammer2_freemap_iterate :: "hammer2_dev \<Rightarrow> hammer2_fiterate \<Rightarrow> h2error \<times> hammer2_fiterate" where
  "hammer2_freemap_iterate hmp iter =
     (let bnext = (fi_bnext iter AND NOT HAMMER2_FREEMAP_LEVEL1_MASK) + HAMMER2_FREEMAP_LEVEL1_SIZE in
      if bnext \<ge> hmp_total_size hmp
      then (let iter = iter\<lparr> fi_bnext := 0, fi_loops := fi_loops iter + 1 \<rparr> in
            if fi_loops iter \<ge> 2
            then (if \<not> fi_relaxed iter then (HAMMER2_ERROR_EAGAIN, iter\<lparr> fi_relaxed := True \<rparr>)
                  else (HAMMER2_ERROR_ENOSPC, iter))
            else (HAMMER2_ERROR_EAGAIN, iter))
      else (HAMMER2_ERROR_EAGAIN, iter\<lparr> fi_bnext := bnext \<rparr>))"

text \<open>The leaf for \<open>key\<close>: created when missing, refused when it is in error or its \<open>bigmask\<close> says
  that it has no room, modified otherwise.\<close>

definition freemap_leaf_get ::
    "hammer2_dev \<Rightarrow> nat \<Rightarrow> hammer2_key_t \<Rightarrow> freemap_env \<Rightarrow> (h2error \<times> freemap_leaf) option" where
  "freemap_leaf_get hmp radix key env =
     (case hmp_fleaves hmp key of
        None \<Rightarrow> do { KKASSERT (fe_create env = 0); leaf_create hmp key (fe_modify env) }
      | Some chain \<Rightarrow>
          Some (if fl_error chain \<noteq> 0 then (HAMMER2_ERROR_EIO, chain)
                else if fl_bigmask chain AND push_bit radix 1 = 0 then (HAMMER2_ERROR_ENOSPC, chain)
                else (fe_modify env, leaf_modify (fe_modify env) chain)))"

text \<open>The scan of a leaf that was had, with the second modify before it and the \<open>bigmask\<close> update
  after it.\<close>

definition freemap_leaf_scan ::
    "hammer2_dev \<Rightarrow> freemap_leaf \<Rightarrow> u16 \<Rightarrow> int \<Rightarrow> nat \<Rightarrow> hammer2_fiterate \<Rightarrow> hammer2_key_t \<Rightarrow> freemap_env \<Rightarrow>
     (h2error \<times> hammer2_dev \<times> freemap_leaf \<times> hammer2_key_t) option" where
  "freemap_leaf_scan hmp chain class sub_key radix iter key env = do {
     let start = unat (drop_bit HAMMER2_FREEMAP_LEVEL0_RADIX (fi_bnext iter - key));
     KKASSERT (start < HAMMER2_FREEMAP_COUNT);
     let chain = leaf_modify (fe_modify2 env) chain;
     if fe_modify2 env \<noteq> 0 then Some (fe_modify2 env, hmp, chain, key)
     else do {
       (error, hmp, chain, key) \<leftarrow> (case fl_bmdata chain of
          None \<Rightarrow> Some (HAMMER2_ERROR_ENOSPC, hmp, chain, key)
        | Some bmdata \<Rightarrow> do {
            (error, hmp, bmdata, key) \<leftarrow> freemap_scan hmp bmdata class sub_key radix (fi_relaxed iter) key
              (fe_newnz env) (int start) (map int [0..<HAMMER2_FREEMAP_COUNT]);
            Some (error, hmp, chain\<lparr> fl_bmdata := Some bmdata \<rparr>, key) });
       Some (error, hmp,
         if error = HAMMER2_ERROR_ENOSPC \<and> start = 0 \<and> fi_relaxed iter
         then chain\<lparr> fl_bigmask := fl_bigmask chain AND NOT (push_bit radix 1) \<rparr> else chain, key) } }"

text \<open>The block handed out: the assertions, the block reference and the dedup registration.\<close>

definition freemap_assign ::
    "hammer2_dev \<Rightarrow> hammer2_blockref \<Rightarrow> nat \<Rightarrow> hammer2_key_t \<Rightarrow> (hammer2_dev \<times> hammer2_blockref) option" where
  "freemap_assign hmp bref radix key = do {
     KKASSERT (key \<ge> vd_allocator_beg (hmp_voldata hmp) \<and> key + push_bit radix 1 \<le> hmp_total_size hmp);
     KKASSERT (key AND HAMMER2_ZONE_MASK \<ge> HAMMER2_ZONE_SEG);
     let bref = bref\<lparr> br_data_off := key OR of_nat radix \<rparr>;
     hmp \<leftarrow> (if br_type bref = HAMMER2_BREF_TYPE_DATA then hammer2_io_dedup_set hmp bref else Some hmp);
     Some (hmp, bref) }"

definition hammer2_freemap_try_alloc ::
    "hammer2_dev \<Rightarrow> hammer2_blockref \<Rightarrow> nat \<Rightarrow> hammer2_fiterate \<Rightarrow> freemap_env \<Rightarrow>
     (h2error \<times> hammer2_dev \<times> hammer2_blockref \<times> hammer2_fiterate) option" where
  "hammer2_freemap_try_alloc hmp bref radix iter env = do {
     let class = freemap_class (br_type bref);
     let key = H2FMBASE (fi_bnext iter) HAMMER2_FREEMAP_LEVEL1_RADIX;
     (error, chain) \<leftarrow> freemap_leaf_get hmp radix key env;
     (error, hmp, chain, key') \<leftarrow>
       (if error = 0
        then freemap_leaf_scan hmp chain class (sint (ucast (br_key bref) :: u32)) radix iter key env
        else Some (error, hmp, chain, key));
     let hmp = hmp\<lparr> hmp_fleaves := (hmp_fleaves hmp)(key \<mapsto> chain) \<rparr>;
     if error = 0
     then do { (hmp, bref) \<leftarrow> freemap_assign hmp bref radix key'; Some (0, hmp, bref, iter) }
     else if error = HAMMER2_ERROR_ENOSPC
     then (let (error, iter) = hammer2_freemap_iterate hmp iter in Some (error, hmp, bref, iter))
     else Some (error, hmp, bref, iter) }"

section \<open>Allocation\<close>

text \<open>\<open>while (error == HAMMER2_ERROR_EAGAIN)\<close>; \<open>env n\<close> is what the rest of the kernel answers to the
  \<open>n\<close>th attempt.\<close>

partial_function (option) freemap_alloc_loop ::
    "hammer2_dev \<Rightarrow> hammer2_blockref \<Rightarrow> nat \<Rightarrow> hammer2_fiterate \<Rightarrow> (nat \<Rightarrow> freemap_env) \<Rightarrow> nat \<Rightarrow>
     (h2error \<times> hammer2_dev \<times> hammer2_blockref \<times> hammer2_fiterate) option" where
  "freemap_alloc_loop hmp bref radix iter env n = do {
     (error, hmp, bref, iter) \<leftarrow> hammer2_freemap_try_alloc hmp bref radix iter (env n);
     if error = HAMMER2_ERROR_EAGAIN then freemap_alloc_loop hmp bref radix iter env (Suc n)
     else Some (error, hmp, bref, iter) }"

definition freemap_hindex :: "u8 \<Rightarrow> nat" where
  "freemap_hindex btype =
     ((HAMMER2_PBUFRADIX - HAMMER2_LBUFRADIX) + unat btype * HAMMER2_FREEMAP_HEUR_NRADIX) AND
     (HAMMER2_FREEMAP_HEUR_TYPES * HAMMER2_FREEMAP_HEUR_NRADIX - 1)"

definition freemap_iter_start :: "hammer2_dev \<Rightarrow> nat \<Rightarrow> hammer2_fiterate" where
  "freemap_iter_start hmp hindex =
     (let bpref = hmp_heur_freemap hmp ! hindex;
          bpref = (if bpref > hmp_total_size hmp then hmp_total_size hmp - 1 else bpref)
      in \<lparr> fi_bpref = bpref, fi_bnext = bpref, fi_loops = 0, fi_relaxed = hmp_freemap_relaxed hmp \<rparr>)"

definition freemap_count_bytes :: "hammer2_blockref \<Rightarrow> nat \<Rightarrow> hammer2_dev \<Rightarrow> hammer2_dev" where
  "freemap_count_bytes bref bytes hmp =
     (if br_type bref = HAMMER2_BREF_TYPE_DATA
      then hmp\<lparr> alloc_data_bytes := alloc_data_bytes hmp + of_nat bytes \<rparr>
      else hmp\<lparr> alloc_meta_bytes := alloc_meta_bytes hmp + of_nat bytes \<rparr>)"

definition hammer2_freemap_alloc ::
    "hammer2_dev \<Rightarrow> hammer2_blockref \<Rightarrow> nat \<Rightarrow> (nat \<Rightarrow> freemap_env) \<Rightarrow>
     (h2error \<times> hammer2_dev \<times> hammer2_blockref) option" where
  "hammer2_freemap_alloc hmp bref bytes env =
     (if bytes = 0 then Some (0, hmp, bref\<lparr> br_data_off := 0 \<rparr>)
      else do {
        KKASSERT (hmp_spmp hmp);
        let radix = hammer2_getradix bytes;
        KKASSERT (2 ^ radix = bytes);
        if br_type bref = HAMMER2_BREF_TYPE_FREEMAP_NODE \<or> br_type bref = HAMMER2_BREF_TYPE_FREEMAP_LEAF
        then hammer2_freemap_reserve hmp bref radix
        else do {
          KKASSERT (bytes \<ge> HAMMER2_ALLOC_MIN \<and> bytes \<le> HAMMER2_ALLOC_MAX);
          let hindex = freemap_hindex (br_type bref);
          KKASSERT (hindex < HAMMER2_FREEMAP_HEUR_SIZE);
          (error, hmp, bref, iter) \<leftarrow> freemap_alloc_loop hmp bref radix (freemap_iter_start hmp hindex) env 0;
          let hmp = (if error = 0 then freemap_count_bytes bref bytes hmp else hmp);
          Some (error, hmp\<lparr> hmp_freemap_relaxed := hmp_freemap_relaxed hmp \<or> fi_relaxed iter,
                  hmp_heur_freemap := (hmp_heur_freemap hmp)[hindex := fi_bnext iter] \<rparr>, bref) } })"

section \<open>Recovery\<close>

text \<open>The marking loop.  The first pair that is not fully allocated makes the leaf modified, which
  may fail (\<open>Inl\<close>), and resets the linear iterator.\<close>

fun adjust_loop ::
    "h2error \<Rightarrow> u16 \<Rightarrow> nat \<Rightarrow> nat \<Rightarrow> hammer2_bitmap_t \<Rightarrow> bool \<Rightarrow> hammer2_bmap_data \<Rightarrow> nat \<Rightarrow>
     (h2error + bool \<times> hammer2_bmap_data \<times> nat) option" where
  "adjust_loop error class i 0 bmmask11 modified bmap bgsize = Some (Inr (modified, bmap, bgsize))"
| "adjust_loop error class i (Suc count) bmmask11 modified bmap bgsize = do {
     KKASSERT (bmmask11 \<noteq> 0);
     if bm_bitmapq bmap ! i AND bmmask11 \<noteq> bmmask11
     then (if \<not> modified \<and> error \<noteq> 0 then Some (Inl error)
           else let bmap = (if modified then bmap else bmap\<lparr> bm_linear := 0 \<rparr>);
                    q = bm_bitmapq bmap ! i;
                    (bmap, bgsize) = (if q AND bmmask11 = 0
                      then (bmap\<lparr> bm_avail := bm_avail bmap - HAMMER2_FREEMAP_BLOCK_SIZE \<rparr>,
                            bgsize + HAMMER2_FREEMAP_BLOCK_SIZE)
                      else (bmap, bgsize));
                    bmap = (if bm_class bmap = 0 then bmap\<lparr> bm_class := class \<rparr> else bmap);
                    bmap = bmap\<lparr> bm_bitmapq := (bm_bitmapq bmap)[i := q OR bmmask11] \<rparr>
                in adjust_loop error class i count (push_bit 2 bmmask11) True bmap bgsize)
     else adjust_loop error class i count (push_bit 2 bmmask11) modified bmap bgsize }"

text \<open>The entry, the element and the first pair the code addresses for \<open>data_off\<close>.\<close>

definition adjust_entry :: "hammer2_off_t \<Rightarrow> nat" where
  "adjust_entry data_off = unat (drop_bit HAMMER2_SEGRADIX data_off AND (HAMMER2_FREEMAP_COUNT - 1))"

definition adjust_element :: "hammer2_off_t \<Rightarrow> nat" where
  "adjust_element data_off = unat (drop_bit (HAMMER2_SEGRADIX - 3) data_off AND 7)"

definition adjust_start :: "hammer2_off_t \<Rightarrow> nat" where
  "adjust_start data_off = unat (drop_bit HAMMER2_FREEMAP_BLOCK_RADIX data_off AND 15) * 2"

definition adjust_leaf_get :: "hammer2_dev \<Rightarrow> hammer2_key_t \<Rightarrow> freemap_env \<Rightarrow> (h2error \<times> freemap_leaf option) option" where
  "adjust_leaf_get hmp key env =
     (case hmp_fleaves hmp key of
        Some chain \<Rightarrow> Some (fl_error chain, Some chain)
      | None \<Rightarrow> if fe_create env \<noteq> 0 then Some (fe_create env, None)
                else do { (error, chain) \<leftarrow> leaf_create hmp key (fe_modify env); Some (error, Some chain) })"

definition adjust_mark ::
    "hammer2_off_t \<Rightarrow> nat \<Rightarrow> u16 \<Rightarrow> h2error \<Rightarrow> freemap_leaf \<Rightarrow> (bool \<times> freemap_leaf \<times> nat) option" where
  "adjust_mark data_off radix class error chain = do {
     let count = (if radix < HAMMER2_FREEMAP_BLOCK_RADIX then 1 else 2 ^ (radix - HAMMER2_FREEMAP_BLOCK_RADIX));
     bmdata \<leftarrow> fl_bmdata chain;
     let n = adjust_entry data_off;
     res \<leftarrow> adjust_loop error class (adjust_element data_off) count (push_bit (adjust_start data_off) 3)
       False (bmdata ! n) 0;
     (case res of
        Inl error \<Rightarrow> Some (False, leaf_modify error chain, 0)
      | Inr (modified, bmap, bgsize) \<Rightarrow>
          Some (modified, (if modified then leaf_modify 0 (chain\<lparr> fl_bmdata := Some (bmdata[n := bmap]), fl_bigmask := -1 \<rparr>)
                           else chain), bgsize)) }"

definition hammer2_freemap_adjust ::
    "hammer2_dev \<Rightarrow> hammer2_blockref \<Rightarrow> nat \<Rightarrow> freemap_env \<Rightarrow> hammer2_dev option" where
  "hammer2_freemap_adjust hmp bref how env = do {
     KKASSERT (how = HAMMER2_FREEMAP_DORECOVER);
     KKASSERT (hmp_spmp hmp);
     let radix = unat (br_data_off bref AND HAMMER2_OFF_MASK_RADIX);
     KKASSERT (radix \<noteq> 0);
     KKASSERT (radix \<le> HAMMER2_RADIX_MAX);
     let data_off = br_data_off bref AND NOT HAMMER2_OFF_MASK_RADIX;
     let class = freemap_class (br_type bref);
     if data_off < vd_allocator_beg (hmp_voldata hmp) then Some hmp
     else do {
       KKASSERT (data_off AND HAMMER2_ZONE_MASK \<ge> HAMMER2_ZONE_SEG);
       let key = H2FMBASE data_off HAMMER2_FREEMAP_LEVEL1_RADIX;
       (error, chain) \<leftarrow> adjust_leaf_get hmp key env;
       (case chain of
          None \<Rightarrow> Some hmp
        | Some chain \<Rightarrow>
            if error \<noteq> 0 then Some (hmp\<lparr> hmp_fleaves := (hmp_fleaves hmp)(key \<mapsto> chain) \<rparr>)
            else do {
              (modified, chain, bgsize) \<leftarrow> adjust_mark data_off radix class (fe_modify2 env) chain;
              let hmp = hmp\<lparr> hmp_fleaves := (hmp_fleaves hmp)(key \<mapsto> chain) \<rparr>;
              let hmp = (if modified then hmp\<lparr> hmp_freemap_relaxed := False \<rparr> else hmp);
              Some (hmp_allocator_free_sub bgsize hmp) }) } }"

section \<open>The invariant of the freemap\<close>

text \<open>A 4MB segment blocks may be handed out from: on the volumes, past the static allocations,
  inside the filesystem and outside the reserved area of its zone.\<close>

definition seg_usable :: "hammer2_dev \<Rightarrow> hammer2_key_t \<Rightarrow> bool" where
  "seg_usable hmp base \<longleftrightarrow> seg_backed hmp base \<and> vd_allocator_beg (hmp_voldata hmp) \<le> base \<and>
     unat base + HAMMER2_SEGSIZE \<le> unat (hmp_total_size hmp) \<and> unat base mod 2147483648 \<ge> HAMMER2_ZONE_SEG"

definition seg_base :: "hammer2_key_t \<Rightarrow> nat \<Rightarrow> hammer2_key_t" where
  "seg_base key n = key + of_nat (n * HAMMER2_SEGSIZE)"

definition entry_ok :: "hammer2_dev \<Rightarrow> hammer2_key_t \<Rightarrow> nat \<Rightarrow> hammer2_bmap_data \<Rightarrow> bool" where
  "entry_ok hmp key n b \<longleftrightarrow> bmap_ok b \<and>
     ((\<exists>x < HAMMER2_SEGSIZE. byte_free b x) \<longrightarrow> seg_usable hmp (seg_base key n))"

definition bmdata_ok :: "hammer2_dev \<Rightarrow> hammer2_key_t \<Rightarrow> hammer2_bmap_data list \<Rightarrow> bool" where
  "bmdata_ok hmp key bm \<longleftrightarrow> length bm = 256 \<and> (\<forall>n < 256. entry_ok hmp key n (bm ! n))"

text \<open>The \<open>bigmask\<close> hint never hides room: a radix whose bit is clear has none.\<close>

definition bigmask_ok :: "u32 \<Rightarrow> hammer2_bmap_data list \<Rightarrow> bool" where
  "bigmask_ok m bm \<longleftrightarrow> (\<forall>r. r < 32 \<and> \<not> bit m r \<longrightarrow> (\<forall>n < 256. \<not> bmap_can_alloc (bm ! n) r))"

definition leaf_ok :: "hammer2_dev \<Rightarrow> hammer2_key_t \<Rightarrow> freemap_leaf \<Rightarrow> bool" where
  "leaf_ok hmp key leaf \<longleftrightarrow> fl_error leaf = 0 \<longrightarrow>
     (\<exists>bm. fl_bmdata leaf = Some bm \<and> bmdata_ok hmp key bm \<and> bigmask_ok (fl_bigmask leaf) bm)"

text \<open>The volumes hold every segment of the filesystem, and its size leaves room for the address
  arithmetic.\<close>

definition dev_geometry :: "hammer2_dev \<Rightarrow> bool" where
  "dev_geometry hmp \<longleftrightarrow> 0 < unat (hmp_total_size hmp) \<and> unat (hmp_total_size hmp) < 2 ^ 63 \<and>
     unat (vd_allocator_beg (hmp_voldata hmp)) < 2 ^ 63 \<and>
     (\<forall>base. base \<noteq> 0 \<and> base AND HAMMER2_SEGMASK = 0 \<and>
        unat base + HAMMER2_SEGSIZE \<le> unat (hmp_total_size hmp) \<longrightarrow> seg_backed hmp base)"

definition freemap_ok :: "hammer2_dev \<Rightarrow> bool" where
  "freemap_ok hmp \<longleftrightarrow> io_inv hmp \<and> io_room hmp \<and> dev_geometry hmp \<and> length (hmp_heur_freemap hmp) = 32 \<and>
     hmp_spmp hmp \<and> (\<forall>key leaf. hmp_fleaves hmp key = Some leaf \<longrightarrow> leaf_ok hmp key leaf)"

subsection \<open>What an allocation leaves of the device\<close>

lemma iodev_more_dev:
  assumes "hammer2_iodev.more (a :: hammer2_dev) = hammer2_iodev.more b"
  shows "hmp_spmp a = hmp_spmp b" "hmp_total_size a = hmp_total_size b" "hmp_voldata a = hmp_voldata b"
    "hmp_freemap_relaxed a = hmp_freemap_relaxed b" "hmp_heur_freemap a = hmp_heur_freemap b"
    "hmp_fleaves a = hmp_fleaves b"
  using assms by (cases a; cases b; simp)+

text \<open>The fields of the device the freemap's invariant is about.\<close>

definition dev_static :: "hammer2_dev \<Rightarrow> hammer2_dev \<Rightarrow> bool" where
  "dev_static hmp hmp' \<longleftrightarrow> hmp_volumes hmp' = hmp_volumes hmp \<and> hmp_total_size hmp' = hmp_total_size hmp \<and>
     vd_allocator_beg (hmp_voldata hmp') = vd_allocator_beg (hmp_voldata hmp) \<and>
     hmp_heur_freemap hmp' = hmp_heur_freemap hmp \<and> hmp_spmp hmp' = hmp_spmp hmp \<and>
     hmp_freemap_relaxed hmp' = hmp_freemap_relaxed hmp"

lemma dev_static_refl [simp]: "dev_static hmp hmp"
  by (simp add: dev_static_def)

lemma dev_static_trans: "dev_static a b \<Longrightarrow> dev_static b c \<Longrightarrow> dev_static a c"
  by (simp add: dev_static_def)

lemma seg_backed_static: "dev_static hmp hmp' \<Longrightarrow> seg_backed hmp' base = seg_backed hmp base"
  by (simp add: dev_static_def seg_backed_def)

lemma dev_static_ok:
  assumes "dev_static hmp hmp'"
  shows "seg_usable hmp' base = seg_usable hmp base" "entry_ok hmp' key n b = entry_ok hmp key n b"
    "bmdata_ok hmp' key bm = bmdata_ok hmp key bm" "leaf_ok hmp' key leaf = leaf_ok hmp key leaf"
    "dev_geometry hmp' = dev_geometry hmp"
proof -
  note s = seg_backed_static [OF assms]
  have f: "hmp_total_size hmp' = hmp_total_size hmp" "vd_allocator_beg (hmp_voldata hmp') = vd_allocator_beg (hmp_voldata hmp)"
    using assms by (simp_all add: dev_static_def)
  show "seg_usable hmp' base = seg_usable hmp base" for base by (simp add: seg_usable_def s f)
  then show "entry_ok hmp' key n b = entry_ok hmp key n b" for n b by (simp add: entry_ok_def)
  then show "bmdata_ok hmp' key bm = bmdata_ok hmp key bm" for bm by (simp add: bmdata_ok_def)
  then show "leaf_ok hmp' key leaf = leaf_ok hmp key leaf" by (simp add: leaf_ok_def)
  show "dev_geometry hmp' = dev_geometry hmp" by (simp add: dev_geometry_def s f)
qed

lemma io_effect_static:
  assumes "io_effect f hmp (hmp' :: hammer2_dev)"
  shows "dev_static hmp hmp'" "hmp_fleaves hmp' = hmp_fleaves hmp"
  using assms iodev_more_dev [of hmp' hmp] by (auto simp: io_effect_def io_frame_def dev_static_def)

lemma dev_alloc_step_inv:
  assumes "dev_alloc_step bg hmp hmp'" "io_inv hmp" "io_room hmp"
  shows "io_inv hmp'" "io_room hmp'" "dev_static hmp hmp'" "hmp_fleaves hmp' = hmp_fleaves hmp"
proof -
  obtain hmp1 where h: "io_effect (\<lambda>_. id) hmp hmp1" "hmp' = hmp_allocator_free_sub bg hmp1"
    using assms(1) by (auto simp: dev_alloc_step_def)
  have "io_inv hmp1" "io_room hmp1" using h(1) io_effect_room [OF h(1) assms(2,3)] by (simp_all add: io_effect_def)
  then show "io_inv hmp'" "io_room hmp'"
    by (simp_all add: h(2) hmp_allocator_free_sub_def io_inv_def io_room_def)
  have "dev_static hmp1 hmp'" "hmp_fleaves hmp' = hmp_fleaves hmp1"
    by (simp_all add: h(2) hmp_allocator_free_sub_def dev_static_def)
  with io_effect_static [OF h(1)] show "dev_static hmp hmp'" "hmp_fleaves hmp' = hmp_fleaves hmp"
    by (auto intro: dev_static_trans)
qed

subsection \<open>One entry\<close>

lemma availchk_byte_free:
  assumes "bmap_ok b" "freemap_availchk radix b"
  shows "\<exists>x < HAMMER2_SEGSIZE. byte_free b x"
proof (cases "bm_avail b = 0")
  case False
  then have "unat (bm_avail b) \<noteq> 0" by (simp add: unat_eq_zero)
  then have "free_chunks b \<noteq> {}" using assms(1) by (auto simp: bmap_ok_def)
  then obtain c where c: "c < 256" "chunk_free b c" by (auto simp: free_chunks_def)
  then have "byte_free b (16384 * c)" "16384 * c < 4194304" by (simp_all add: byte_free_def)
  then show ?thesis by blast
next
  case True
  then have n: "bm_linear b mod 16384 \<noteq> 0" using assms(2) by (simp add: freemap_availchk_def int_and_16383)
  obtain c l where L: "bm_linear b = int (16384 * c + l)" "l < 16384" "l \<noteq> 0 \<Longrightarrow> c < 256 \<and> \<not> chunk_free b c"
    using bmap_ok_linear [OF assms(1)] by metis
  have "l \<noteq> 0" using n L(1) by (cases l) simp_all
  then have "byte_free b (16384 * c + l)" "16384 * c + l < 4194304"
    using L by (simp_all add: byte_free_at [OF L(1,2)])
  then show ?thesis by blast
qed

lemma can_alloc_availchk:
  assumes "bmap_ok b" "bmap_can_alloc b radix"
  shows "freemap_availchk radix b"
proof (cases "linear_usable b radix")
  case True
  then have "bm_linear b mod 16384 \<noteq> 0" "bm_linear b mod 16384 + 2 ^ radix \<le> 16384" by (simp_all add: linear_usable_def)
  moreover have "0 \<le> bm_linear b mod 16384" by simp
  ultimately have "(2 :: int) ^ radix < 16384" by linarith
  then have "(2 :: int) ^ radix < 2 ^ 14" by simp
  then have "radix < 14" by (rule power_less_imp_less_exp [rotated]) simp
  with True show ?thesis by (simp add: freemap_availchk_def int_and_16383 linear_usable_def)
next
  case False
  then obtain c where "free_run b radix c" using assms(2) by (auto simp: bmap_can_alloc_def)
  moreover have "0 < radix_chunks radix" by (simp add: radix_chunks_def)
  ultimately have "chunk_free b c" "c < 256" by (force simp: free_run_def)+
  then have "c \<in> free_chunks b" by (simp add: free_chunks_def)
  then have "card (free_chunks b) \<noteq> 0" by auto
  then have "unat (bm_avail b) \<noteq> 0" using assms(1) by (simp add: bmap_ok_def)
  then show ?thesis by (auto simp: freemap_availchk_def)
qed

text \<open>The request: a radix, a block type and a key the freemap may be asked for.\<close>

definition request_ok :: "nat \<Rightarrow> u16 \<Rightarrow> int \<Rightarrow> bool" where
  "request_ok radix class sub_key \<longleftrightarrow> 10 \<le> radix \<and> radix \<le> 16 \<and> sub_key_aligned class radix sub_key \<and>
     btype_ok (class_btype class)"

text \<open>Entry \<open>n\<close> gave a block: \<open>hmp'\<close> and the entries \<open>bm'\<close> are what is left, \<open>key'\<close> is the block.\<close>

definition entry_gave ::
    "hammer2_dev \<Rightarrow> hammer2_bmap_data list \<Rightarrow> nat \<Rightarrow> hammer2_key_t \<Rightarrow> nat \<Rightarrow>
     hammer2_dev \<Rightarrow> hammer2_bmap_data list \<Rightarrow> hammer2_key_t \<Rightarrow> nat \<Rightarrow> bool" where
  "entry_gave hmp bm radix key n hmp' bm' key' off \<longleftrightarrow> n < 256 \<and> bmap_can_alloc (bm ! n) radix \<and>
     (\<exists>b' bg. bm' = bm[n := b'] \<and> key' = seg_base key n + of_nat off \<and> bmap_ok b' \<and>
       bmap_took (bm ! n) radix off b' \<and> block_placed radix off \<and>
       (\<forall>r. bmap_can_alloc b' r \<longrightarrow> bmap_can_alloc (bm ! n) r) \<and> dev_alloc_step bg hmp hmp')"

text \<open>The entry was passed over or had no room: nothing changed, and an entry the class lets
  through has no room.\<close>

definition entry_refused :: "hammer2_bmap_data list \<Rightarrow> nat \<Rightarrow> u16 \<Rightarrow> bool \<Rightarrow> int \<Rightarrow> bool" where
  "entry_refused bm radix class relaxed n \<longleftrightarrow> (0 \<le> n \<and> n < 256 \<longrightarrow>
     (bm_class (bm ! nat n) = 0 \<or> bm_class (bm ! nat n) = class \<or> relaxed) \<longrightarrow> \<not> bmap_can_alloc (bm ! nat n) radix)"

lemma took_byte_free: "bmap_took b radix off b' \<Longrightarrow> \<exists>x < HAMMER2_SEGSIZE. byte_free b x"
proof -
  assume a: "bmap_took b radix off b'"
  moreover have "off < off + 2 ^ radix" by simp
  ultimately have "byte_free b off" "off + 2 ^ radix \<le> 4194304" by (auto simp: bmap_took_def)
  moreover have "0 < (2 :: nat) ^ radix" by simp
  ultimately show ?thesis by (intro exI [of _ off]) linarith
qed

lemma try_entry_spec:
  assumes dev: "io_inv hmp" "io_room hmp" and bm: "bmdata_ok hmp key bm" and req: "request_ok radix class sub_key"
    and r: "res_ok r"
  shows "freemap_try_entry hmp bm class sub_key radix relaxed key r n = Some (HAMMER2_ERROR_ENOSPC, hmp, bm, key) \<and>
      entry_refused bm radix class relaxed n \<or>
    (\<exists>hmp' bm' key' off. freemap_try_entry hmp bm class sub_key radix relaxed key r n = Some (0, hmp', bm', key') \<and>
      0 \<le> n \<and> entry_gave hmp bm radix key (nat n) hmp' bm' key' off)"
proof (cases "0 \<le> n \<and> n < 256")
  case False
  then show ?thesis by (auto simp: freemap_try_entry_def entry_refused_def)
next
  case n: True
  define b where "b = bm ! nat n"
  have nn: "nat n < 256" using n by auto
  have eo: "entry_ok hmp key (nat n) b" using bm nn by (simp add: bmdata_ok_def b_def)
  then have ok: "bmap_ok b" by (simp add: entry_ok_def)
  show ?thesis
  proof (cases "freemap_availchk radix b \<and> (bm_class b = 0 \<or> bm_class b = class \<or> relaxed)")
    case False
    then have "entry_refused bm radix class relaxed n"
      using can_alloc_availchk [OF ok, of radix] by (auto simp: entry_refused_def b_def)
    moreover have "freemap_try_entry hmp bm class sub_key radix relaxed key r n = Some (HAMMER2_ERROR_ENOSPC, hmp, bm, key)"
      using False n by (auto simp: freemap_try_entry_def Let_def b_def [symmetric])
    ultimately show ?thesis by blast
  next
    case True
    have base: "key + word_of_int n * HAMMER2_FREEMAP_LEVEL0_SIZE = seg_base key (nat n)"
      using n by (simp add: seg_base_def of_nat_nat)
    have "seg_backed hmp (seg_base key (nat n))"
      using eo availchk_byte_free [OF ok] True by (auto simp: entry_ok_def seg_usable_def)
    with bmap_alloc_spec [OF ok _ _ _ dev this _ r] req
    have c: "if bmap_can_alloc b radix
      then bmap_alloc_done hmp b radix (seg_base key (nat n)) (hammer2_bmap_alloc hmp b class sub_key radix (seg_base key (nat n)) r)
      else hammer2_bmap_alloc hmp b class sub_key radix (seg_base key (nat n)) r = Some (HAMMER2_ERROR_ENOSPC, hmp, b, seg_base key (nat n))"
      by (simp add: request_ok_def)
    have e: "freemap_try_entry hmp bm class sub_key radix relaxed key r n =
        Option.bind (hammer2_bmap_alloc hmp b class sub_key radix (seg_base key (nat n)) r)
          (\<lambda>(error, hmp, bmap, base_key). Some (error, hmp, bm[nat n := bmap], if error \<noteq> HAMMER2_ERROR_ENOSPC then base_key else key))"
      using True n by (simp add: freemap_try_entry_def Let_def b_def [symmetric] base)
    show ?thesis
    proof (cases "bmap_can_alloc b radix")
      case False
      with c e have "freemap_try_entry hmp bm class sub_key radix relaxed key r n = Some (HAMMER2_ERROR_ENOSPC, hmp, bm, key)"
        by (simp add: b_def)
      with False show ?thesis by (simp add: entry_refused_def b_def)
    next
      case True
      with c obtain hmp' b' off bg where h: "hammer2_bmap_alloc hmp b class sub_key radix (seg_base key (nat n)) r =
          Some (0, hmp', b', seg_base key (nat n) + of_nat off)" "bmap_ok b'" "bmap_took b radix off b'"
          "block_placed radix off" "\<forall>r. bmap_can_alloc b' r \<longrightarrow> bmap_can_alloc b r" "dev_alloc_step bg hmp hmp'"
        by (auto simp: bmap_alloc_done_def)
      then have "entry_gave hmp bm radix key (nat n) hmp' (bm[nat n := b']) (seg_base key (nat n) + of_nat off) off"
        using nn True by (auto simp: entry_gave_def b_def)
      with e h(1) n show ?thesis by auto
    qed
  qed
qed

text \<open>The scan visits every entry before it gives up, whatever the start.\<close>

lemma scan_loop_spec:
  assumes dev: "io_inv hmp" "io_room hmp" and bm: "bmdata_ok hmp key bm" and req: "request_ok radix class sub_key"
    and r: "res_ok r"
  shows "sorted counts \<Longrightarrow>
    freemap_scan hmp bm class sub_key radix relaxed key r start counts = Some (HAMMER2_ERROR_ENOSPC, hmp, bm, key) \<and>
      (\<forall>c \<in> set counts. entry_refused bm radix class relaxed (start + c) \<and> entry_refused bm radix class relaxed (start - c)) \<or>
    (\<exists>hmp' bm' key' n off. freemap_scan hmp bm class sub_key radix relaxed key r start counts = Some (0, hmp', bm', key') \<and>
      entry_gave hmp bm radix key n hmp' bm' key' off)"
proof (induction counts)
  case (Cons c counts)
  note e = try_entry_spec [OF dev bm req r, of relaxed]
  show ?case
  proof (cases "start + c \<ge> 256 \<and> start - c < 0")
    case True
    then have "entry_refused bm radix class relaxed (start + d) \<and> entry_refused bm radix class relaxed (start - d)"
      if "d \<in> set (c # counts)" for d
      using that Cons.prems by (auto simp: entry_refused_def)
    then show ?thesis using True by auto
  next
    case False
    show ?thesis using e [of "start + c"]
    proof (elim disjE exE conjE)
      assume 1: "freemap_try_entry hmp bm class sub_key radix relaxed key r (start + c) = Some (HAMMER2_ERROR_ENOSPC, hmp, bm, key)"
        "entry_refused bm radix class relaxed (start + c)"
      show ?thesis using e [of "start - c"]
      proof (elim disjE exE conjE)
        assume 2: "freemap_try_entry hmp bm class sub_key radix relaxed key r (start - c) = Some (HAMMER2_ERROR_ENOSPC, hmp, bm, key)"
          "entry_refused bm radix class relaxed (start - c)"
        have "freemap_scan hmp bm class sub_key radix relaxed key r start (c # counts) =
            freemap_scan hmp bm class sub_key radix relaxed key r start counts"
          using False 1(1) 2(1) by (auto simp: not_le)
        with Cons.IH Cons.prems 1(2) 2(2) show ?thesis by auto
      next
        fix hmp' bm' key' off
        assume 2: "freemap_try_entry hmp bm class sub_key radix relaxed key r (start - c) = Some (0, hmp', bm', key')"
          "entry_gave hmp bm radix key (nat (start - c)) hmp' bm' key' off"
        have "freemap_scan hmp bm class sub_key radix relaxed key r start (c # counts) = Some (0, hmp', bm', key')"
          using False 1(1) 2(1) by (auto simp: not_le)
        with 2(2) show ?thesis by blast
      qed
    next
      fix hmp' bm' key' off
      assume 1: "freemap_try_entry hmp bm class sub_key radix relaxed key r (start + c) = Some (0, hmp', bm', key')"
        "entry_gave hmp bm radix key (nat (start + c)) hmp' bm' key' off"
      have "freemap_scan hmp bm class sub_key radix relaxed key r start (c # counts) = Some (0, hmp', bm', key')"
        using False 1(1) by (auto simp: not_le)
      with 1(2) show ?thesis by blast
    qed
  qed
qed simp

lemma scan_spec:
  assumes dev: "io_inv hmp" "io_room hmp" and bm: "bmdata_ok hmp key bm" and req: "request_ok radix class sub_key"
    and r: "res_ok r" and start: "start < 256"
  shows "freemap_scan hmp bm class sub_key radix relaxed key r (int start) (map int [0..<256]) =
        Some (HAMMER2_ERROR_ENOSPC, hmp, bm, key) \<and>
      (\<forall>n < 256. bm_class (bm ! n) = 0 \<or> bm_class (bm ! n) = class \<or> relaxed \<longrightarrow> \<not> bmap_can_alloc (bm ! n) radix) \<or>
    (\<exists>hmp' bm' key' n off. freemap_scan hmp bm class sub_key radix relaxed key r (int start) (map int [0..<256]) =
        Some (0, hmp', bm', key') \<and> entry_gave hmp bm radix key n hmp' bm' key' off)"
proof -
  define cs where "cs = map int [0..<256]"
  have s: "sorted cs" "set cs = int ` {0..<256}" unfolding cs_def by (simp_all add: sorted_map sorted_wrt_upt del: upt_rec_numeral)
  have "entry_refused bm radix class relaxed (int n)"
    if "n < 256" "\<forall>c \<in> set cs. entry_refused bm radix class relaxed (int start + c) \<and> entry_refused bm radix class relaxed (int start - c)"
    for n
  proof (cases "start \<le> n")
    case True
    then have "int (n - start) \<in> set cs" "int start + int (n - start) = int n"
      unfolding s(2) using that(1) by (auto intro!: imageI simp del: of_nat_diff)
    with that(2) show ?thesis by metis
  next
    case False
    then have "int (start - n) \<in> set cs" "int start - int (start - n) = int n"
      unfolding s(2) using start by (auto intro!: imageI simp del: of_nat_diff)
    with that(2) show ?thesis by metis
  qed
  then show ?thesis
    using scan_loop_spec [OF dev bm req r s(1), of relaxed "int start"]
    unfolding cs_def [symmetric] by (auto simp: entry_refused_def)
qed

subsection \<open>A new leaf\<close>

definition bmap_full :: hammer2_bmap_data where
  "bmap_full = \<lparr> bm_linear = HAMMER2_SEGSIZE, bm_class = 0, bm_avail = 0, bm_bitmapq = replicate 8 (-1) \<rparr>"

lemma init_loop_length [simp]: "length (fst (freemap_init_loop key lo hi av bms)) = length bms"
  by (induction bms arbitrary: key av) (simp_all add: Let_def case_prod_unfold)

lemma init_loop_nth:
  "n < length bms \<Longrightarrow> fst (freemap_init_loop key lo hi av bms) ! n =
     (if seg_base key n < lo \<or> hi \<le> seg_base key n
      then (bms ! n)\<lparr> bm_bitmapq := replicate 8 (-1), bm_avail := 0, bm_linear := HAMMER2_SEGSIZE \<rparr>
      else (bms ! n)\<lparr> bm_avail := HAMMER2_FREEMAP_LEVEL0_SIZE \<rparr>)"
proof (induction bms arbitrary: key av n)
  case (Cons b bms)
  show ?case
  proof (cases n)
    case 0
    then show ?thesis by (simp add: Let_def seg_base_def case_prod_unfold)
  next
    case (Suc m)
    have "seg_base (key + 4194304) m = seg_base key (Suc m)" by (simp add: seg_base_def algebra_simps)
    with Cons.IH [of m "key + 4194304"] Cons.prems Suc show ?thesis by (simp add: Let_def case_prod_unfold)
  qed
qed simp

text \<open>The leaf a missing one is created as.\<close>

definition leaf_fresh :: "hammer2_dev \<Rightarrow> hammer2_key_t \<Rightarrow> freemap_leaf" where
  "leaf_fresh hmp key = (let (bm, avail) = freemap_init_loop key
       (freemap_lokey (vd_allocator_beg (hmp_voldata hmp)) key) (freemap_hikey (hmp_total_size hmp) key)
       HAMMER2_FREEMAP_LEVEL1_SIZE (replicate HAMMER2_FREEMAP_COUNT bmap_zero)
     in \<lparr> fl_error = 0, fl_bigmask = -1, fl_avail = avail, fl_bmdata = Some bm \<rparr>)"

lemma leaf_create_fresh: "leaf_create hmp key 0 = Some (0, leaf_fresh hmp key)"
  by (simp add: leaf_create_def hammer2_freemap_init_def leaf_fresh_def leaf_modify_def leaf_created_def Let_def
      split: prod.split)

lemma leaf_fresh_data:
  obtains bm where "fl_bmdata (leaf_fresh hmp key) = Some bm" "length bm = 256"
    "\<And>n. n < 256 \<Longrightarrow> bm ! n =
      (if seg_base key n < freemap_lokey (vd_allocator_beg (hmp_voldata hmp)) key \<or>
          freemap_hikey (hmp_total_size hmp) key \<le> seg_base key n then bmap_full else bmap_fresh)"
proof -
  let ?L = "freemap_init_loop key (freemap_lokey (vd_allocator_beg (hmp_voldata hmp)) key)
    (freemap_hikey (hmp_total_size hmp) key) 1073741824 (replicate 256 bmap_zero)"
  have "fl_bmdata (leaf_fresh hmp key) = Some (fst ?L)" by (simp add: leaf_fresh_def split: prod.split)
  then show ?thesis
    by (rule that) (simp_all only: init_loop_length init_loop_nth length_replicate nth_replicate,
      simp add: bmap_full_def bmap_fresh_def bmap_zero_def)
qed

lemma leaf_fresh_flags [simp]: "fl_error (leaf_fresh hmp key) = 0" "fl_bigmask (leaf_fresh hmp key) = -1"
  by (simp_all add: leaf_fresh_def split: prod.split)

lemma bmap_full_none: "c < 256 \<Longrightarrow> \<not> chunk_free bmap_full c"
  by (simp add: chunk_free_def pair_free_def bmap_full_def less_mult_imp_div_less)

lemma bmap_full_ok: "bmap_ok bmap_full" "x < HAMMER2_SEGSIZE \<Longrightarrow> \<not> byte_free bmap_full x"
proof -
  have "free_chunks bmap_full = {}" by (simp add: free_chunks_def bmap_full_none)
  then show "bmap_ok bmap_full" by (intro bmap_okI [where n = 4194304]) (simp_all add: bmap_full_def)
  show "\<not> byte_free bmap_full x" if "x < 4194304"
    using bmap_full_none [of "x div 16384"] that
    by (simp add: byte_free_def less_mult_imp_div_less) (simp add: bmap_full_def)
qed

text \<open>Word bounds as numbers.\<close>

lemma unat_and_mask: "unat ((a :: 'a::len word) AND mask n) = unat a mod 2 ^ n"
  by (simp only: take_bit_eq_mask [symmetric] unsigned_take_bit_eq) (simp add: take_bit_eq_mod)

lemma unat_and_not_mask: "unat ((a :: 'a::len word) AND NOT (mask n)) = unat a div 2 ^ n * 2 ^ n"
proof -
  have "a AND NOT (mask n) = a - (a AND mask n)" using word_minus_mask [of a "mask n"] by (simp add: algebra_simps)
  moreover have "a AND mask n \<le> a" by (rule word_and_le2)
  ultimately have "unat (a AND NOT (mask n)) = unat a - unat (a AND mask n)" by (simp add: unat_sub)
  then show ?thesis by (simp add: unat_and_mask minus_mod_eq_div_mult)
qed

lemma mask_22: "(HAMMER2_SEGMASK :: u64) = mask 22" and mask_30: "(HAMMER2_FREEMAP_LEVEL1_MASK :: u64) = mask 30"
  by (simp_all add: mask_eq_exp_minus_1)

lemma aligned_base:
  assumes "(key :: u64) AND HAMMER2_FREEMAP_LEVEL1_MASK = 0"
  shows "H2FMZONEBASE key = key" "H2FMBASE key 30 = key" "unat key mod 2 ^ 30 = 0"
proof -
  show m: "unat key mod 2 ^ 30 = 0" using assms unat_and_mask [of key 30] unfolding mask_30 by simp
  then have "unat (key AND NOT (mask 30)) = unat key"
    unfolding unat_and_not_mask using div_mult_mod_eq [of "unat key" "2 ^ 30"] by simp
  then have "key AND NOT (mask 30) = key" by (rule unsigned_word_eqI)
  then show "H2FMZONEBASE key = key" "H2FMBASE key 30 = key"
    unfolding H2FMZONEBASE_def H2FMBASE_def mask_30 by simp_all
qed

lemma round_up: "0 < m \<Longrightarrow> b \<le> (b + (m - 1)) div m * (m :: nat)"
  using div_mult_mod_eq [of "b + (m - 1)" m] mod_less_divisor [of m "b + (m - 1)"] by linarith

lemma lokey_bounds:
  assumes beg: "unat beg < 2 ^ 63" and key: "key AND HAMMER2_FREEMAP_LEVEL1_MASK = 0"
  shows "beg \<le> freemap_lokey beg key" "key + HAMMER2_ZONE_SEG \<le> freemap_lokey beg key"
proof -
  let ?l = "(beg + HAMMER2_SEGMASK) AND NOT HAMMER2_SEGMASK"
  have "unat (beg + 4194303) = unat beg + 4194303" using beg by (simp add: unat_word_ariths)
  then have "unat ?l = (unat beg + 4194303) div 4194304 * 4194304" unfolding mask_22 unat_and_not_mask by simp
  then have "unat beg \<le> unat ?l" using round_up [of 4194304 "unat beg"] by simp
  then have "beg \<le> ?l" by (simp add: word_le_nat_alt)
  moreover have "?l \<le> freemap_lokey beg key" "key + HAMMER2_ZONE_SEG \<le> freemap_lokey beg key"
    unfolding freemap_lokey_def Let_def aligned_base [OF key] by auto
  ultimately show "beg \<le> freemap_lokey beg key" "key + HAMMER2_ZONE_SEG \<le> freemap_lokey beg key" by auto
qed

lemma unat_seg_base:
  assumes "unat key < 2 ^ 63" "n < 256"
  shows "unat (seg_base key n) = unat key + n * 4194304"
proof -
  have "unat (of_nat (n * 4194304) :: u64) = n * 4194304" using assms(2) by (intro unat_of_nat_small) simp
  then show ?thesis using assms unfolding seg_base_def by (simp add: unat_word_ariths)
qed

lemma hikey_bound:
  assumes t63: "unat tot < 2 ^ 63" and key: "unat key < 2 ^ 63" "unat key mod 2 ^ 30 = 0" and n: "n < 256"
    and lt: "seg_base key n < freemap_hikey tot key"
  shows "unat (seg_base key n) + 4194304 \<le> unat tot"
proof -
  have u: "unat (seg_base key n) = unat key + n * 4194304" by (rule unat_seg_base [OF key(1) n])
  have k: "unat (key + 1073741824) = unat key + 1073741824" using key(1) by (simp add: unat_word_ariths)
  show ?thesis
  proof (cases "key + 1073741824 > tot")
    case True
    obtain q where q: "unat key = 2 ^ 30 * q" using key(2) by auto
    have e: "unat (seg_base key n) = (256 * q + n) * 4194304" by (simp add: u q)
    have "unat (seg_base key n) < unat tot div 4194304 * 4194304"
      using lt True unfolding freemap_hikey_def mask_22 word_less_nat_alt by (simp add: unat_and_not_mask)
    then have "256 * q + n < unat tot div 4194304" unfolding e by simp
    then have "256 * q + n + 1 \<le> unat tot div 4194304" by simp
    then have "(256 * q + n + 1) * 4194304 \<le> unat tot div 4194304 * 4194304" by (rule mult_right_mono) simp
    also have "\<dots> \<le> unat tot" by simp
    finally show ?thesis unfolding e by simp
  next
    case False
    then have "unat key + 1073741824 \<le> unat tot" using k by (simp add: word_less_nat_alt)
    then show ?thesis using u n by simp
  qed
qed

lemma fresh_usable:
  assumes geo: "dev_geometry hmp" and key: "key AND HAMMER2_FREEMAP_LEVEL1_MASK = 0" "unat key < 2 ^ 63" and n: "n < 256"
    and lo: "\<not> seg_base key n < freemap_lokey (vd_allocator_beg (hmp_voldata hmp)) key"
    and hi: "\<not> freemap_hikey (hmp_total_size hmp) key \<le> seg_base key n"
  shows "seg_usable hmp (seg_base key n)"
proof -
  let ?b = "seg_base key n"
  have g: "unat (hmp_total_size hmp) < 2 ^ 63" "unat (vd_allocator_beg (hmp_voldata hmp)) < 2 ^ 63"
    using geo by (simp_all add: dev_geometry_def)
  have u: "unat ?b = unat key + n * 4194304" by (rule unat_seg_base [OF key(2) n])
  have l: "vd_allocator_beg (hmp_voldata hmp) \<le> ?b" "key + 4194304 \<le> ?b"
    using lokey_bounds [OF g(2) key(1)] lo by auto
  have "unat (key + 4194304) = unat key + 4194304" using key(2) by (simp add: unat_word_ariths)
  then have n1: "1 \<le> n" using l(2) u by (auto simp: word_le_nat_alt)
  have fit: "unat ?b + 4194304 \<le> unat (hmp_total_size hmp)"
    using hikey_bound [OF g(1) key(2) aligned_base(3) [OF key(1)] n] hi by simp
  obtain q where q: "unat key = 2 ^ 30 * q" using aligned_base(3) [OF key(1)] by auto
  have e: "unat ?b = 4194304 * (256 * q + n)" by (simp add: u q)
  then have "unat ?b mod 2 ^ 22 = 0" by simp
  then have al: "?b AND HAMMER2_SEGMASK = 0" using unat_and_mask [of ?b 22] unfolding mask_22 by (simp add: unat_eq_zero)
  have "?b \<noteq> 0" using u n1 by auto
  then have "seg_backed hmp ?b" using geo al fit by (simp add: dev_geometry_def)
  moreover have "4194304 \<le> unat ?b mod 2147483648"
  proof -
    have "unat ?b mod 2 ^ 30 = n * 4194304" using n by (simp add: u q)
    moreover have "unat ?b mod 2147483648 mod 2 ^ 30 = unat ?b mod 2 ^ 30" by (simp add: mod_mod_cancel)
    moreover have "unat ?b mod 2147483648 mod 2 ^ 30 \<le> unat ?b mod 2147483648" by simp
    ultimately show ?thesis using n1 by linarith
  qed
  ultimately show ?thesis using l fit by (simp add: seg_usable_def)
qed

lemma leaf_fresh_ok:
  assumes "dev_geometry hmp" "key AND HAMMER2_FREEMAP_LEVEL1_MASK = 0" "unat key < 2 ^ 63"
  shows "leaf_ok hmp key (leaf_fresh hmp key)"
proof -
  obtain bm where bm: "fl_bmdata (leaf_fresh hmp key) = Some bm" "length bm = 256"
    "\<And>n. n < 256 \<Longrightarrow> bm ! n =
      (if seg_base key n < freemap_lokey (vd_allocator_beg (hmp_voldata hmp)) key \<or>
          freemap_hikey (hmp_total_size hmp) key \<le> seg_base key n then bmap_full else bmap_fresh)"
    by (rule leaf_fresh_data) blast
  have "entry_ok hmp key n (bm ! n)" if "n < 256" for n
    using fresh_usable [OF assms that] bm(3) [OF that] bmap_fresh_ok bmap_full_ok by (auto simp: entry_ok_def)
  moreover have "bigmask_ok (-1) bm" by (simp add: bigmask_ok_def)
  ultimately show ?thesis using bm(1,2) by (simp add: leaf_ok_def bmdata_ok_def)
qed

subsection \<open>One leaf\<close>

text \<open>The leaf for \<open>key\<close>, present or still to be created, and the bytes it can give.\<close>

definition leaf_view :: "hammer2_dev \<Rightarrow> hammer2_key_t \<Rightarrow> freemap_leaf" where
  "leaf_view hmp key = (case hmp_fleaves hmp key of None \<Rightarrow> leaf_fresh hmp key | Some leaf \<Rightarrow> leaf)"

definition leaf_avail :: "freemap_leaf \<Rightarrow> nat \<Rightarrow> nat \<Rightarrow> bool" where
  "leaf_avail leaf n x \<longleftrightarrow> fl_error leaf = 0 \<and> (\<exists>bm. fl_bmdata leaf = Some bm \<and> byte_free (bm ! n) x)"

definition leaf_le :: "freemap_leaf \<Rightarrow> freemap_leaf \<Rightarrow> bool" where
  "leaf_le new old \<longleftrightarrow> (\<forall>n < 256. \<forall>x < HAMMER2_SEGSIZE. leaf_avail new n x \<longrightarrow> leaf_avail old n x)"

definition leaf_room :: "freemap_leaf \<Rightarrow> nat \<Rightarrow> bool" where
  "leaf_room leaf radix \<longleftrightarrow> fl_error leaf = 0 \<and>
     (\<exists>bm. fl_bmdata leaf = Some bm \<and> (\<exists>n < 256. bmap_can_alloc (bm ! n) radix))"

lemma leaf_le_refl [simp]: "leaf_le leaf leaf"
  by (simp add: leaf_le_def)

lemma leaf_le_modify [simp]: "fl_error leaf = 0 \<Longrightarrow> leaf_le (leaf_modify e leaf) leaf"
  by (auto simp: leaf_le_def leaf_avail_def leaf_modify_def)

lemma leaf_modify_ok: "leaf_ok hmp key leaf \<Longrightarrow> fl_error leaf = 0 \<Longrightarrow> leaf_ok hmp key (leaf_modify e leaf)"
  by (simp add: leaf_ok_def leaf_modify_def)

lemma leaf_modify_0 [simp]: "fl_error leaf = 0 \<Longrightarrow> leaf_modify 0 leaf = leaf"
  by (simp add: leaf_modify_def)

lemma and_bit_eq_0: "r < LENGTH('a) \<Longrightarrow> (m :: 'a::len word) AND push_bit r 1 = 0 \<longleftrightarrow> \<not> bit m r"
  by (auto simp: bit_eq_iff [where 'a = "'a word"] bit_and_iff bit_exp_iff dest: bit_imp_le_length)

lemma leaf_view_ok:
  assumes "freemap_ok hmp" "key AND HAMMER2_FREEMAP_LEVEL1_MASK = 0" "unat key < 2 ^ 63"
  shows "leaf_ok hmp key (leaf_view hmp key)"
  using assms leaf_fresh_ok [of hmp key] by (auto simp: leaf_view_def freemap_ok_def split: option.splits)

lemma leaf_get_spec:
  assumes ok: "freemap_ok hmp" and key: "key AND HAMMER2_FREEMAP_LEVEL1_MASK = 0" "unat key < 2 ^ 63"
    and env: "fe_create env = 0" and r: "radix \<le> 16"
  obtains error leaf where "freemap_leaf_get hmp radix key env = Some (error, leaf)" "leaf_ok hmp key leaf"
    "leaf_le leaf (leaf_view hmp key)" "error = 0 \<Longrightarrow> fl_error leaf = 0 \<and> leaf = leaf_view hmp key"
    "error \<in> {0, HAMMER2_ERROR_EIO, HAMMER2_ERROR_ENOSPC, fe_modify env}"
    "error = HAMMER2_ERROR_ENOSPC \<Longrightarrow> fe_modify env = 0 \<Longrightarrow> \<not> leaf_room leaf radix"
    "error = HAMMER2_ERROR_EIO \<Longrightarrow> fe_modify env = 0 \<Longrightarrow> fl_error leaf \<noteq> 0"
    "fe_modify env = 0 \<Longrightarrow> leaf = leaf_view hmp key"
proof (cases "hmp_fleaves hmp key")
  case None
  then have v: "leaf_view hmp key = leaf_fresh hmp key" by (simp add: leaf_view_def)
  have fo: "leaf_ok hmp key (leaf_fresh hmp key)" using leaf_fresh_ok [OF _ key] ok by (simp add: freemap_ok_def)
  show ?thesis
  proof (cases "fe_modify env = 0")
    case True
    then have "freemap_leaf_get hmp radix key env = Some (0, leaf_fresh hmp key)"
      using None env leaf_create_fresh [of hmp key] by (simp add: freemap_leaf_get_def)
    then show ?thesis by (rule that) (simp_all add: v fo)
  next
    case False
    then have "freemap_leaf_get hmp radix key env = Some (fe_modify env, leaf_modify (fe_modify env) leaf_created)"
      using None env by (simp add: freemap_leaf_get_def leaf_create_def)
    then show ?thesis
      by (rule that) (use False in \<open>simp_all add: leaf_ok_def leaf_modify_def leaf_le_def leaf_avail_def\<close>)
  qed
next
  case (Some leaf)
  then have v: "leaf_view hmp key = leaf" and lo: "leaf_ok hmp key leaf"
    using ok by (simp_all add: leaf_view_def freemap_ok_def)
  have r32: "radix < LENGTH(32)" using r by simp
  show ?thesis
  proof (cases "fl_error leaf = 0")
    case False
    then have "freemap_leaf_get hmp radix key env = Some (HAMMER2_ERROR_EIO, leaf)"
      using Some by (simp add: freemap_leaf_get_def)
    then show ?thesis by (rule that) (use lo False in \<open>simp_all add: v\<close>)
  next
    case e: True
    show ?thesis
    proof (cases "bit (fl_bigmask leaf) radix")
      case False
      then have "freemap_leaf_get hmp radix key env = Some (HAMMER2_ERROR_ENOSPC, leaf)"
        using Some e and_bit_eq_0 [OF r32, of "fl_bigmask leaf"] by (simp add: freemap_leaf_get_def)
      moreover have "\<not> leaf_room leaf radix"
        using False lo e r by (auto simp: leaf_room_def leaf_ok_def bigmask_ok_def)
      ultimately show ?thesis by (intro that [of HAMMER2_ERROR_ENOSPC leaf]) (simp_all add: v lo)
    next
      case True
      then have g: "freemap_leaf_get hmp radix key env = Some (fe_modify env, leaf_modify (fe_modify env) leaf)"
        using Some e and_bit_eq_0 [OF r32, of "fl_bigmask leaf"] by (simp add: freemap_leaf_get_def)
      then show ?thesis
        by (rule that) (use e in \<open>auto simp: v leaf_modify_ok [OF lo]\<close>)
    qed
  qed
qed

lemma leaf_scan_spec:
  assumes dev: "io_inv hmp" "io_room hmp" and lo: "leaf_ok hmp key leaf" "fl_error leaf = 0"
    and req: "request_ok radix class sub_key" and r: "res_ok (fe_newnz env)"
    and start: "unat (drop_bit 22 (fi_bnext iter - key)) < 256"
  obtains
    (given) hmp' leaf' key' bm bm' n off where
      "freemap_leaf_scan hmp leaf class sub_key radix iter key env = Some (0, hmp', leaf', key')"
      "fl_bmdata leaf = Some bm" "leaf' = leaf\<lparr> fl_bmdata := Some bm' \<rparr>" "bmdata_ok hmp key bm"
      "bigmask_ok (fl_bigmask leaf) bm" "entry_gave hmp bm radix key n hmp' bm' key' off"
  | (failed) error leaf' where
      "freemap_leaf_scan hmp leaf class sub_key radix iter key env = Some (error, hmp, leaf', key)"
      "error \<noteq> 0" "error \<in> {HAMMER2_ERROR_ENOSPC, fe_modify2 env}" "leaf_ok hmp key leaf'" "leaf_le leaf' leaf"
      "fe_modify2 env = 0 \<Longrightarrow> fi_relaxed iter \<Longrightarrow> \<not> leaf_room leaf' radix"
      "fe_modify2 env = 0 \<Longrightarrow> fl_error leaf' = fl_error leaf \<and> fl_bmdata leaf' = fl_bmdata leaf"
proof (cases "fe_modify2 env = 0")
  case False
  have "freemap_leaf_scan hmp leaf class sub_key radix iter key env =
      Some (fe_modify2 env, hmp, leaf_modify (fe_modify2 env) leaf, key)"
    using False start by (simp add: freemap_leaf_scan_def Let_def)
  then show ?thesis by (rule failed) (use False lo leaf_modify_ok [OF lo] in simp_all)
next
  case m2: True
  obtain bm where bm: "fl_bmdata leaf = Some bm" "bmdata_ok hmp key bm" "bigmask_ok (fl_bigmask leaf) bm"
    using lo by (auto simp: leaf_ok_def)
  define s where "s = unat (drop_bit 22 (fi_bnext iter - key))"
  define leaf2 where "leaf2 = (if s = 0 \<and> fi_relaxed iter
    then leaf\<lparr> fl_bigmask := fl_bigmask leaf AND NOT (push_bit radix 1) \<rparr> else leaf)"
  note lm = leaf_modify_0 [OF lo(2)]
  show ?thesis using scan_spec [OF dev bm(2) req r start, of "fi_relaxed iter"]
  proof (elim disjE exE conjE)
    assume 1: "freemap_scan hmp bm class sub_key radix (fi_relaxed iter) key (fe_newnz env)
        (int (unat (drop_bit 22 (fi_bnext iter - key)))) (map int [0..<256]) = Some (HAMMER2_ERROR_ENOSPC, hmp, bm, key)"
      and none: "\<forall>n < 256. bm_class (bm ! n) = 0 \<or> bm_class (bm ! n) = class \<or> fi_relaxed iter \<longrightarrow> \<not> bmap_can_alloc (bm ! n) radix"
    have "leaf\<lparr> fl_bmdata := Some bm \<rparr> = leaf" using bm(1) by simp
    then have "freemap_leaf_scan hmp leaf class sub_key radix iter key env = Some (HAMMER2_ERROR_ENOSPC, hmp, leaf2, key)"
      using 1 start unfolding freemap_leaf_scan_def Let_def m2 lm bm(1) s_def [symmetric]
      by (simp add: leaf2_def del: upt_rec_numeral)
    moreover have "bigmask_ok (fl_bigmask leaf2) bm"
      using bm(3) none by (auto simp: bigmask_ok_def leaf2_def bit_and_iff bit_not_iff bit_exp_iff)
    moreover have "fl_error leaf2 = 0" "fl_bmdata leaf2 = Some bm" using lo(2) bm(1) by (simp_all add: leaf2_def)
    ultimately show ?thesis
      using bm none lo(2) by (intro failed [of HAMMER2_ERROR_ENOSPC leaf2]) (auto simp: leaf_ok_def leaf_le_def leaf_avail_def leaf_room_def)
  next
    fix hmp' bm' key' n off
    assume 1: "freemap_scan hmp bm class sub_key radix (fi_relaxed iter) key (fe_newnz env)
        (int (unat (drop_bit 22 (fi_bnext iter - key)))) (map int [0..<256]) = Some (0, hmp', bm', key')"
      and g: "entry_gave hmp bm radix key n hmp' bm' key' off"
    have "freemap_leaf_scan hmp leaf class sub_key radix iter key env = Some (0, hmp', leaf\<lparr> fl_bmdata := Some bm' \<rparr>, key')"
      using 1 start unfolding freemap_leaf_scan_def Let_def m2 lm bm(1) s_def [symmetric]
      by (simp del: upt_rec_numeral)
    then show ?thesis by (rule given [OF _ bm(1) refl bm(2,3) g])
  qed
qed

subsection \<open>The block\<close>

lemma or_radix:
  assumes "unat (key :: u64) mod 1024 = 0" "radix < 64"
  shows "(key OR of_nat radix) AND HAMMER2_OFF_MASK_RADIX = of_nat radix"
    "data_off_lbase (key OR of_nat radix) = key"
proof -
  have m: "(63 :: u64) = mask 6" "(1024 :: nat) = 2 ^ 10" by (simp_all add: mask_eq_exp_minus_1)
  have "key AND mask 10 = 0" using assms(1) unat_and_mask [of key 10] by (simp add: unat_eq_zero)
  then have z: "\<not> bit key k" if "k < 10" for k using that by (simp add: and_mask_eq_0)
  have r: "bit (of_nat radix :: u64) k \<Longrightarrow> k < 6" for k
  proof -
    have "take_bit 6 radix = radix" using assms(2) by (simp add: take_bit_nat_eq_self)
    then have "bit radix k \<Longrightarrow> k < 6" by (metis bit_take_bit_iff)
    then show "bit (of_nat radix :: u64) k \<Longrightarrow> k < 6" by (simp add: bit_of_nat_iff)
  qed
  show "(key OR of_nat radix) AND HAMMER2_OFF_MASK_RADIX = of_nat radix"
    unfolding m(1) by (rule bit_word_eqI) (use z r in \<open>auto simp: bit_and_iff bit_or_iff bit_mask_iff\<close>)
  show "data_off_lbase (key OR of_nat radix) = key"
    unfolding data_off_lbase_def m(1)
    by (rule bit_word_eqI) (use z r in \<open>auto simp: bit_and_iff bit_or_iff bit_mask_iff bit_not_iff\<close>)
qed

lemma lsize_radix:
  assumes "0 < radix" "radix \<le> 16" "x AND HAMMER2_OFF_MASK_RADIX = of_nat radix"
  shows "data_off_lsize x = 2 ^ radix"
proof -
  have "unat (of_nat radix :: u64) = radix" using assms(2) by (intro unat_of_nat_small) simp
  moreover have "scast (2 ^ radix :: 32 word) = (2 ^ radix :: u64)"
  proof -
    have p: "(2 :: nat) ^ radix \<le> 2 ^ 16" using assms(2) by (intro power_increasing) auto
    have u: "unat (of_nat (2 ^ radix) :: 32 word) = 2 ^ radix" using p by (intro unat_of_nat_small) simp
    with p have "sint (2 ^ radix :: 32 word) = 2 ^ radix" using sint_small [of "2 ^ radix :: 32 word"] by simp
    then show ?thesis by (simp add: scast_eq)
  qed
  ultimately show ?thesis using assms(1,3) by (simp add: data_off_lsize_def)
qed

lemma div_same_buffer: "off mod m + s \<le> m \<Longrightarrow> 0 < s \<Longrightarrow> (off + s - 1) div m = off div (m :: nat)"
proof -
  assume a: "off mod m + s \<le> m" "0 < s"
  have "off + s - 1 = m * (off div m) + (off mod m + s - 1)" using a(2) by simp
  moreover have "off mod m + s - 1 < m" using a by linarith
  ultimately show ?thesis by simp
qed

lemma block_backed:
  assumes seg: "seg_backed hmp base" and pl: "block_placed radix off" "off + 2 ^ radix \<le> 4194304"
    and r: "0 < radix" "radix \<le> 16"
  shows "data_off_backed ((base + of_nat off) OR of_nat radix) hmp" "unat (base + of_nat off) = unat base + off"
    "unat (base + of_nat off) mod 1024 = 0"
proof -
  let ?B = "base + of_nat off"
  define s :: nat where "s = 2 ^ radix"
  have s: "0 < s" "off + s \<le> 4194304" "off mod 65536 + s \<le> 65536" "off mod 1024 = 0"
    using pl by (simp_all add: s_def block_placed_def)
  have "unat base mod 2 ^ 22 = 0" using seg unat_and_mask [of base 22] unfolding seg_backed_def mask_22 by simp
  then obtain q where q: "unat base = 2 ^ 22 * q" by auto
  have "unat base < 2 ^ 64" using unsigned_less [of base] by simp
  then have "2 ^ 22 * q < 2 ^ 22 * 2 ^ 42" unfolding q by simp
  then have q42: "q < 2 ^ 42" by simp
  then have fit: "unat base + 4194304 \<le> 2 ^ 64" unfolding q by simp
  have uo: "unat (of_nat off :: u64) = off" using s by (intro unat_of_nat_small) simp
  show uB: "unat ?B = unat base + off" using fit s uo by (simp add: unat_word_ariths)
  have "unat ?B = 1024 * (4096 * q) + off" unfolding uB q by simp
  then have "unat ?B mod 1024 = off mod 1024" by (simp only: mod_mult_self4)
  with s(4) show m: "unat ?B mod 1024 = 0" by simp
  have r64: "radix < 64" using r by simp
  let ?x = "?B OR of_nat radix"
  note o = or_radix [OF m r64]
  define o' where "o' = off div 65536"
  have o64: "o' < 64" using s by (simp add: o'_def less_mult_imp_div_less)
  have pb: "data_off_pbase ?x = base + of_nat (65536 * o')"
  proof -
    have "unat ?B = (64 * q) * 65536 + off" unfolding uB q by simp
    then have "unat ?B div 65536 = 64 * q + o'" unfolding o'_def by (simp only: div_mult_self3)
    then have "unat (?B AND NOT (mask 16)) = unat base + 65536 * o'" unfolding unat_and_not_mask q by simp
    moreover have "unat (base + of_nat (65536 * o')) = unat base + 65536 * o'"
    proof -
      have "65536 * o' < 4194304" using o64 by simp
      moreover from this have "unat (of_nat (65536 * o') :: u64) = 65536 * o'" by (intro unat_of_nat_small) simp
      ultimately show ?thesis using fit by (simp add: unat_word_ariths)
    qed
    moreover have "(65535 :: u64) = mask 16" by (simp add: mask_eq_exp_minus_1)
    ultimately show ?thesis unfolding data_off_pbase_def o(2) by (metis unsigned_word_eqI)
  qed
  have "data_off_ok ?x"
  proof -
    have e: "?B + 2 ^ radix - 1 = ?B + of_nat (s - 1)" by (simp add: s_def of_nat_diff)
    have "unat (of_nat (s - 1) :: u64) = s - 1" using s by (intro unat_of_nat_small) simp
    then have u: "unat (?B + of_nat (s - 1)) = unat base + (off + s - 1)"
      using fit s uB by (simp add: unat_word_ariths)
    have "off div 65536 = (off + s - 1) div 65536" using div_same_buffer [OF s(3,1)] by simp
    moreover have "unat ?B = (64 * q) * 65536 + off" "unat (?B + of_nat (s - 1)) = (64 * q) * 65536 + (off + s - 1)"
      unfolding uB u q by simp_all
    ultimately have "unat ?B div 65536 = unat (?B + of_nat (s - 1)) div 65536" by (simp only: div_mult_self3)
    then have "unat (?B AND NOT (mask 16)) = unat ((?B + of_nat (s - 1)) AND NOT (mask 16))"
      unfolding unat_and_not_mask by simp
    then have "(?B + of_nat (s - 1)) AND NOT (mask 16) = ?B AND NOT (mask 16)" by (metis unsigned_word_eqI)
    moreover have "(65535 :: u64) = mask 16" by (simp add: mask_eq_exp_minus_1)
    moreover have "data_off_pbase ?x \<noteq> 0"
      unfolding pb using seg o64 seg_buffer(1) by (simp only: seg_backed_def) blast
    ultimately show ?thesis
      unfolding data_off_ok_def lsize_radix [OF r o(1)] data_off_pbase_def o(2) e by simp
  qed
  then show "data_off_backed ?x hmp"
    using seg o64 unfolding data_off_backed_def pb seg_backed_def by blast
qed

end
