(* ===== verification/Hammer2_Alloc.thy ===== *)
theory Hammer2_Alloc
  imports Hammer2_Freemap
begin

text \<open>
  The correctness of \<open>hammer2_freemap_alloc\<close> (\<open>hammer2_freemap.c\<close>), over the definitions and the leaf
  lemmas of \<open>Hammer2_Freemap\<close>.  The media is seen as the set of bytes the freemap could still hand
  out (\<open>media_avail\<close>); an allocation takes a block of free bytes and nothing else (\<open>block_taken\<close>).
  The loop is shown to end by the measure \<open>fi_measure\<close>, the leaves left before the iterator has gone
  round, and to miss no leaf.
\<close>

unbundle bit_operations_syntax

subsection \<open>The media\<close>

text \<open>Byte \<open>x\<close> of the media can be handed out.\<close>

definition leaf_key :: "nat \<Rightarrow> hammer2_key_t" where
  "leaf_key x = of_nat (x div 2 ^ 30 * 2 ^ 30)"

definition media_avail :: "hammer2_dev \<Rightarrow> nat \<Rightarrow> bool" where
  "media_avail hmp x \<longleftrightarrow> leaf_avail (leaf_view hmp (leaf_key x)) (x mod 2 ^ 30 div 4194304) (x mod 4194304)"

definition media_le :: "hammer2_dev \<Rightarrow> hammer2_dev \<Rightarrow> bool" where
  "media_le hmp' hmp \<longleftrightarrow> (\<forall>x. media_avail hmp' x \<longrightarrow> media_avail hmp x)"

lemma media_le_refl [simp]: "media_le hmp hmp"
  by (simp add: media_le_def)

lemma media_le_trans: "media_le a b \<Longrightarrow> media_le b c \<Longrightarrow> media_le a c"
  by (simp add: media_le_def)

text \<open>One leaf of the device replaced.\<close>

definition leaf_put :: "hammer2_key_t \<Rightarrow> freemap_leaf \<Rightarrow> hammer2_dev \<Rightarrow> hammer2_dev" where
  "leaf_put key leaf hmp = hmp\<lparr> hmp_fleaves := (hmp_fleaves hmp)(key \<mapsto> leaf) \<rparr>"

lemma leaf_put_fleaves [simp]: "hmp_fleaves (leaf_put key leaf hmp) = (hmp_fleaves hmp)(key \<mapsto> leaf)"
  by (simp add: leaf_put_def)

lemma leaf_put_static [simp]: "dev_static hmp (leaf_put key leaf hmp)"
  by (simp add: leaf_put_def dev_static_def)

lemma leaf_fresh_static: "dev_static hmp hmp' \<Longrightarrow> leaf_fresh hmp' key = leaf_fresh hmp key"
  by (simp add: leaf_fresh_def dev_static_def)

lemma leaf_view_put:
  assumes "dev_static hmp hmp'" "hmp_fleaves hmp' = hmp_fleaves hmp"
  shows "leaf_view (leaf_put key leaf hmp') k = (if k = key then leaf else leaf_view hmp k)"
proof -
  have "leaf_fresh (leaf_put key leaf hmp') k = leaf_fresh hmp k"
    using leaf_fresh_static dev_static_trans [OF assms(1) leaf_put_static] by blast
  then show ?thesis using assms(2) by (auto simp: leaf_view_def split: option.splits)
qed

lemma media_le_put:
  assumes st: "dev_static hmp hmp'" "hmp_fleaves hmp' = hmp_fleaves hmp" and le: "leaf_le leaf (leaf_view hmp key)"
  shows "media_le (leaf_put key leaf hmp') hmp"
proof -
  have "x mod 2 ^ 30 div 4194304 < 256" "x mod 4194304 < 4194304" for x :: nat
    by (simp_all add: less_mult_imp_div_less)
  with le show ?thesis
    by (auto simp: media_le_def media_avail_def leaf_view_put [OF st] leaf_le_def split: if_splits)
qed

lemma freemap_ok_put:
  assumes ok: "freemap_ok hmp" and st: "dev_static hmp hmp'" "hmp_fleaves hmp' = hmp_fleaves hmp"
    and io: "io_inv hmp'" "io_room hmp'" and leaf: "leaf_ok hmp key leaf"
  shows "freemap_ok (leaf_put key leaf hmp')"
proof -
  let ?h = "leaf_put key leaf hmp'"
  have s: "dev_static hmp ?h" using dev_static_trans [OF st(1)] by simp
  have "io_inv ?h" "io_room ?h" using io by (simp_all add: leaf_put_def io_inv_def io_room_def)
  moreover have "leaf_ok ?h k l" if "hmp_fleaves ?h k = Some l" for k l
    using that ok leaf st(2) by (auto simp: dev_static_ok [OF s] freemap_ok_def split: if_splits)
  moreover have "length (hmp_heur_freemap ?h) = 32" "hmp_spmp ?h" using s ok by (simp_all add: dev_static_def freemap_ok_def)
  ultimately show ?thesis using dev_static_ok(5) [OF s] ok by (simp add: freemap_ok_def)
qed

text \<open>The block \<open>[blk, blk + 2 ^ radix)\<close> was handed out between \<open>hmp\<close> and \<open>hmp'\<close>.\<close>

definition block_taken :: "hammer2_dev \<Rightarrow> nat \<Rightarrow> nat \<Rightarrow> hammer2_dev \<Rightarrow> bool" where
  "block_taken hmp radix blk hmp' \<longleftrightarrow> blk mod 1024 = 0 \<and>
     unat (vd_allocator_beg (hmp_voldata hmp)) \<le> blk \<and> blk + 2 ^ radix \<le> unat (hmp_total_size hmp) \<and>
     (\<forall>x. blk \<le> x \<and> x < blk + 2 ^ radix \<longrightarrow> media_avail hmp x \<and> \<not> media_avail hmp' x)"

lemma media_pos:
  assumes "unat key mod 2 ^ 30 = 0" "n < 256" "x < 4194304"
  shows "leaf_key (unat key + n * 4194304 + x) = key"
    "(unat key + n * 4194304 + x) mod 2 ^ 30 div 4194304 = n" "(unat key + n * 4194304 + x) mod 4194304 = x"
proof -
  obtain q where q: "unat key = 2 ^ 30 * q" using assms(1) by auto
  have lt: "n * 4194304 + x < 2 ^ 30" using assms(2,3) by simp
  have e: "unat key + n * 4194304 + x = 2 ^ 30 * q + (n * 4194304 + x)" by (simp add: q)
  then have "(unat key + n * 4194304 + x) div 2 ^ 30 = q" using lt by simp
  then show "leaf_key (unat key + n * 4194304 + x) = key"
    unfolding leaf_key_def by (simp only: mult.commute [of q] q [symmetric]) simp
  have "(unat key + n * 4194304 + x) mod 2 ^ 30 = n * 4194304 + x" unfolding e using lt by simp
  then show "(unat key + n * 4194304 + x) mod 2 ^ 30 div 4194304 = n" using assms(3) by simp
  have "unat key + n * 4194304 + x = 4194304 * (256 * q + n) + x" by (simp add: q)
  then show "(unat key + n * 4194304 + x) mod 4194304 = x" using assms(3) by (simp only: mod_mult_self4 mod_less)
qed

lemma media_avail_static:
  assumes "dev_static hmp hmp'" "hmp_fleaves hmp' = hmp_fleaves hmp"
  shows "leaf_view hmp' k = leaf_view hmp k" "media_avail hmp' x = media_avail hmp x"
  using assms leaf_fresh_static [OF assms(1)] by (simp_all add: leaf_view_def media_avail_def split: option.split)

lemma freemap_ok_static:
  assumes "freemap_ok hmp" "dev_static hmp hmp'" "hmp_fleaves hmp' = hmp_fleaves hmp" "io_inv hmp'" "io_room hmp'"
  shows "freemap_ok hmp'"
  using assms dev_static_ok [OF assms(2)] by (auto simp: freemap_ok_def dev_static_def)

lemma assign_spec:
  assumes dev: "io_inv hmp" "io_room hmp" and seg: "seg_usable hmp base" and t: "unat (hmp_total_size hmp) < 2 ^ 63"
    and pl: "block_placed radix off" "off + 2 ^ radix \<le> 4194304" and r: "10 \<le> radix" "radix \<le> 16"
    and bt: "btype_ok (br_type bref)"
  obtains hmp' where "freemap_assign hmp bref radix (base + of_nat off) =
      Some (hmp', bref\<lparr> br_data_off := (base + of_nat off) OR of_nat radix \<rparr>)"
    "io_inv hmp'" "io_room hmp'" "dev_static hmp hmp'" "hmp_fleaves hmp' = hmp_fleaves hmp"
proof -
  let ?k = "base + of_nat off"
  let ?b = "bref\<lparr> br_data_off := ?k OR of_nat radix \<rparr>"
  have u: "seg_backed hmp base" "vd_allocator_beg (hmp_voldata hmp) \<le> base"
    "unat base + 4194304 \<le> unat (hmp_total_size hmp)" "4194304 \<le> unat base mod 2147483648"
    using seg by (simp_all add: seg_usable_def)
  have r0: "0 < radix" using r by simp
  note bb = block_backed [OF u(1) pl r0 r(2)]
  have "vd_allocator_beg (hmp_voldata hmp) \<le> ?k" using u(2) bb(2) by (simp add: word_le_nat_alt)
  moreover have "?k + push_bit radix 1 \<le> hmp_total_size hmp"
  proof -
    have p: "(2 :: nat) ^ radix \<le> 2 ^ 16" using r by (intro power_increasing) auto
    have "unat (of_nat (2 ^ radix) :: u64) = 2 ^ radix" using p by (intro unat_of_nat_small) simp
    then have "unat (?k + push_bit radix 1) = unat base + off + 2 ^ radix"
      using u(3) t pl(2) bb(2) by (simp add: unat_word_ariths)
    then show ?thesis using u(3) pl(2) by (simp add: word_le_nat_alt)
  qed
  moreover have "HAMMER2_ZONE_SEG \<le> ?k AND HAMMER2_ZONE_MASK"
  proof -
    have m: "(2147483647 :: u64) = mask 31" by (simp add: mask_eq_exp_minus_1)
    have "unat base mod 2 ^ 22 = 0" using u(1) unat_and_mask [of base 22] unfolding seg_backed_def mask_22 by simp
    then obtain q where q: "unat base = 2 ^ 22 * q" by auto
    define a where "a = 4194304 * (q mod 512) + off"
    have "q mod 512 \<le> 511" "0 < (2 :: nat) ^ radix" using mod_less_divisor [of 512 q] by simp_all
    then have a: "a < 2147483648" using pl(2) unfolding a_def by linarith
    have q': "q = 512 * (q div 512) + q mod 512" by simp
    have "unat base = 4194304 * q" using q by simp
    with q' have b: "unat base = 2147483648 * (q div 512) + 4194304 * (q mod 512)" by linarith
    then have "unat ?k = 2147483648 * (q div 512) + a" unfolding bb(2) a_def by simp
    then have "unat ?k mod 2147483648 = a" using a by (simp only: mod_mult_self4 mod_less)
    moreover have "unat base mod 2147483648 = 4194304 * (q mod 512)"
      using a unfolding b a_def by (intro trans [OF mod_mult_self4] mod_less) simp
    ultimately have "unat base mod 2147483648 \<le> unat ?k mod 2 ^ 31" by (simp add: a_def)
    then show ?thesis using u(4) unfolding m word_le_nat_alt unat_and_mask by simp
  qed
  ultimately have f: "freemap_assign hmp bref radix ?k =
      Option.bind (if br_type bref = HAMMER2_BREF_TYPE_DATA then hammer2_io_dedup_set hmp ?b else Some hmp)
        (\<lambda>hmp. Some (hmp, ?b))"
    by (simp add: freemap_assign_def Let_def)
  obtain hmp1 f where d: "hammer2_io_dedup_set hmp ?b = Some hmp1" "io_effect f hmp hmp1"
    using dedup_set_effect [OF dev, of ?b] bt bb(1) by auto
  have "io_inv hmp1" "io_room hmp1" using d(2) io_effect_room [OF d(2) dev] by (simp_all add: io_effect_def)
  note d1 = this io_effect_static [OF d(2)]
  show ?thesis
  proof (cases "br_type bref = HAMMER2_BREF_TYPE_DATA")
    case True
    with f d(1) have "freemap_assign hmp bref radix ?k = Some (hmp1, ?b)" by simp
    then show ?thesis by (rule that [OF _ d1])
  next
    case False
    with f have "freemap_assign hmp bref radix ?k = Some (hmp, ?b)" by simp
    then show ?thesis by (rule that [OF _ dev dev_static_refl refl])
  qed
qed

text \<open>The leaf after one of its entries gave a block.\<close>

lemma leaf_gave:
  assumes lo: "fl_error leaf = 0" "fl_bmdata leaf = Some bm" "bmdata_ok hmp key bm" "bigmask_ok (fl_bigmask leaf) bm"
    and g: "entry_gave hmp bm radix key n hmp' bm' key' off"
  shows "leaf_ok hmp key (leaf\<lparr> fl_bmdata := Some bm' \<rparr>)" "leaf_le (leaf\<lparr> fl_bmdata := Some bm' \<rparr>) leaf"
    "seg_usable hmp (seg_base key n)"
proof -
  obtain b' bg where b': "n < 256" "bm' = bm[n := b']" "bmap_ok b'" "bmap_took (bm ! n) radix off b'"
      "\<forall>r. bmap_can_alloc b' r \<longrightarrow> bmap_can_alloc (bm ! n) r"
    using g by (auto simp: entry_gave_def)
  have len: "length bm = 256" and eo: "\<And>m. m < 256 \<Longrightarrow> entry_ok hmp key m (bm ! m)"
    using lo(3) by (simp_all add: bmdata_ok_def)
  show su: "seg_usable hmp (seg_base key n)"
    using took_byte_free [OF b'(4)] eo [OF b'(1)] by (simp add: entry_ok_def)
  have at: "bm' ! m = (if m = n then b' else bm ! m)" if "m < 256" for m
    using that b'(1,2) len by (simp add: nth_list_update)
  have "entry_ok hmp key m (bm' ! m)" if "m < 256" for m
    using eo [OF that] su b'(3) at [OF that] by (simp add: entry_ok_def)
  then have "bmdata_ok hmp key bm'" using b'(2) len by (simp add: bmdata_ok_def)
  moreover have "bigmask_ok (fl_bigmask leaf) bm'" using lo(4) b'(1,5) at by (auto simp: bigmask_ok_def)
  ultimately show "leaf_ok hmp key (leaf\<lparr> fl_bmdata := Some bm' \<rparr>)" by (simp add: leaf_ok_def)
  show "leaf_le (leaf\<lparr> fl_bmdata := Some bm' \<rparr>) leaf"
    using lo(1,2) b'(1,4) at by (auto simp: leaf_le_def leaf_avail_def bmap_took_def split: if_splits)
qed

subsection \<open>One attempt\<close>

text \<open>A block reference the freemap may be asked a block for: file system metadata or data, data of
  16KB and more with a key aligned to its size.\<close>

definition bref_ok :: "hammer2_blockref \<Rightarrow> nat \<Rightarrow> bool" where
  "bref_ok bref radix \<longleftrightarrow> 10 \<le> radix \<and> radix \<le> 16 \<and>
     br_type bref \<in> {HAMMER2_BREF_TYPE_INODE, HAMMER2_BREF_TYPE_INDIRECT, HAMMER2_BREF_TYPE_DATA, HAMMER2_BREF_TYPE_DIRENT} \<and>
     (br_type bref = HAMMER2_BREF_TYPE_DATA \<and> 14 \<le> radix \<longrightarrow> unat (br_key bref) mod 2 ^ radix = 0)"

definition env_ok :: "freemap_env \<Rightarrow> bool" where
  "env_ok env \<longleftrightarrow> fe_create env = 0 \<and> res_ok (fe_newnz env) \<and>
     fe_modify env \<noteq> HAMMER2_ERROR_EAGAIN \<and> fe_modify2 env \<noteq> HAMMER2_ERROR_EAGAIN"

lemma class_of_type: "class_btype (freemap_class t) = t" "drop_bit 8 (freemap_class t) = ucast t"
proof -
  have 16: "bit (16 :: int) k \<longleftrightarrow> k = 4" for k using bit_exp_iff [where 'a = int, of 4 k] by auto
  show d: "drop_bit 8 (freemap_class t) = ucast t"
    unfolding freemap_class_def
    by (rule bit_word_eqI) (auto simp: bit_drop_bit_eq bit_or_iff bit_push_bit_iff bit_ucast_iff 16 dest: bit_imp_le_length)
  show "class_btype (freemap_class t) = t" unfolding class_btype_def d by (rule bit_word_eqI) (simp add: bit_ucast_iff)
qed

lemma sub_key_dvd:
  assumes "r \<le> 31" "unat (k :: u64) mod 2 ^ r = 0"
  shows "2 ^ r dvd sint (ucast k :: u32)"
proof -
  have "k AND mask r = 0" using assms(2) unat_and_mask [of k r] by (simp add: unat_eq_zero)
  then have z: "\<not> bit k n" if "n < r" for n using that by (simp add: and_mask_eq_0)
  have "take_bit r (sint (ucast k :: u32)) = 0"
    by (rule bit_eqI) (use assms(1) z in \<open>auto simp: bit_take_bit_iff bit_sint_iff bit_ucast_iff\<close>)
  then show ?thesis by (simp add: take_bit_eq_0_iff)
qed

lemma bref_ok_request:
  assumes "bref_ok bref radix"
  shows "request_ok radix (freemap_class (br_type bref)) (sint (ucast (br_key bref) :: u32))"
proof -
  have r: "10 \<le> radix" "radix \<le> 16" "btype_ok (br_type bref)"
    and al: "br_type bref = HAMMER2_BREF_TYPE_DATA \<and> 14 \<le> radix \<longrightarrow> unat (br_key bref) mod 2 ^ radix = 0"
    using assms by (auto simp: bref_ok_def btype_ok_def)
  have "br_type bref = HAMMER2_BREF_TYPE_DATA"
    if "ucast (br_type bref) = (ucast HAMMER2_BREF_TYPE_DATA :: u16)"
    using that by (metis class_of_type(2) class_of_type(1) class_btype_def)
  then have "sub_key_aligned (freemap_class (br_type bref)) radix (sint (ucast (br_key bref) :: u32))"
    using al sub_key_dvd [of radix "br_key bref"] r(2) unfolding sub_key_aligned_def class_of_type by simp
  with r show ?thesis by (simp add: request_ok_def class_of_type)
qed

lemma key_of_bnext:
  "H2FMBASE x 30 AND HAMMER2_FREEMAP_LEVEL1_MASK = 0" "unat (H2FMBASE x 30) \<le> unat x"
  "unat (drop_bit 22 (x - H2FMBASE x 30)) < 256"
proof -
  show "H2FMBASE x 30 AND HAMMER2_FREEMAP_LEVEL1_MASK = 0"
    unfolding H2FMBASE_def mask_30 by (rule and_not_and)
  show "unat (H2FMBASE x 30) \<le> unat x" unfolding H2FMBASE_def unat_and_not_mask by simp
  have "x - H2FMBASE x 30 = x AND mask 30" unfolding H2FMBASE_def by (rule word_minus_mask)
  then have "unat (x - H2FMBASE x 30) = unat x mod 2 ^ 30" by (simp only: unat_and_mask)
  then have "unat (x - H2FMBASE x 30) < 256 * 2 ^ 22" by simp
  then have "unat (x - H2FMBASE x 30) div 2 ^ 22 < 256" by (rule less_mult_imp_div_less)
  then show "unat (drop_bit 22 (x - H2FMBASE x 30)) < 256" by (simp only: unat_drop_bit_eq) (simp only: drop_bit_eq_div)
qed

text \<open>The attempt up to the point where the leaf is put back.\<close>

definition attempt_leaf :: "hammer2_dev \<Rightarrow> hammer2_blockref \<Rightarrow> nat \<Rightarrow> hammer2_fiterate \<Rightarrow> freemap_env \<Rightarrow>
    (h2error \<times> hammer2_dev \<times> freemap_leaf \<times> hammer2_key_t) option" where
  "attempt_leaf hmp bref radix iter env = do {
     (error, chain) \<leftarrow> freemap_leaf_get hmp radix (H2FMBASE (fi_bnext iter) 30) env;
     if error = 0
     then freemap_leaf_scan hmp chain (freemap_class (br_type bref)) (sint (ucast (br_key bref) :: u32)) radix iter
       (H2FMBASE (fi_bnext iter) 30) env
     else Some (error, hmp, chain, H2FMBASE (fi_bnext iter) 30) }"

lemma try_alloc_leaf:
  "hammer2_freemap_try_alloc hmp bref radix iter env = do {
     (error, hmp, chain, key') \<leftarrow> attempt_leaf hmp bref radix iter env;
     let hmp = leaf_put (H2FMBASE (fi_bnext iter) 30) chain hmp;
     if error = 0
     then do { (hmp, bref) \<leftarrow> freemap_assign hmp bref radix key'; Some (0, hmp, bref, iter) }
     else if error = HAMMER2_ERROR_ENOSPC
     then (let (error, iter) = hammer2_freemap_iterate hmp iter in Some (error, hmp, bref, iter))
     else Some (error, hmp, bref, iter) }"
  unfolding hammer2_freemap_try_alloc_def attempt_leaf_def leaf_put_def Let_def
  by (simp only: Option.bind_assoc case_prod_unfold)

text \<open>The leaf could not give: its state afterwards, and why.\<close>

definition leaf_stopped :: "hammer2_dev \<Rightarrow> hammer2_key_t \<Rightarrow> nat \<Rightarrow> bool \<Rightarrow> freemap_env \<Rightarrow> h2error \<Rightarrow> freemap_leaf \<Rightarrow> bool" where
  "leaf_stopped hmp key radix relaxed env error leaf \<longleftrightarrow> error \<noteq> 0 \<and> leaf_ok hmp key leaf \<and> leaf_le leaf (leaf_view hmp key) \<and>
     error \<in> {HAMMER2_ERROR_EIO, HAMMER2_ERROR_ENOSPC, fe_modify env, fe_modify2 env} \<and>
     (fe_modify env = 0 \<and> fe_modify2 env = 0 \<longrightarrow>
        (error = HAMMER2_ERROR_ENOSPC \<and> relaxed \<longrightarrow> \<not> leaf_room leaf radix) \<and>
        (error = HAMMER2_ERROR_EIO \<longrightarrow> fl_error leaf \<noteq> 0) \<and>
        fl_error leaf = fl_error (leaf_view hmp key) \<and> fl_bmdata leaf = fl_bmdata (leaf_view hmp key))"

text \<open>The leaf gave the block at \<open>off\<close> of its entry \<open>n\<close>.\<close>

definition leaf_gives :: "hammer2_dev \<Rightarrow> hammer2_key_t \<Rightarrow> nat \<Rightarrow> hammer2_dev \<Rightarrow> freemap_leaf \<Rightarrow> hammer2_key_t \<Rightarrow> nat \<Rightarrow> nat \<Rightarrow> bool" where
  "leaf_gives hmp key radix hmp' leaf' key' n off \<longleftrightarrow> (\<exists>bm bm'. fl_error (leaf_view hmp key) = 0 \<and>
     fl_bmdata (leaf_view hmp key) = Some bm \<and> leaf' = (leaf_view hmp key)\<lparr> fl_bmdata := Some bm' \<rparr> \<and>
     bmdata_ok hmp key bm \<and> bigmask_ok (fl_bigmask (leaf_view hmp key)) bm \<and>
     entry_gave hmp bm radix key n hmp' bm' key' off)"

lemma attempt_leaf_spec:
  assumes ok: "freemap_ok hmp" and req: "bref_ok bref radix" and env: "env_ok env"
    and key: "key = H2FMBASE (fi_bnext iter) 30" "unat key < 2 ^ 63"
  shows "(\<exists>hmp' leaf' key' n off. attempt_leaf hmp bref radix iter env = Some (0, hmp', leaf', key') \<and>
      leaf_gives hmp key radix hmp' leaf' key' n off) \<or>
    (\<exists>error leaf'. attempt_leaf hmp bref radix iter env = Some (error, hmp, leaf', key) \<and>
      leaf_stopped hmp key radix (fi_relaxed iter) env error leaf')" (is "?G \<or> ?S")
proof -
  have io: "io_inv hmp" "io_room hmp" using ok by (simp_all add: freemap_ok_def)
  have e: "fe_create env = 0" "res_ok (fe_newnz env)" using env by (simp_all add: env_ok_def)
  have k0: "key AND HAMMER2_FREEMAP_LEVEL1_MASK = 0" "unat (drop_bit 22 (fi_bnext iter - key)) < 256"
    unfolding key(1) by (rule key_of_bnext)+
  have r: "radix \<le> 16" using req by (simp add: bref_ok_def)
  note al = attempt_leaf_def [of hmp bref radix iter env, folded key(1)]
  show ?thesis
  proof (rule leaf_get_spec [OF ok k0(1) key(2) e(1) r])
    fix err leaf
    assume get: "freemap_leaf_get hmp radix key env = Some (err, leaf)" "leaf_ok hmp key leaf"
      "leaf_le leaf (leaf_view hmp key)" "err = 0 \<Longrightarrow> fl_error leaf = 0 \<and> leaf = leaf_view hmp key"
      "err \<in> {0, HAMMER2_ERROR_EIO, HAMMER2_ERROR_ENOSPC, fe_modify env}"
      "err = HAMMER2_ERROR_ENOSPC \<Longrightarrow> fe_modify env = 0 \<Longrightarrow> \<not> leaf_room leaf radix"
      "err = HAMMER2_ERROR_EIO \<Longrightarrow> fe_modify env = 0 \<Longrightarrow> fl_error leaf \<noteq> 0"
      "fe_modify env = 0 \<Longrightarrow> leaf = leaf_view hmp key"
    show ?thesis
    proof (cases "err = 0")
      case False
      then have "leaf_stopped hmp key radix (fi_relaxed iter) env err leaf"
        unfolding leaf_stopped_def using get(2-) by blast
      then show ?thesis using False get(1) by (simp add: al)
    next
      case True
      then have v: "fl_error leaf = 0" "leaf = leaf_view hmp key" using get(4) by blast+
      have al': "attempt_leaf hmp bref radix iter env =
          freemap_leaf_scan hmp leaf (freemap_class (br_type bref)) (sint (ucast (br_key bref) :: u32)) radix iter key env"
        using True get(1) by (simp add: al)
      show ?thesis
      proof (rule leaf_scan_spec [OF io get(2) v(1) bref_ok_request [OF req] e(2) k0(2)], unfold al' [symmetric])
        fix error leaf'
        assume f: "attempt_leaf hmp bref radix iter env = Some (error, hmp, leaf', key)" "error \<noteq> 0"
          "error \<in> {HAMMER2_ERROR_ENOSPC, fe_modify2 env}" "leaf_ok hmp key leaf'" "leaf_le leaf' leaf"
          "fe_modify2 env = 0 \<Longrightarrow> fi_relaxed iter \<Longrightarrow> \<not> leaf_room leaf' radix"
          "fe_modify2 env = 0 \<Longrightarrow> fl_error leaf' = fl_error leaf \<and> fl_bmdata leaf' = fl_bmdata leaf"
        have "leaf_stopped hmp key radix (fi_relaxed iter) env error leaf'"
          unfolding leaf_stopped_def v(2) [symmetric] using f by auto
        with f(1) show ?thesis by blast
      next
        fix hmp' leaf' key' bm bm' n off
        assume g: "attempt_leaf hmp bref radix iter env = Some (0, hmp', leaf', key')" "fl_bmdata leaf = Some bm"
          "leaf' = leaf\<lparr> fl_bmdata := Some bm' \<rparr>" "bmdata_ok hmp key bm" "bigmask_ok (fl_bigmask leaf) bm"
          "entry_gave hmp bm radix key n hmp' bm' key' off"
        have "leaf_gives hmp key radix hmp' leaf' key' n off"
          unfolding leaf_gives_def v(2) [symmetric] using g(2-) v(1) by blast
        with g(1) show ?thesis by blast
      qed
    qed
  qed
qed

lemma gives_block_taken:
  assumes ok: "freemap_ok hmp" and key: "key AND HAMMER2_FREEMAP_LEVEL1_MASK = 0" "unat key < 2 ^ 63"
    and g: "leaf_gives hmp key radix hmp' leaf' key' n off"
    and st: "dev_static hmp hmp2" "hmp_fleaves hmp2 = (hmp_fleaves hmp)(key \<mapsto> leaf')"
  shows "block_taken hmp radix (unat key + n * 4194304 + off) hmp2"
proof -
  obtain bm bm' where v: "fl_error (leaf_view hmp key) = 0" "fl_bmdata (leaf_view hmp key) = Some bm"
      "leaf' = (leaf_view hmp key)\<lparr> fl_bmdata := Some bm' \<rparr>" "bmdata_ok hmp key bm"
      "bigmask_ok (fl_bigmask (leaf_view hmp key)) bm" "entry_gave hmp bm radix key n hmp' bm' key' off"
    using g by (auto simp: leaf_gives_def)
  obtain b' where b': "n < 256" "bm' = bm[n := b']" "bmap_took (bm ! n) radix off b'" "block_placed radix off"
    using v(6) by (auto simp: entry_gave_def)
  have len: "length bm = 256" using v(4) by (simp add: bmdata_ok_def)
  have su: "seg_usable hmp (seg_base key n)" by (rule leaf_gave(3) [OF v(1,2,4,5,6)])
  have k30: "unat key mod 2 ^ 30 = 0" by (rule aligned_base(3) [OF key(1)])
  have fit: "off + 2 ^ radix \<le> 4194304" using b'(3) by (simp add: bmap_took_def)
  note u = unat_seg_base [OF key(2) b'(1)]
  have v2: "leaf_view hmp2 key = leaf'" using st(2) by (simp add: leaf_view_def)
  have "media_avail hmp x \<and> \<not> media_avail hmp2 x"
    if x: "unat key + n * 4194304 + off \<le> x" "x < unat key + n * 4194304 + off + 2 ^ radix" for x
  proof -
    define d where "d = x - (unat key + n * 4194304)"
    have d: "x = unat key + n * 4194304 + d" "off \<le> d" "d < off + 2 ^ radix" using x by (simp_all add: d_def)
    then have d4: "d < 4194304" using fit by simp
    have "byte_free (bm ! n) d" "\<not> byte_free b' d" using b'(3) d by (simp_all add: bmap_took_def)
    then show ?thesis
      unfolding media_avail_def d(1) media_pos [OF k30 b'(1) d4] v2
      using v(1-3) b'(1,2) len by (simp add: leaf_avail_def)
  qed
  moreover have "(unat key + n * 4194304 + off) mod 1024 = 0"
  proof -
    obtain q where q: "unat key = 2 ^ 30 * q" using k30 by auto
    have "unat key + n * 4194304 + off = 1024 * (1048576 * q + 4096 * n) + off" by (simp add: q)
    then have "(unat key + n * 4194304 + off) mod 1024 = off mod 1024" by (simp only: mod_mult_self4)
    with b'(4) show ?thesis by (simp add: block_placed_def)
  qed
  moreover have "unat (vd_allocator_beg (hmp_voldata hmp)) \<le> unat key + n * 4194304 + off"
      "unat key + n * 4194304 + off + 2 ^ radix \<le> unat (hmp_total_size hmp)"
    using su fit u by (simp_all add: seg_usable_def word_le_nat_alt)
  ultimately show ?thesis by (simp add: block_taken_def)
qed

text \<open>The outcomes of an attempt: a block, the next leaf, or an error of the chain layer.\<close>

lemma try_alloc_gives:
  assumes ok: "freemap_ok hmp" and req: "bref_ok bref radix"
    and key: "key = H2FMBASE (fi_bnext iter) 30" "unat key < 2 ^ 63"
    and a: "attempt_leaf hmp bref radix iter env = Some (0, hmp', leaf', key')"
    and g: "leaf_gives hmp key radix hmp' leaf' key' n off"
  shows "\<exists>hmp2 blk. hammer2_freemap_try_alloc hmp bref radix iter env =
      Some (0, hmp2, bref\<lparr> br_data_off := of_nat blk OR of_nat radix \<rparr>, iter) \<and> freemap_ok hmp2 \<and>
    dev_static hmp hmp2 \<and> media_le hmp2 hmp \<and> block_taken hmp radix blk hmp2"
proof -
  have k0: "key AND HAMMER2_FREEMAP_LEVEL1_MASK = 0" unfolding key(1) by (rule key_of_bnext)
  obtain bm bm' where v: "fl_error (leaf_view hmp key) = 0" "fl_bmdata (leaf_view hmp key) = Some bm"
      "leaf' = (leaf_view hmp key)\<lparr> fl_bmdata := Some bm' \<rparr>" "bmdata_ok hmp key bm"
      "bigmask_ok (fl_bigmask (leaf_view hmp key)) bm" and eg: "entry_gave hmp bm radix key n hmp' bm' key' off"
    using g by (auto simp: leaf_gives_def)
  obtain bg b' where b': "n < 256" "key' = seg_base key n + of_nat off" "block_placed radix off"
      "bmap_took (bm ! n) radix off b'" "dev_alloc_step bg hmp hmp'"
    using eg by (auto simp: entry_gave_def)
  note lg = leaf_gave [OF v(1,2,4,5) eg, folded v(3)]
  have io: "io_inv hmp" "io_room hmp" and t: "unat (hmp_total_size hmp) < 2 ^ 63"
    using ok by (simp_all add: freemap_ok_def dev_geometry_def)
  note ds = dev_alloc_step_inv [OF b'(5) io]
  let ?h = "leaf_put key leaf' hmp'"
  have st: "dev_static hmp ?h" using dev_static_trans [OF ds(3)] by simp
  have h: "freemap_ok ?h" "media_le ?h hmp"
    using freemap_ok_put [OF ok ds(3,4,1,2) lg(1)] media_le_put [OF ds(3,4) lg(2)] by simp_all
  then have ioh: "io_inv ?h" "io_room ?h" by (simp_all add: freemap_ok_def)
  have su: "seg_usable ?h (seg_base key n)" using lg(3) dev_static_ok(1) [OF st] by simp
  have th: "unat (hmp_total_size ?h) < 2 ^ 63" using t st by (simp add: dev_static_def)
  have fit: "off + 2 ^ radix \<le> 4194304" using b'(4) by (simp add: bmap_took_def)
  have r: "10 \<le> radix" "radix \<le> 16" "btype_ok (br_type bref)" using req by (auto simp: bref_ok_def btype_ok_def)
  obtain hmp2 where as: "freemap_assign ?h bref radix (seg_base key n + of_nat off) =
        Some (hmp2, bref\<lparr> br_data_off := (seg_base key n + of_nat off) OR of_nat radix \<rparr>)"
      "io_inv hmp2" "io_room hmp2" "dev_static ?h hmp2" "hmp_fleaves hmp2 = hmp_fleaves ?h"
    by (rule assign_spec [OF ioh su th b'(3) fit r])
  have blk: "seg_base key n + of_nat off = of_nat (unat key + n * 4194304 + off)"
    by (simp add: seg_base_def)
  have "hammer2_freemap_try_alloc hmp bref radix iter env =
      Some (0, hmp2, bref\<lparr> br_data_off := of_nat (unat key + n * 4194304 + off) OR of_nat radix \<rparr>, iter)"
    unfolding try_alloc_leaf a key(1) [symmetric] Let_def using as(1) unfolding b'(2) blk by simp
  moreover have "freemap_ok hmp2" by (rule freemap_ok_static [OF h(1) as(4,5,2,3)])
  moreover have st2: "dev_static hmp hmp2" by (rule dev_static_trans [OF st as(4)])
  moreover have "media_le hmp2 hmp" using h(2) media_avail_static(2) [OF as(4,5)] by (simp add: media_le_def)
  moreover have "block_taken hmp radix (unat key + n * 4194304 + off) hmp2"
    using as(5) ds(4) by (intro gives_block_taken [OF ok k0 key(2) g st2]) simp
  ultimately show ?thesis by blast
qed

lemma try_alloc_stops:
  assumes ok: "freemap_ok hmp" and key: "key = H2FMBASE (fi_bnext iter) 30"
    and a: "attempt_leaf hmp bref radix iter env = Some (error, hmp, leaf', key)"
    and s: "leaf_stopped hmp key radix (fi_relaxed iter) env error leaf'"
  shows "hammer2_freemap_try_alloc hmp bref radix iter env =
      (if error = HAMMER2_ERROR_ENOSPC
       then let (error, iter) = hammer2_freemap_iterate hmp iter in Some (error, leaf_put key leaf' hmp, bref, iter)
       else Some (error, leaf_put key leaf' hmp, bref, iter))"
    "freemap_ok (leaf_put key leaf' hmp)" "media_le (leaf_put key leaf' hmp) hmp"
proof -
  have l: "leaf_ok hmp key leaf'" "leaf_le leaf' (leaf_view hmp key)" "error \<noteq> 0" using s by (simp_all add: leaf_stopped_def)
  have "hammer2_freemap_iterate (leaf_put key leaf' hmp) iter = hammer2_freemap_iterate hmp iter"
    by (simp add: hammer2_freemap_iterate_def leaf_put_def)
  then show "hammer2_freemap_try_alloc hmp bref radix iter env =
      (if error = HAMMER2_ERROR_ENOSPC
       then let (error, iter) = hammer2_freemap_iterate hmp iter in Some (error, leaf_put key leaf' hmp, bref, iter)
       else Some (error, leaf_put key leaf' hmp, bref, iter))"
    unfolding try_alloc_leaf a key [symmetric] using l(3) by simp
  show "freemap_ok (leaf_put key leaf' hmp)" "media_le (leaf_put key leaf' hmp) hmp"
    using freemap_ok_put [OF ok _ _ _ _ l(1), of hmp] media_le_put [OF _ _ l(2), of hmp] ok by (simp_all add: freemap_ok_def)
qed

subsection \<open>The allocation loop\<close>

text \<open>How often the iteration will still reach the end of the media: the third time, or the second
  when it is relaxed from the start, is the last.\<close>

definition wraps :: "hammer2_fiterate \<Rightarrow> nat" where
  "wraps iter = (if fi_loops iter \<ge> 1 then 1 else 2) + (if fi_relaxed iter then 0 else 1)"

lemma next_key:
  assumes "unat bnext < 2 ^ 63"
  shows "unat ((bnext AND NOT HAMMER2_FREEMAP_LEVEL1_MASK) + HAMMER2_FREEMAP_LEVEL1_SIZE :: u64) =
      unat (H2FMBASE bnext 30) + 2 ^ 30"
    "unat (H2FMBASE bnext 30) = unat bnext div 2 ^ 30 * 2 ^ 30"
proof -
  show u: "unat (H2FMBASE bnext 30) = unat bnext div 2 ^ 30 * 2 ^ 30" unfolding H2FMBASE_def unat_and_not_mask ..
  then have "unat (H2FMBASE bnext 30) \<le> unat bnext" by simp
  then have "unat (H2FMBASE bnext 30) < 2 ^ 63" using assms by simp
  then have "unat (H2FMBASE bnext 30 + 1073741824) = unat (H2FMBASE bnext 30) + 1073741824"
    by (simp add: unat_word_ariths)
  then show "unat ((bnext AND NOT HAMMER2_FREEMAP_LEVEL1_MASK) + HAMMER2_FREEMAP_LEVEL1_SIZE :: u64) =
      unat (H2FMBASE bnext 30) + 2 ^ 30"
    unfolding mask_30 H2FMBASE_def by simp
qed

lemma iterate_cases:
  assumes b: "unat (fi_bnext iter) < 2 ^ 63" and l: "0 \<le> fi_loops iter"
  obtains
    (step) iter' where "hammer2_freemap_iterate hmp iter = (HAMMER2_ERROR_EAGAIN, iter')"
      "unat (fi_bnext iter') = unat (H2FMBASE (fi_bnext iter) 30) + 2 ^ 30"
      "fi_bnext iter' < hmp_total_size hmp" "wraps iter' = wraps iter" "fi_loops iter' = fi_loops iter"
      "fi_relaxed iter' = fi_relaxed iter"
  | (wrap) iter' where "hammer2_freemap_iterate hmp iter = (HAMMER2_ERROR_EAGAIN, iter')" "fi_bnext iter' = 0"
      "0 \<le> fi_loops iter'" "wraps iter = Suc (wraps iter')"
  | (stop) iter' where "hammer2_freemap_iterate hmp iter = (HAMMER2_ERROR_ENOSPC, iter')" "wraps iter = 1"
      "unat (hmp_total_size hmp) \<le> unat (H2FMBASE (fi_bnext iter) 30) + 2 ^ 30"
proof -
  let ?n = "(fi_bnext iter AND NOT HAMMER2_FREEMAP_LEVEL1_MASK) + HAMMER2_FREEMAP_LEVEL1_SIZE"
  note n = next_key(1) [OF b]
  show thesis
  proof (cases "?n \<ge> hmp_total_size hmp")
    case False
    then show thesis
      using n by (intro step [of "iter\<lparr> fi_bnext := ?n \<rparr>"]) (simp_all add: hammer2_freemap_iterate_def Let_def wraps_def)
  next
    case ge: True
    then have t: "unat (hmp_total_size hmp) \<le> unat (H2FMBASE (fi_bnext iter) 30) + 2 ^ 30"
      using n by (simp add: word_le_nat_alt)
    let ?i = "iter\<lparr> fi_bnext := 0, fi_loops := fi_loops iter + 1 \<rparr>"
    show thesis
    proof (cases "wraps iter = 1")
      case True
      then have "fi_loops iter \<ge> 1" "fi_relaxed iter" by (auto simp: wraps_def split: if_splits)
      with ge show thesis by (intro stop [of ?i] True t) (simp add: hammer2_freemap_iterate_def Let_def)
    next
      case False
      then show thesis
        using ge l by (intro wrap [of "if fi_loops iter \<ge> 1 then ?i\<lparr> fi_relaxed := True \<rparr> else ?i"])
          (auto simp: hammer2_freemap_iterate_def Let_def wraps_def split: if_splits)
    qed
  qed
qed

definition fi_measure :: "hammer2_fiterate \<Rightarrow> nat" where
  "fi_measure iter = wraps iter * 2 ^ 34 + (2 ^ 34 - 1 - unat (fi_bnext iter) div 2 ^ 30)"

text \<open>No leaf below \<open>bound\<close> has room.\<close>

definition no_room_below :: "hammer2_dev \<Rightarrow> nat \<Rightarrow> nat \<Rightarrow> bool" where
  "no_room_below hmp radix bound \<longleftrightarrow> (\<forall>k :: hammer2_key_t. k AND HAMMER2_FREEMAP_LEVEL1_MASK = 0 \<and> unat k < bound \<longrightarrow>
     \<not> leaf_room (leaf_view hmp k) radix)"

definition env_works :: "freemap_env \<Rightarrow> bool" where
  "env_works env \<longleftrightarrow> fe_modify env = 0 \<and> fe_modify2 env = 0"

definition env_errors :: "(nat \<Rightarrow> freemap_env) \<Rightarrow> h2error set" where
  "env_errors env = range (\<lambda>n. fe_modify (env n)) \<union> range (\<lambda>n. fe_modify2 (env n))"

text \<open>Both devices have the same leaves, their hints apart.\<close>

definition same_leaves :: "hammer2_dev \<Rightarrow> hammer2_dev \<Rightarrow> bool" where
  "same_leaves hmp hmp' \<longleftrightarrow> (\<forall>k. fl_error (leaf_view hmp' k) = fl_error (leaf_view hmp k) \<and>
     fl_bmdata (leaf_view hmp' k) = fl_bmdata (leaf_view hmp k))"

lemma same_leaves_refl [simp]: "same_leaves hmp hmp"
  by (simp add: same_leaves_def)

lemma same_leaves_trans: "same_leaves a b \<Longrightarrow> same_leaves b c \<Longrightarrow> same_leaves a c"
  by (simp add: same_leaves_def)

lemma same_leaves_room: "same_leaves hmp hmp' \<Longrightarrow> leaf_room (leaf_view hmp' k) radix = leaf_room (leaf_view hmp k) radix"
  by (simp add: same_leaves_def leaf_room_def)

text \<open>What the loop may return.\<close>

definition alloc_result :: "hammer2_dev \<Rightarrow> hammer2_blockref \<Rightarrow> nat \<Rightarrow> (nat \<Rightarrow> freemap_env) \<Rightarrow>
    h2error \<Rightarrow> hammer2_dev \<Rightarrow> hammer2_blockref \<Rightarrow> bool" where
  "alloc_result hmp bref radix env error hmp' bref' \<longleftrightarrow> freemap_ok hmp' \<and> media_le hmp' hmp \<and>
     (if error = 0 then \<exists>blk. bref' = bref\<lparr> br_data_off := of_nat blk OR of_nat radix \<rparr> \<and> block_taken hmp radix blk hmp'
      else bref' = bref \<and> error \<in> {HAMMER2_ERROR_ENOSPC, HAMMER2_ERROR_EIO} \<union> env_errors env) \<and>
     ((\<forall>n. env_works (env n)) \<longrightarrow>
        (error = HAMMER2_ERROR_ENOSPC \<longrightarrow> no_room_below hmp' radix (unat (hmp_total_size hmp))) \<and>
        (error = HAMMER2_ERROR_EIO \<longrightarrow> (\<exists>k. fl_error (leaf_view hmp' k) \<noteq> 0)) \<and>
        (error \<noteq> 0 \<longrightarrow> same_leaves hmp hmp'))"

lemma block_taken_le:
  "media_le hmp1 hmp \<Longrightarrow> dev_static hmp hmp1 \<Longrightarrow> block_taken hmp1 radix blk hmp' \<Longrightarrow> block_taken hmp radix blk hmp'"
  by (auto simp: block_taken_def media_le_def dev_static_def)

lemma alloc_result_le:
  assumes "media_le hmp1 hmp" "dev_static hmp hmp1" "alloc_result hmp1 bref radix env error hmp' bref'"
    "(\<forall>n. env_works (env n)) \<longrightarrow> same_leaves hmp hmp1"
  shows "alloc_result hmp bref radix env error hmp' bref'"
proof -
  have "hmp_total_size hmp1 = hmp_total_size hmp" using assms(2) by (simp add: dev_static_def)
  then show ?thesis
    using assms media_le_trans [of hmp' hmp1 hmp] block_taken_le [OF assms(1,2)] same_leaves_trans [of hmp hmp1 hmp']
    unfolding alloc_result_def by (auto split: if_splits)
qed

lemma fi_measure_step:
  assumes "unat b' = unat (H2FMBASE b 30) + 2 ^ 30" "unat b < 2 ^ 63" "fi_bnext iter' = b'" "fi_bnext iter = b"
    "wraps iter' = wraps iter"
  shows "fi_measure iter' < fi_measure iter"
proof -
  have "unat b' = (unat b div 2 ^ 30 + 1) * 2 ^ 30" using assms(1) next_key(2) [OF assms(2)] by simp
  then have "unat b' div 2 ^ 30 = unat b div 2 ^ 30 + 1" by simp
  moreover have "unat b div 2 ^ 30 < 2 ^ 33" using assms(2) by (intro less_mult_imp_div_less) simp
  ultimately show ?thesis using assms(3-5) by (simp add: fi_measure_def)
qed

lemma fi_measure_wrap:
  "fi_bnext iter' = 0 \<Longrightarrow> wraps iter = Suc (wraps iter') \<Longrightarrow> fi_measure iter' < fi_measure iter"
  by (simp add: fi_measure_def)

lemma no_room_put:
  assumes "no_room_below hmp radix (unat key)" "\<not> leaf_room leaf radix" "unat key mod 2 ^ 30 = 0"
  shows "no_room_below (leaf_put key leaf hmp) radix (unat key + 2 ^ 30)"
proof -
  have "\<not> leaf_room (leaf_view (leaf_put key leaf hmp) k) radix"
    if k: "k AND HAMMER2_FREEMAP_LEVEL1_MASK = 0" "unat k < unat key + 2 ^ 30" for k
  proof (cases "k = key")
    case True
    then show ?thesis using assms(2) by (simp add: leaf_view_put [where hmp = hmp])
  next
    case False
    obtain p q where pq: "unat k = 2 ^ 30 * p" "unat key = 2 ^ 30 * q"
      using aligned_base(3) [OF k(1)] assms(3) by (metis dvd_def mod_eq_0_iff_dvd)
    have "p \<noteq> q" using False pq by (metis unsigned_word_eqI)
    moreover have "2 ^ 30 * p < 2 ^ 30 * (q + 1)" using k(2) pq by simp
    ultimately have "p < q" by (simp add: less_Suc_eq)
    then have "unat k < unat key" unfolding pq by simp
    with False k(1) assms(1) show ?thesis
      by (simp add: leaf_view_put [where hmp = hmp] no_room_below_def)
  qed
  then show ?thesis by (simp add: no_room_below_def)
qed

text \<open>Where the loop stands: in bounds, and on the last pass with nothing left behind it.\<close>

definition loop_ok :: "hammer2_dev \<Rightarrow> nat \<Rightarrow> hammer2_fiterate \<Rightarrow> (nat \<Rightarrow> freemap_env) \<Rightarrow> bool" where
  "loop_ok hmp radix iter env \<longleftrightarrow> freemap_ok hmp \<and> unat (fi_bnext iter) \<le> unat (hmp_total_size hmp) \<and> 0 \<le> fi_loops iter \<and>
     ((\<forall>n. env_works (env n)) \<and> wraps iter = 1 \<longrightarrow> no_room_below hmp radix (unat (H2FMBASE (fi_bnext iter) 30)))"

lemma loop_ok_total: "loop_ok hmp radix iter env \<Longrightarrow> unat (hmp_total_size hmp) < 2 ^ 63"
  by (simp add: loop_ok_def freemap_ok_def dev_geometry_def)

text \<open>A leaf without room sends the iteration on, or ends it.\<close>

lemma loop_turn_enospc:
  assumes lo: "loop_ok hmp radix iter env" and ok: "freemap_ok (leaf_put key leaf hmp)" "media_le (leaf_put key leaf hmp) hmp"
    and key: "key = H2FMBASE (fi_bnext iter) 30"
    and room: "(\<forall>n. env_works (env n)) \<and> fi_relaxed iter \<longrightarrow> \<not> leaf_room leaf radix"
    and same: "(\<forall>n. env_works (env n)) \<longrightarrow> same_leaves hmp (leaf_put key leaf hmp)"
  shows "\<exists>error iter'. hammer2_freemap_iterate hmp iter = (error, iter') \<and>
    (error \<noteq> HAMMER2_ERROR_EAGAIN \<and> alloc_result hmp bref radix env error (leaf_put key leaf hmp) bref \<or>
     error = HAMMER2_ERROR_EAGAIN \<and> loop_ok (leaf_put key leaf hmp) radix iter' env \<and> fi_measure iter' < fi_measure iter)"
proof -
  let ?h = "leaf_put key leaf hmp"
  have l: "unat (fi_bnext iter) \<le> unat (hmp_total_size hmp)" "0 \<le> fi_loops iter"
    and full: "(\<forall>n. env_works (env n)) \<and> wraps iter = 1 \<longrightarrow> no_room_below hmp radix (unat key)"
    using lo by (simp_all add: loop_ok_def key)
  have b63: "unat (fi_bnext iter) < 2 ^ 63" using loop_ok_total [OF lo] l(1) by simp
  have tt: "hmp_total_size ?h = hmp_total_size hmp" by (simp add: leaf_put_def)
  have k30: "unat key mod 2 ^ 30 = 0" unfolding key by (rule aligned_base(3) [OF key_of_bnext(1)])
  have last: "no_room_below ?h radix (unat key + 2 ^ 30)" if "\<forall>n. env_works (env n)" "wraps iter = 1"
    using no_room_put [OF _ _ k30] full room that by (auto simp: wraps_def split: if_splits)
  show ?thesis
  proof (rule iterate_cases [OF b63 l(2), of hmp, folded key])
    fix iter'
    assume i: "hammer2_freemap_iterate hmp iter = (HAMMER2_ERROR_EAGAIN, iter')"
      "unat (fi_bnext iter') = unat key + 2 ^ 30" "fi_bnext iter' < hmp_total_size hmp" "wraps iter' = wraps iter"
      "fi_loops iter' = fi_loops iter" "fi_relaxed iter' = fi_relaxed iter"
    have "unat (H2FMBASE (fi_bnext iter') 30) \<le> unat key + 2 ^ 30"
      using key_of_bnext(2) [of "fi_bnext iter'"] i(2) by simp
    then have "loop_ok ?h radix iter' env"
      using ok(1) last i(2-) l(2) tt by (auto simp: loop_ok_def no_room_below_def word_less_nat_alt)
    moreover have "fi_measure iter' < fi_measure iter"
      by (rule fi_measure_step [OF i(2) [unfolded key] b63 refl refl i(4)])
    ultimately show ?thesis using i(1) by auto
  next
    fix iter'
    assume i: "hammer2_freemap_iterate hmp iter = (HAMMER2_ERROR_EAGAIN, iter')" "fi_bnext iter' = 0"
      "0 \<le> fi_loops iter'" "wraps iter = Suc (wraps iter')"
    have "loop_ok ?h radix iter' env" using ok(1) i(2,3) by (simp add: loop_ok_def no_room_below_def H2FMBASE_def)
    then show ?thesis using i(1) fi_measure_wrap [OF i(2,4)] by auto
  next
    fix iter'
    assume i: "hammer2_freemap_iterate hmp iter = (HAMMER2_ERROR_ENOSPC, iter')" "wraps iter = 1"
      "unat (hmp_total_size hmp) \<le> unat key + 2 ^ 30"
    have "alloc_result hmp bref radix env HAMMER2_ERROR_ENOSPC ?h bref"
      using ok last same i(2,3) by (auto simp: alloc_result_def no_room_below_def)
    then show ?thesis using i(1) by auto
  qed
qed

text \<open>One turn of the loop.\<close>

lemma loop_turn:
  assumes req: "bref_ok bref radix" and env: "env_ok (env n)" and lo: "loop_ok hmp radix iter env"
  shows "(\<exists>error hmp' bref' iter'. hammer2_freemap_try_alloc hmp bref radix iter (env n) = Some (error, hmp', bref', iter') \<and>
      dev_static hmp hmp' \<and>
      (error \<noteq> HAMMER2_ERROR_EAGAIN \<and> alloc_result hmp bref radix env error hmp' bref' \<or>
       error = HAMMER2_ERROR_EAGAIN \<and> bref' = bref \<and> media_le hmp' hmp \<and> loop_ok hmp' radix iter' env \<and>
       ((\<forall>n. env_works (env n)) \<longrightarrow> same_leaves hmp hmp') \<and> fi_measure iter' < fi_measure iter))"
proof -
  let ?key = "H2FMBASE (fi_bnext iter) 30"
  have ok: "freemap_ok hmp" and l: "unat (fi_bnext iter) \<le> unat (hmp_total_size hmp)" using lo by (simp_all add: loop_ok_def)
  have key: "unat ?key < 2 ^ 63" using key_of_bnext(2) [of "fi_bnext iter"] loop_ok_total [OF lo] l by simp
  show ?thesis
  proof (rule disjE [OF attempt_leaf_spec [OF ok req env refl key]]; elim exE conjE)
    fix hmp' leaf' key' m off
    assume a: "attempt_leaf hmp bref radix iter (env n) = Some (0, hmp', leaf', key')"
      "leaf_gives hmp ?key radix hmp' leaf' key' m off"
    have "\<exists>hmp2 blk. hammer2_freemap_try_alloc hmp bref radix iter (env n) =
        Some (0, hmp2, bref\<lparr> br_data_off := of_nat blk OR of_nat radix \<rparr>, iter) \<and> freemap_ok hmp2 \<and>
      dev_static hmp hmp2 \<and> media_le hmp2 hmp \<and> block_taken hmp radix blk hmp2"
      by (rule try_alloc_gives [OF ok req refl key a])
    then show ?thesis by (auto simp: alloc_result_def)
  next
    fix error leaf'
    assume a: "attempt_leaf hmp bref radix iter (env n) = Some (error, hmp, leaf', ?key)"
      and s: "leaf_stopped hmp ?key radix (fi_relaxed iter) (env n) error leaf'"
    let ?h = "leaf_put ?key leaf' hmp"
    note st = try_alloc_stops [OF ok refl a s]
    have e: "error \<noteq> 0" "error \<in> {HAMMER2_ERROR_EIO, HAMMER2_ERROR_ENOSPC, fe_modify (env n), fe_modify2 (env n)}"
      and ef: "env_works (env n) \<Longrightarrow> (error = HAMMER2_ERROR_ENOSPC \<and> fi_relaxed iter \<longrightarrow> \<not> leaf_room leaf' radix) \<and>
        (error = HAMMER2_ERROR_EIO \<longrightarrow> fl_error leaf' \<noteq> 0) \<and> fl_error leaf' = fl_error (leaf_view hmp ?key) \<and>
        fl_bmdata leaf' = fl_bmdata (leaf_view hmp ?key)"
      using s unfolding leaf_stopped_def env_works_def by blast+
    have v: "leaf_view ?h k = (if k = ?key then leaf' else leaf_view hmp k)" for k by (simp add: leaf_view_put [where hmp = hmp])
    then have vk: "leaf_view ?h ?key = leaf'" by simp
    have same: "(\<forall>n. env_works (env n)) \<longrightarrow> same_leaves hmp ?h" using ef by (simp add: same_leaves_def v)
    show ?thesis
    proof (cases "error = HAMMER2_ERROR_ENOSPC")
      case False
      have "error \<in> {HAMMER2_ERROR_ENOSPC, HAMMER2_ERROR_EIO} \<union> env_errors env" using e(2) by (auto simp: env_errors_def)
      moreover have "\<exists>k. fl_error (leaf_view ?h k) \<noteq> 0" if "env_works (env n)" "error = HAMMER2_ERROR_EIO"
        using ef [OF that(1)] that(2) vk by metis
      ultimately have "alloc_result hmp bref radix env error ?h bref"
        using st(2,3) e(1) False same unfolding alloc_result_def by simp
      moreover have "error \<noteq> HAMMER2_ERROR_EAGAIN" using e(2) env by (auto simp: env_ok_def)
      ultimately show ?thesis using st(1) False by simp
    next
      case True
      have "(\<forall>n. env_works (env n)) \<and> fi_relaxed iter \<longrightarrow> \<not> leaf_room leaf' radix" using ef True by blast
      from loop_turn_enospc [OF lo st(2,3) refl this same, of bref] obtain error2 iter'
        where "hammer2_freemap_iterate hmp iter = (error2, iter')" and
          o: "error2 \<noteq> HAMMER2_ERROR_EAGAIN \<and> alloc_result hmp bref radix env error2 ?h bref \<or>
            error2 = HAMMER2_ERROR_EAGAIN \<and> loop_ok ?h radix iter' env \<and> fi_measure iter' < fi_measure iter"
        by blast
      then have "hammer2_freemap_try_alloc hmp bref radix iter (env n) = Some (error2, ?h, bref, iter')"
        using st(1) True by simp
      then show ?thesis using o st(3) same leaf_put_static by blast
    qed
  qed
qed

lemma alloc_loop_spec:
  assumes req: "bref_ok bref radix" and env: "\<And>n. env_ok (env n)"
  shows "loop_ok hmp radix iter env \<Longrightarrow> \<exists>error hmp' bref' iter'.
    freemap_alloc_loop hmp bref radix iter env n = Some (error, hmp', bref', iter') \<and> dev_static hmp hmp' \<and>
    alloc_result hmp bref radix env error hmp' bref'"
proof (induction "fi_measure iter" arbitrary: hmp iter n rule: less_induct)
  case less
  obtain error hmp1 bref1 iter1 where t: "hammer2_freemap_try_alloc hmp bref radix iter (env n) = Some (error, hmp1, bref1, iter1)"
      "dev_static hmp hmp1"
      "error \<noteq> HAMMER2_ERROR_EAGAIN \<and> alloc_result hmp bref radix env error hmp1 bref1 \<or>
       error = HAMMER2_ERROR_EAGAIN \<and> bref1 = bref \<and> media_le hmp1 hmp \<and> loop_ok hmp1 radix iter1 env \<and>
       ((\<forall>n. env_works (env n)) \<longrightarrow> same_leaves hmp hmp1) \<and> fi_measure iter1 < fi_measure iter"
    using loop_turn [where env = env and n = n, OF req env less.prems] by (elim exE conjE) (rule that)
  show ?case
  proof (cases "error = HAMMER2_ERROR_EAGAIN")
    case False
    then have "freemap_alloc_loop hmp bref radix iter env n = Some (error, hmp1, bref1, iter1)"
      using t(1) by (subst freemap_alloc_loop.simps) simp
    moreover have "alloc_result hmp bref radix env error hmp1 bref1" using t(3) False by blast
    ultimately show ?thesis using t(2) by blast
  next
    case True
    then have n: "bref1 = bref" "media_le hmp1 hmp" "loop_ok hmp1 radix iter1 env" "fi_measure iter1 < fi_measure iter"
        "(\<forall>n. env_works (env n)) \<longrightarrow> same_leaves hmp hmp1"
      using t(3) by simp_all
    obtain error2 hmp2 bref2 iter2 where
      i: "freemap_alloc_loop hmp1 bref radix iter1 env (Suc n) = Some (error2, hmp2, bref2, iter2)"
        "dev_static hmp1 hmp2" "alloc_result hmp1 bref radix env error2 hmp2 bref2"
      using less.hyps [OF n(4,3)] by blast
    have "freemap_alloc_loop hmp bref radix iter env n = Some (error2, hmp2, bref2, iter2)"
      using t(1) True n(1) i(1) by (subst freemap_alloc_loop.simps) simp
    then show ?thesis using dev_static_trans [OF t(2) i(2)] alloc_result_le [OF n(2) t(2) i(3) n(5)] by blast
  qed
qed

lemma hindex_less: "freemap_hindex t < 32"
proof -
  have m: "(31 :: nat) = mask 5" by (simp add: mask_eq_exp_minus_1)
  have "x AND 31 < 32" for x :: nat
    unfolding m take_bit_eq_mask [symmetric] using take_bit_nat_less_exp [of 5 x] by simp
  then show ?thesis unfolding freemap_hindex_def by simp
qed

lemma iter_start_ok:
  assumes "freemap_ok hmp"
  shows "loop_ok hmp radix (freemap_iter_start hmp h) env"
proof -
  have t: "0 < unat (hmp_total_size hmp)" using assms by (simp add: freemap_ok_def dev_geometry_def)
  then have "unat (hmp_total_size hmp - 1) \<le> unat (hmp_total_size hmp)" by (simp add: unat_sub word_le_nat_alt)
  then have "unat (fi_bnext (freemap_iter_start hmp h)) \<le> unat (hmp_total_size hmp)"
    by (auto simp: freemap_iter_start_def Let_def word_less_nat_alt not_less)
  moreover have "wraps (freemap_iter_start hmp h) \<noteq> 1" "fi_loops (freemap_iter_start hmp h) = 0"
    by (simp_all add: wraps_def freemap_iter_start_def Let_def)
  ultimately show ?thesis using assms by (simp add: loop_ok_def)
qed

text \<open>The counters and heuristics updated at the end are of no concern to the invariant.\<close>

definition heur_update :: "hammer2_dev \<Rightarrow> hammer2_dev \<Rightarrow> bool" where
  "heur_update hmp hmp' \<longleftrightarrow> (\<exists>d m r h. length h = length (hmp_heur_freemap hmp) \<and>
     hmp' = hmp\<lparr> alloc_data_bytes := d, alloc_meta_bytes := m, hmp_freemap_relaxed := r, hmp_heur_freemap := h \<rparr>)"

lemma heur_update_ok:
  assumes "heur_update hmp hmp'"
  shows "freemap_ok hmp' = freemap_ok hmp" "leaf_view hmp' k = leaf_view hmp k" "media_avail hmp' x = media_avail hmp x"
proof -
  show v: "leaf_view hmp' k = leaf_view hmp k" for k
    using assms by (auto simp: heur_update_def leaf_view_def leaf_fresh_def split: option.split)
  then show "media_avail hmp' x = media_avail hmp x" by (simp add: media_avail_def)
  have su: "seg_usable hmp' = seg_usable hmp" and g: "dev_geometry hmp' = dev_geometry hmp"
    using assms by (auto simp: heur_update_def seg_usable_def seg_backed_def dev_geometry_def)
  have "leaf_ok hmp' = leaf_ok hmp" by (intro ext) (simp add: leaf_ok_def bmdata_ok_def entry_ok_def su)
  then show "freemap_ok hmp' = freemap_ok hmp"
    using assms g by (auto simp: freemap_ok_def heur_update_def io_inv_def io_room_def)
qed

lemma alloc_result_heur:
  assumes "heur_update hmp1 hmp'"
  shows "alloc_result hmp bref radix env error hmp' bref' = alloc_result hmp bref radix env error hmp1 bref'"
proof -
  note h = heur_update_ok [OF assms]
  have "media_le hmp' hmp = media_le hmp1 hmp" "\<And>blk. block_taken hmp radix blk hmp' = block_taken hmp radix blk hmp1"
    "\<And>b. no_room_below hmp' radix b = no_room_below hmp1 radix b" "same_leaves hmp hmp' = same_leaves hmp hmp1"
    by (simp_all add: media_le_def block_taken_def no_room_below_def same_leaves_def h)
  then show ?thesis unfolding alloc_result_def h by simp
qed

lemma freemap_alloc_spec:
  assumes ok: "freemap_ok hmp" and req: "bref_ok bref radix" and env: "\<And>n. env_ok (env n)"
  shows "\<exists>error hmp' bref'. hammer2_freemap_alloc hmp bref (2 ^ radix) env = Some (error, hmp', bref') \<and>
    alloc_result hmp bref radix env error hmp' bref'"
proof -
  have r: "10 \<le> radix" "radix \<le> 16" using req by (simp_all add: bref_ok_def)
  have b: "(1024 :: nat) \<le> 2 ^ radix" "(2 :: nat) ^ radix \<le> 65536"
    using power_increasing [OF r(1), of "2 :: nat"] power_increasing [OF r(2), of "2 :: nat"] by simp_all
  let ?h = "freemap_hindex (br_type bref)"
  obtain error hmp1 bref1 iter1 where l: "freemap_alloc_loop hmp bref radix (freemap_iter_start hmp ?h) env 0 =
      Some (error, hmp1, bref1, iter1)" "dev_static hmp hmp1" "alloc_result hmp bref radix env error hmp1 bref1"
    using alloc_loop_spec [where env = env, OF req env iter_start_ok [OF ok]] by blast
  let ?c = "if error = 0 then freemap_count_bytes bref1 (2 ^ radix) hmp1 else hmp1"
  let ?f = "?c\<lparr> hmp_freemap_relaxed := hmp_freemap_relaxed ?c \<or> fi_relaxed iter1,
    hmp_heur_freemap := (hmp_heur_freemap ?c)[?h := fi_bnext iter1] \<rparr>"
  have "hammer2_freemap_alloc hmp bref (2 ^ radix) env = Some (error, ?f, bref1)"
    using ok req b hindex_less [of "br_type bref"] l(1)
    by (auto simp: hammer2_freemap_alloc_def getradix_pow freemap_ok_def bref_ok_def Let_def)
  moreover have "heur_update hmp1 ?f"
    unfolding heur_update_def
    by (intro exI [of _ "alloc_data_bytes ?c"] exI [of _ "alloc_meta_bytes ?c"]
        exI [of _ "hmp_freemap_relaxed ?c \<or> fi_relaxed iter1"] exI [of _ "(hmp_heur_freemap ?c)[?h := fi_bnext iter1]"])
      (simp add: freemap_count_bytes_def)
  ultimately show ?thesis using alloc_result_heur l(3) by blast
qed

lemma alloc_result_block:
  assumes "alloc_result hmp bref radix env error hmp' bref'" "error = 0"
  obtains blk where "br_data_off bref' = of_nat blk OR of_nat radix" "block_taken hmp radix blk hmp'"
proof -
  have "\<exists>blk. bref' = bref\<lparr> br_data_off := of_nat blk OR of_nat radix \<rparr> \<and> block_taken hmp radix blk hmp'"
    using assms by (simp add: alloc_result_def)
  then obtain blk where b: "bref' = bref\<lparr> br_data_off := of_nat blk OR of_nat radix \<rparr>" "block_taken hmp radix blk hmp'"
    by (elim exE conjE)
  have "br_data_off bref' = of_nat blk OR of_nat radix" unfolding b(1) by simp
  then show ?thesis using b(2) by (rule that)
qed

lemma block_taken_disjoint:
  assumes "block_taken hmp radix1 blk1 hmp1" "block_taken hmp1 radix2 blk2 hmp2"
  shows "{blk1 ..< blk1 + 2 ^ radix1} \<inter> {blk2 ..< blk2 + 2 ^ radix2} = {}"
proof -
  have "\<not> media_avail hmp1 x" if "x \<in> {blk1 ..< blk1 + 2 ^ radix1}" for x
    using assms(1) that by (simp add: block_taken_def)
  moreover have "media_avail hmp1 x" if "x \<in> {blk2 ..< blk2 + 2 ^ radix2}" for x
    using assms(2) that by (simp add: block_taken_def)
  ultimately show ?thesis by blast
qed

text \<open>The bytes a block reference of size \<open>2 ^ radix\<close> names.\<close>

definition bref_bytes :: "hammer2_blockref \<Rightarrow> nat \<Rightarrow> nat set" where
  "bref_bytes bref radix = {unat (data_off_lbase (br_data_off bref)) ..< unat (data_off_lbase (br_data_off bref)) + 2 ^ radix}"

lemma block_taken_bytes:
  assumes "br_data_off bref' = of_nat blk OR of_nat radix" "block_taken hmp radix blk hmp'" "bref_ok bref radix"
  shows "bref_bytes bref' radix = {blk ..< blk + 2 ^ radix}"
proof -
  have "blk + 2 ^ radix \<le> unat (hmp_total_size hmp)" "blk mod 1024 = 0" using assms(2) by (simp_all add: block_taken_def)
  moreover have "unat (hmp_total_size hmp) < 2 ^ 64" using unsigned_less [of "hmp_total_size hmp"] by simp
  ultimately have u: "unat (of_nat blk :: u64) = blk" by (intro unat_of_nat_small) simp
  moreover have "radix < 64" using assms(3) by (simp add: bref_ok_def)
  ultimately have "data_off_lbase (of_nat blk OR of_nat radix) = of_nat blk"
    using \<open>blk mod 1024 = 0\<close> by (intro or_radix(2)) simp_all
  with u show ?thesis by (simp add: bref_bytes_def assms(1))
qed

lemma freemap_alloc_room:
  assumes "freemap_ok hmp" "bref_ok bref radix" "\<And>n. env_ok (env n)" "\<And>n. env_works (env n)"
    and "\<And>k. fl_error (leaf_view hmp k) = 0"
  shows "\<exists>error hmp' bref'. hammer2_freemap_alloc hmp bref (2 ^ radix) env = Some (error, hmp', bref') \<and>
    (error = 0 \<or> error = HAMMER2_ERROR_ENOSPC \<and> no_room_below hmp radix (unat (hmp_total_size hmp)) \<and> same_leaves hmp hmp')"
proof -
  obtain error hmp' bref' where a: "hammer2_freemap_alloc hmp bref (2 ^ radix) env = Some (error, hmp', bref')"
      "alloc_result hmp bref radix env error hmp' bref'"
    using freemap_alloc_spec [where env = env, OF assms(1-3)] by blast
  have "env_errors env \<subseteq> {0}" using assms(4) by (auto simp: env_errors_def env_works_def)
  moreover have "error = 0 \<or> error \<in> {HAMMER2_ERROR_ENOSPC, HAMMER2_ERROR_EIO} \<union> env_errors env"
    using a(2) by (auto simp: alloc_result_def)
  ultimately consider "error = 0" | "error = HAMMER2_ERROR_ENOSPC" | "error = HAMMER2_ERROR_EIO" by blast
  then have "error = 0 \<or> error = HAMMER2_ERROR_ENOSPC \<and> no_room_below hmp radix (unat (hmp_total_size hmp)) \<and> same_leaves hmp hmp'"
  proof cases
    case 2
    then have s: "same_leaves hmp hmp'" "no_room_below hmp' radix (unat (hmp_total_size hmp))"
      using a(2) assms(4) by (simp_all add: alloc_result_def)
    then show ?thesis using 2 same_leaves_room [OF s(1)] by (simp add: no_room_below_def)
  next
    case 3
    then have "\<exists>k. fl_error (leaf_view hmp' k) \<noteq> 0" "same_leaves hmp hmp'"
      using a(2) assms(4) by (simp_all add: alloc_result_def)
    then show ?thesis using assms(5) by (simp add: same_leaves_def)
  qed simp
  with a(1) show ?thesis by blast
qed

subsection \<open>An example device\<close>

lemma ex_dev_volume:
  assumes "x < 1073741824 + 8388608"
  shows "\<exists>vol. hammer2_get_volume (hmp_volumes ex_dev) x = Some (Some vol)"
proof -
  have "x AND NOT 63 \<le> x" by (rule word_and_le2)
  with assms have "x AND NOT 63 < 1073741824 + 8388608" by simp
  then show ?thesis
    by (cases "x AND NOT 63 < 1073741824") (simp_all add: hammer2_get_volume_def ex_dev_def ex_volumes_def ex_devvp_def Let_def not_less)
qed

lemma ex_dev_geometry: "dev_geometry ex_dev"
proof -
  have t: "unat (hmp_total_size ex_dev) = 1082130432" "vd_allocator_beg (hmp_voldata ex_dev) = 4194304"
    by (simp_all add: ex_dev_def)
  have "seg_backed ex_dev base" if b: "base \<noteq> 0" "base AND HAMMER2_SEGMASK = 0" "unat base + 4194304 \<le> 1082130432" for base
  proof -
    have "\<exists>vol. hammer2_get_volume (hmp_volumes ex_dev) (base + of_nat (65536 * o')) = Some (Some vol)" if "o' < 64" for o'
    proof (rule ex_dev_volume)
      have "unat (of_nat (65536 * o') :: u64) = 65536 * o'" using that by (intro unat_of_nat_small) simp
      then have "unat (base + of_nat (65536 * o')) = unat base + 65536 * o'" using that b(3) by (simp add: unat_word_ariths)
      then show "base + of_nat (65536 * o') < 1073741824 + 8388608" using that b(3) by (simp add: word_less_nat_alt)
    qed
    with b show ?thesis by (simp add: seg_backed_def)
  qed
  then show ?thesis by (simp add: dev_geometry_def t)
qed

lemma ex_dev_ok: "freemap_ok ex_dev"
  using ex_dev_inv ex_dev_geometry by (simp add: freemap_ok_def) (simp add: ex_dev_def)

definition ex_bref :: hammer2_blockref where
  "ex_bref = blockref_zero\<lparr> br_type := HAMMER2_BREF_TYPE_DATA \<rparr>"

definition ex_env :: "nat \<Rightarrow> freemap_env" where
  "ex_env n = \<lparr> fe_create = 0, fe_modify = 0, fe_modify2 = 0, fe_newnz = BlkErr 5 \<rparr>"

lemma ex_request: "bref_ok ex_bref 14" "env_ok (ex_env n)" "env_works (ex_env n)"
  by (simp_all add: bref_ok_def ex_bref_def blockref_zero_def env_ok_def ex_env_def env_works_def res_ok_def)

lemma ex_dev_view: "leaf_view ex_dev k = leaf_fresh ex_dev k"
  by (simp add: leaf_view_def) (simp add: ex_dev_def)

lemma ex_dev_room: "leaf_room (leaf_view ex_dev 0) 14"
proof -
  obtain bm where bm: "fl_bmdata (leaf_fresh ex_dev 0) = Some bm"
    "\<And>n. n < 256 \<Longrightarrow> bm ! n =
      (if seg_base 0 n < freemap_lokey (vd_allocator_beg (hmp_voldata ex_dev)) 0 \<or>
          freemap_hikey (hmp_total_size ex_dev) 0 \<le> seg_base 0 n then bmap_full else bmap_fresh)"
    by (rule leaf_fresh_data) blast
  have "bm ! 1 = bmap_fresh"
    using bm(2) [of 1] by (simp add: seg_base_def freemap_lokey_def freemap_hikey_def Let_def H2FMBASE_def H2FMZONEBASE_def ex_dev_def)
  then have "bmap_can_alloc (bm ! 1) 14" using fresh_run by (auto simp: bmap_can_alloc_def)
  moreover have "(1 :: nat) < 256" by simp
  ultimately show ?thesis using bm(1) unfolding leaf_room_def ex_dev_view leaf_fresh_flags by blast
qed

lemma ex_dev_some_room: "\<not> no_room_below ex_dev 14 (unat (hmp_total_size ex_dev))"
proof
  assume "no_room_below ex_dev 14 (unat (hmp_total_size ex_dev))"
  moreover have "(0 :: u64) AND HAMMER2_FREEMAP_LEVEL1_MASK = 0" "unat (0 :: u64) < unat (hmp_total_size ex_dev)"
    by (simp_all add: ex_dev_def)
  ultimately show False using ex_dev_room unfolding no_room_below_def by blast
qed

lemma ex_dev_no_error: "fl_error (leaf_view ex_dev k) = 0"
  by (simp add: ex_dev_view)

lemma ex_alloc: "\<exists>hmp' bref'. hammer2_freemap_alloc ex_dev ex_bref 16384 ex_env = Some (0, hmp', bref')"
proof -
  have "(2 :: nat) ^ 14 = 16384" by simp
  then show ?thesis
    using freemap_alloc_room [where env = ex_env, OF ex_dev_ok ex_request ex_dev_no_error] ex_dev_some_room by metis
qed



text \<open>C7: Blocks handed out one after the other do not overlap.\<close>

theorem freemap_alloc_disjoint:
  assumes "freemap_ok hmp" "bref_ok bref1 radix1" "bref_ok bref2 radix2" "\<And>n. env_ok (env1 n)" "\<And>n. env_ok (env2 n)"
    and "hammer2_freemap_alloc hmp bref1 (2 ^ radix1) env1 = Some (0, hmp1, bref1')"
  shows "\<exists>error hmp2 bref2'. hammer2_freemap_alloc hmp1 bref2 (2 ^ radix2) env2 = Some (error, hmp2, bref2') \<and>
    (error = 0 \<longrightarrow> bref_bytes bref1' radix1 \<inter> bref_bytes bref2' radix2 = {})"
proof -
  have 1: "alloc_result hmp bref1 radix1 env1 0 hmp1 bref1'"
    using freemap_alloc_spec [where env = env1, OF assms(1,2,4)] assms(6) by simp
  then have ok1: "freemap_ok hmp1" by (simp add: alloc_result_def)
  obtain error hmp2 bref2' where 2: "hammer2_freemap_alloc hmp1 bref2 (2 ^ radix2) env2 = Some (error, hmp2, bref2')"
      "alloc_result hmp1 bref2 radix2 env2 error hmp2 bref2'"
    using freemap_alloc_spec [where env = env2, OF ok1 assms(3,5)] by blast
  have "bref_bytes bref1' radix1 \<inter> bref_bytes bref2' radix2 = {}" if e: "error = 0"
  proof -
    obtain blk1 where b1: "br_data_off bref1' = of_nat blk1 OR of_nat radix1" "block_taken hmp radix1 blk1 hmp1"
      using 1 by (rule alloc_result_block) simp
    obtain blk2 where b2: "br_data_off bref2' = of_nat blk2 OR of_nat radix2" "block_taken hmp1 radix2 blk2 hmp2"
      using 2(2) e by (rule alloc_result_block)
    show ?thesis
      unfolding block_taken_bytes [OF b1 assms(2)] block_taken_bytes [OF b2 assms(3)]
      by (rule block_taken_disjoint [OF b1(2) b2(2)])
  qed
  with 2(1) show ?thesis by blast
qed

theorem freemap_alloc_disjoint_witness:
  "\<exists>hmp1 bref1' error hmp2 bref2'. hammer2_freemap_alloc ex_dev ex_bref 16384 ex_env = Some (0, hmp1, bref1') \<and>
     hammer2_freemap_alloc hmp1 ex_bref 16384 ex_env = Some (error, hmp2, bref2')"
proof -
  obtain hmp1 bref1' where 1: "hammer2_freemap_alloc ex_dev ex_bref 16384 ex_env = Some (0, hmp1, bref1')"
    using ex_alloc by blast
  then have "hammer2_freemap_alloc ex_dev ex_bref (2 ^ 14) ex_env = Some (0, hmp1, bref1')" by simp
  from freemap_alloc_disjoint [where ?env1.0 = ex_env and ?env2.0 = ex_env, OF ex_dev_ok ex_request(1,1,2,2) this]
  obtain error hmp2 bref2' where "hammer2_freemap_alloc hmp1 ex_bref (2 ^ 14) ex_env = Some (error, hmp2, bref2')"
    by (elim exE conjE) (rule that)
  moreover have "(2 :: nat) ^ 14 = 16384" by simp
  ultimately show ?thesis using 1 by metis
qed

text \<open>C4: The allocator misses no room.  When the chain layer works and no leaf is in error, an
  allocation succeeds as soon as some leaf below the end of the media has room for the radix; it
  answers \<open>ENOSPC\<close> only when no leaf has, and then leaves every leaf's bitmap as it was.\<close>

theorem freemap_alloc_complete:
  assumes "freemap_ok hmp" "bref_ok bref radix" "\<And>n. env_ok (env n)" "\<And>n. env_works (env n)"
    and "\<And>k. fl_error (leaf_view hmp k) = 0"
  shows "\<exists>error hmp' bref'. hammer2_freemap_alloc hmp bref (2 ^ radix) env = Some (error, hmp', bref') \<and>
    (error = 0 \<or> error = HAMMER2_ERROR_ENOSPC \<and> no_room_below hmp radix (unat (hmp_total_size hmp)) \<and> same_leaves hmp hmp')"
  using assms by (rule freemap_alloc_room)

theorem freemap_alloc_complete_witness:
  "\<exists>hmp' bref'. hammer2_freemap_alloc ex_dev ex_bref 16384 ex_env = Some (0, hmp', bref')"
proof -
  have "(2 :: nat) ^ 14 = 16384" by simp
  then show ?thesis
    using freemap_alloc_complete [where env = ex_env, OF ex_dev_ok ex_request ex_dev_no_error] ex_dev_some_room by metis
qed

end
