(* ===== verification/Hammer2_Recover.thy ===== *)
theory Hammer2_Recover
  imports Hammer2_Alloc
begin

text \<open>
  The rest of \<^verbatim>\<open>hammer2_freemap.c\<close>: the rotation of the blocks the freemap itself is kept in
  (\<open>hammer2_freemap_reserve\<close>), what a new leaf says is free (\<open>hammer2_freemap_init\<close>) and the marking of
  blocks met by the recovery scan of a mount (\<open>hammer2_freemap_adjust\<close>).  The lemmas work with the
  16KB chunks a block covers; two of the properties show blocks recovery leaves to the allocator.
\<close>

unbundle bit_operations_syntax

subsection \<open>The rotation of the reserved blocks\<close>

text \<open>Copy \<open>i\<close> of the reserved block of the group's slot \<open>slot\<close>, and \<open>n\<close> reservations in a row.\<close>

definition reserved_block :: "hammer2_key_t \<Rightarrow> nat \<Rightarrow> nat \<Rightarrow> nat \<Rightarrow> hammer2_off_t" where
  "reserved_block key level_radix slot i = H2FMBASE key level_radix + of_nat ((i * 5 + 1 + slot) * 65536)"

fun reserve_times ::
    "nat \<Rightarrow> 'a hammer2_iodev_scheme \<Rightarrow> hammer2_blockref \<Rightarrow> (h2error \<times> 'a hammer2_iodev_scheme \<times> hammer2_blockref) option" where
  "reserve_times 0 hmp bref = Some (0, hmp, bref)"
| "reserve_times (Suc n) hmp bref = do {
     (error, hmp, bref) \<leftarrow> reserve_times n hmp bref;
     if error \<noteq> 0 then Some (error, hmp, bref) else hammer2_freemap_reserve hmp bref 15 }"

lemma freemap_level_slot: "freemap_level kb = Some (t, lr, slot) \<Longrightarrow> slot < 5 \<and> 30 \<le> lr \<and> lr < 64"
  by (auto simp: freemap_level_def split: if_splits)

lemma unat_reserved_block:
  assumes "22 \<le> lr" "i < 8" "slot < 5"
  shows "unat (reserved_block key lr slot i) = unat (H2FMBASE key lr) + (i * 5 + 1 + slot) * 65536"
    "unat (H2FMBASE key lr) mod 2 ^ 22 = 0"
proof -
  have u: "unat (H2FMBASE key lr) = unat key div 2 ^ lr * 2 ^ lr" by (simp add: H2FMBASE_def unat_and_not_mask)
  have "(2 :: nat) ^ 22 dvd 2 ^ lr" using assms(1) by (rule le_imp_power_dvd)
  then have "(2 :: nat) ^ 22 dvd unat (H2FMBASE key lr)" unfolding u by (rule dvd_mult)
  then show m: "unat (H2FMBASE key lr) mod 2 ^ 22 = 0" by simp
  let ?c = "(i * 5 + 1 + slot) * 65536"
  have c: "?c < 2 ^ 22" using assms(2,3) by simp
  then have uc: "unat (of_nat ?c :: u64) = ?c" by (intro unat_of_nat_small) simp
  obtain q where q: "unat (H2FMBASE key lr) = 2 ^ 22 * q" using m by auto
  have "2 ^ 22 * q < 2 ^ 22 * 2 ^ 42" using unsigned_less [of "H2FMBASE key lr", where 'a = nat] q by simp
  then have "q + 1 \<le> 2 ^ 42" by simp
  then have "2 ^ 22 * (q + 1) \<le> 2 ^ 22 * 2 ^ 42" by (rule mult_left_mono) simp
  then have "unat (H2FMBASE key lr) + ?c < 2 ^ 64" using c q by simp
  then show "unat (reserved_block key lr slot i) = unat (H2FMBASE key lr) + ?c"
    unfolding reserved_block_def by (subst unat_word_ariths) (simp only: uc, simp)
qed

lemma reserve_index_first: "freemap_reserve_index 0 = Some 0"
  by (simp add: freemap_reserve_index_def)

lemma reserve_index_next:
  assumes "22 \<le> lr" "i < 8" "slot < 5"
  shows "freemap_reserve_index (reserved_block key lr slot i OR 15) = Some (Suc i mod 8)"
proof -
  let ?b = "reserved_block key lr slot i" and ?c = "(i * 5 + 1 + slot) * 65536"
  note u = unat_reserved_block [OF assms, of key]
  have c: "?c < 2 ^ 22" using assms(2,3) by simp
  obtain q where q: "unat (H2FMBASE key lr) = 2 ^ 22 * q" using u(2) by auto
  have m22: "unat ?b mod 2 ^ 22 = ?c" unfolding u(1) q using c by (simp only: mod_mult_self4 mod_less)
  have "unat ?b = 1024 * (4096 * q + (i * 5 + 1 + slot) * 64)" unfolding u(1) q by simp
  then have "unat ?b mod 1024 = 0" by (metis mod_mult_self1_is_0)
  then have base: "(?b OR 15) AND NOT HAMMER2_OFF_MASK_RADIX = ?b"
    using or_radix(2) [of ?b 15] by (simp add: data_off_lbase_def)
  have seg: "(?b OR 15) AND NOT HAMMER2_OFF_MASK_RADIX AND HAMMER2_SEGMASK = ?b AND HAMMER2_SEGMASK"
    using base by (simp only: and.assoc [symmetric])
  have nz: "?b \<noteq> 0" using m22 by auto
  have "unat (?b AND HAMMER2_SEGMASK) div 65536 = i * 5 + 1 + slot"
    unfolding mask_22 unat_and_mask m22 by simp
  moreover have "(i * 5 + slot) div 5 = i" using assms(3) by simp
  ultimately show ?thesis
    using assms(2,3) nz unfolding freemap_reserve_index_def base seg Let_def by (simp add: mod_if)
qed

lemma reserve_step:
  assumes "freemap_level (br_keybits bref) = Some (br_type bref, lr, slot)" "freemap_reserve_index (br_data_off bref) = Some i"
  shows "hammer2_freemap_reserve hmp bref 15 = Some (0, hmp, bref\<lparr> br_data_off := reserved_block (br_key bref) lr slot i OR 15 \<rparr>)"
  using assms by (simp add: hammer2_freemap_reserve_def reserved_block_def)

lemma mod_8_apart: "m < n \<Longrightarrow> n < m + 8 \<Longrightarrow> m mod 8 < n mod 8 \<or> n mod 8 < m mod (8 :: nat)"
  using mod_eq_dvd_iff_nat [of m n 8] dvd_imp_le [of 8 "n - m"] by (cases "n mod 8" "m mod 8" rule: linorder_cases) auto

lemma ivl_apart: "(a :: nat) + n \<le> b \<or> b + n \<le> a \<Longrightarrow> {a ..< a + n} \<inter> {b ..< b + n} = {}"
  by auto

lemma reserve_times_spec:
  assumes "freemap_level (br_keybits bref) = Some (br_type bref, lr, slot)" "br_data_off bref = 0"
  shows "reserve_times (Suc n) hmp bref = Some (0, hmp, bref\<lparr> br_data_off := reserved_block (br_key bref) lr slot (n mod 8) OR 15 \<rparr>)"
proof (induction n)
  case 0
  show ?case using reserve_step [OF assms(1), of 0] by (simp add: assms(2) reserve_index_first)
next
  case (Suc n)
  let ?b = "bref\<lparr> br_data_off := reserved_block (br_key bref) lr slot (n mod 8) OR 15 \<rparr>"
  have "freemap_reserve_index (br_data_off ?b) = Some (Suc (n mod 8) mod 8)"
    using freemap_level_slot [OF assms(1)] reserve_index_next [of lr "n mod 8" slot "br_key bref"] by simp
  then have "hammer2_freemap_reserve hmp ?b 15 =
      Some (0, hmp, ?b\<lparr> br_data_off := reserved_block (br_key bref) lr slot (Suc n mod 8) OR 15 \<rparr>)"
    using reserve_step [of ?b lr slot "Suc n mod 8" hmp] assms(1) by (simp add: mod_Suc_eq)
  then show ?case using Suc.IH by simp
qed

text \<open>C17: The freemap's own blocks rotate through eight copies.  From the first reservation on, the
  \<open>n\<close>-th one of a block of the freemap is copy \<open>n mod 8\<close>: it lies in the 4MB reserved area at the base
  of the block's range, past the volume header's copy, and it overwrites none of the seven reservations
  before it.\<close>

theorem freemap_reserve_rotates:
  assumes level: "freemap_level (br_keybits bref) = Some (br_type bref, lr, slot)" "br_data_off bref = 0"
  shows "\<exists>off. (\<forall>n. reserve_times (Suc n) hmp bref = Some (0, hmp, bref\<lparr> br_data_off := off n OR 15 \<rparr>)) \<and>
    (\<forall>n. unat (H2FMBASE (br_key bref) lr) + 65536 \<le> unat (off n) \<and>
       unat (off n) + 32768 \<le> unat (H2FMBASE (br_key bref) lr) + HAMMER2_ZONE_SEG) \<and>
    (\<forall>m n. m < n \<and> n < m + 8 \<longrightarrow>
       {unat (off m) ..< unat (off m) + 32768} \<inter> {unat (off n) ..< unat (off n) + 32768} = {}) \<and>
    (\<forall>n. off (n + 8) = off n)"
proof (intro exI [of _ "\<lambda>n. reserved_block (br_key bref) lr slot (n mod 8)"] conjI allI impI)
  fix m n :: nat
  have s: "slot < 5" "22 \<le> lr" using freemap_level_slot [OF level(1)] by simp_all
  have u: "unat (reserved_block (br_key bref) lr slot (n mod 8)) =
      unat (H2FMBASE (br_key bref) lr) + (n mod 8 * 5 + 1 + slot) * 65536" for n
    by (rule unat_reserved_block(1) [OF s(2) _ s(1)]) simp
  show "reserve_times (Suc n) hmp bref = Some (0, hmp, bref\<lparr> br_data_off := reserved_block (br_key bref) lr slot (n mod 8) OR 15 \<rparr>)"
    by (rule reserve_times_spec [OF level])
  show "unat (H2FMBASE (br_key bref) lr) + 65536 \<le> unat (reserved_block (br_key bref) lr slot (n mod 8))"
    by (simp add: u)
  obtain k where k: "n mod 8 = k" "k < 8" by simp
  show "unat (reserved_block (br_key bref) lr slot (n mod 8)) + 32768 \<le> unat (H2FMBASE (br_key bref) lr) + HAMMER2_ZONE_SEG"
    using s(1) k(2) unfolding u unfolding k(1) by simp
  show "reserved_block (br_key bref) lr slot ((n + 8) mod 8) = reserved_block (br_key bref) lr slot (n mod 8)" by simp
  assume mn: "m < n \<and> n < m + 8"
  obtain j where j: "m mod 8 = j" "j < 8" by simp
  have "j < k \<or> k < j" using mod_8_apart [of m n] mn j(1) k(1) by simp
  then have "(j * 5 + 1 + slot) * 65536 + 32768 \<le> (k * 5 + 1 + slot) * 65536 \<or>
      (k * 5 + 1 + slot) * 65536 + 32768 \<le> (j * 5 + 1 + slot) * 65536" by auto
  then show "{unat (reserved_block (br_key bref) lr slot (m mod 8)) ..< unat (reserved_block (br_key bref) lr slot (m mod 8)) + 32768} \<inter>
      {unat (reserved_block (br_key bref) lr slot (n mod 8)) ..< unat (reserved_block (br_key bref) lr slot (n mod 8)) + 32768} = {}"
    unfolding u unfolding j(1) k(1) by (intro ivl_apart) linarith
qed

theorem freemap_reserve_rotates_witness:
  "\<exists>off. reserve_times 10 ex_dev (blockref_zero\<lparr> br_type := HAMMER2_BREF_TYPE_FREEMAP_LEAF, br_keybits := 30 \<rparr>) =
     Some (0, ex_dev, blockref_zero\<lparr> br_type := HAMMER2_BREF_TYPE_FREEMAP_LEAF, br_keybits := 30, br_data_off := off \<rparr>)"
proof -
  let ?b = "blockref_zero\<lparr> br_type := HAMMER2_BREF_TYPE_FREEMAP_LEAF, br_keybits := 30 \<rparr>"
  have "freemap_level (br_keybits ?b) = Some (br_type ?b, 30, 0)" "br_data_off ?b = 0"
    by (simp_all add: freemap_level_def blockref_zero_def)
  from freemap_reserve_rotates [OF this, of ex_dev] obtain off
    where "\<forall>n. reserve_times (Suc n) ex_dev ?b = Some (0, ex_dev, ?b\<lparr> br_data_off := off n OR 15 \<rparr>)"
    by (elim exE conjE) (rule that)
  then have "reserve_times (Suc 9) ex_dev ?b = Some (0, ex_dev, ?b\<lparr> br_data_off := off 9 OR 15 \<rparr>)" by (rule spec)
  moreover have "(10 :: nat) = Suc 9" by simp
  ultimately show ?thesis by metis
qed

subsection \<open>What a new leaf says is free\<close>

lemma lokey_iff:
  assumes beg: "unat beg < 2 ^ 63" and key: "key AND HAMMER2_FREEMAP_LEVEL1_MASK = 0" "unat key < 2 ^ 63" and n: "n < 256"
  shows "freemap_lokey beg key \<le> seg_base key n \<longleftrightarrow> n \<noteq> 0 \<and> unat beg \<le> unat key + n * 4194304"
proof -
  let ?l = "(beg + HAMMER2_SEGMASK) AND NOT HAMMER2_SEGMASK"
  have u: "unat (seg_base key n) = unat key + n * 4194304" by (rule unat_seg_base [OF key(2) n])
  obtain q where q: "unat key = 2 ^ 30 * q" using aligned_base(3) [OF key(1)] by auto
  have e: "unat (seg_base key n) = (256 * q + n) * 4194304" by (simp add: u q)
  have "unat (beg + 4194303) = unat beg + 4194303" using beg by (simp add: unat_word_ariths)
  then have l: "unat ?l = (unat beg + 4194303) div 4194304 * 4194304" unfolding mask_22 unat_and_not_mask by simp
  have "?l \<le> seg_base key n \<longleftrightarrow> (unat beg + 4194303) div 4194304 \<le> 256 * q + n"
    unfolding word_le_nat_alt l e by (rule mult_le_cancel2 [THEN trans]) simp
  also have "\<dots> \<longleftrightarrow> unat beg \<le> (256 * q + n) * 4194304"
    by (simp only: less_Suc_eq_le [symmetric] div_less_iff_less_mult zero_less_numeral mult_Suc) linarith
  finally have 1: "?l \<le> seg_base key n \<longleftrightarrow> unat beg \<le> unat key + n * 4194304" unfolding e [symmetric] u .
  have "unat (key + 4194304) = unat key + 4194304" using key(2) by (simp add: unat_word_ariths)
  then have 2: "key + HAMMER2_ZONE_SEG \<le> seg_base key n \<longleftrightarrow> n \<noteq> 0" by (auto simp: word_le_nat_alt u)
  have 3: "key \<le> seg_base key n" by (simp add: word_le_nat_alt u)
  show ?thesis
    unfolding freemap_lokey_def Let_def aligned_base(1,2) [OF key(1)] using 1 2 3 by (auto simp: not_less)
qed

lemma hikey_iff:
  assumes t63: "unat tot < 2 ^ 63" and key: "unat key < 2 ^ 63" "unat key mod 2 ^ 30 = 0" and n: "n < 256"
  shows "seg_base key n < freemap_hikey tot key \<longleftrightarrow> unat key + n * 4194304 + 4194304 \<le> unat tot"
proof
  assume "seg_base key n < freemap_hikey tot key"
  from hikey_bound [OF t63 key n this] show "unat key + n * 4194304 + 4194304 \<le> unat tot"
    by (simp add: unat_seg_base [OF key(1) n])
next
  assume le: "unat key + n * 4194304 + 4194304 \<le> unat tot"
  have k: "unat (key + 1073741824) = unat key + 1073741824" using key(1) by (simp add: unat_word_ariths)
  obtain q where q: "unat key = 2 ^ 30 * q" using key(2) by auto
  have "Suc (256 * q + n) * 4194304 \<le> unat tot" using le q by simp
  then have "256 * q + n < unat tot div 4194304" by (simp add: less_eq_div_iff_mult_less_eq Suc_le_eq [symmetric])
  then have "(256 * q + n) * 4194304 < unat tot div 4194304 * 4194304" by simp
  then have "unat (seg_base key n) < unat tot div 4194304 * 4194304" by (simp add: unat_seg_base [OF key(1) n] q)
  then show "seg_base key n < freemap_hikey tot key"
    using n unfolding freemap_hikey_def mask_22 word_less_nat_alt
    by (simp add: unat_and_not_mask k unat_seg_base [OF key(1) n])
qed

lemma init_loop_avail:
  "snd (freemap_init_loop key lo hi av bms) =
     av - of_nat (4194304 * card {n. n < length bms \<and> (seg_base key n < lo \<or> hi \<le> seg_base key n)})"
proof (induction bms arbitrary: key av)
  case (Cons b bms)
  let ?bad = "\<lambda>key n. seg_base key n < lo \<or> hi \<le> seg_base key n"
  have sb: "seg_base (key + 4194304) m = seg_base key (Suc m)" for m by (simp add: seg_base_def algebra_simps)
  have "{n. n < length (b # bms) \<and> ?bad key n} =
      (if ?bad key 0 then {0} else {}) \<union> Suc ` {n. n < length bms \<and> ?bad key (Suc n)}"
    by (auto simp: image_iff less_Suc_eq_0_disj)
  then have "card {n. n < length (b # bms) \<and> ?bad key n} =
      (if ?bad key 0 then 1 else 0) + card {n. n < length bms \<and> ?bad key (Suc n)}"
    by (simp only:) (subst card_Un_disjoint, auto simp: card_image)
  then show ?case
    using Cons.IH [of "key + 4194304"] by (simp add: Let_def case_prod_unfold sb seg_base_def algebra_simps)
qed simp

text \<open>Segment \<open>n\<close> of the leaf for \<open>key\<close> holds no reserved area, no static allocation and lies inside the
  filesystem.\<close>

definition seg_initially_free :: "hammer2_dev \<Rightarrow> hammer2_key_t \<Rightarrow> nat \<Rightarrow> bool" where
  "seg_initially_free hmp key n \<longleftrightarrow> n \<noteq> 0 \<and> unat (vd_allocator_beg (hmp_voldata hmp)) \<le> unat key + n * HAMMER2_SEGSIZE \<and>
     unat key + n * HAMMER2_SEGSIZE + HAMMER2_SEGSIZE \<le> unat (hmp_total_size hmp)"

lemma leaf_fresh_avail:
  assumes "\<And>n. n < 256 \<Longrightarrow> seg_base key n < freemap_lokey (vd_allocator_beg (hmp_voldata hmp)) key \<or>
    freemap_hikey (hmp_total_size hmp) key \<le> seg_base key n \<longleftrightarrow> \<not> f n"
  shows "unat (fl_avail (leaf_fresh hmp key)) = 4194304 * card {n. n < 256 \<and> f n}"
proof -
  let ?bad = "{n. n < 256 \<and> (seg_base key n < freemap_lokey (vd_allocator_beg (hmp_voldata hmp)) key \<or>
      freemap_hikey (hmp_total_size hmp) key \<le> seg_base key n)}" and ?ok = "{n :: nat. n < 256 \<and> f n}"
  have "?bad \<union> ?ok = {..<256}" "?bad \<inter> ?ok = {}" using assms by auto
  then have c: "card ?bad + card ?ok = 256" by (subst card_Un_disjoint [symmetric]) auto
  have "fl_avail (leaf_fresh hmp key) = 1073741824 - of_nat (4194304 * card ?bad)"
    by (simp add: leaf_fresh_def case_prod_unfold Let_def init_loop_avail)
  also have "\<dots> = of_nat (4194304 * (card ?bad + card ?ok)) - of_nat (4194304 * card ?bad)" unfolding c by simp
  also have "\<dots> = of_nat (4194304 * card ?ok)" by (simp add: algebra_simps)
  finally have "fl_avail (leaf_fresh hmp key) = of_nat (4194304 * card ?ok)" .
  moreover have "4194304 * card ?ok < 2 ^ 64" using c by simp
  then have "unat (of_nat (4194304 * card ?ok) :: u64) = 4194304 * card ?ok" by (intro unat_of_nat_small) simp
  ultimately show ?thesis by (simp only:)
qed

text \<open>C18: A new freemap leaf says the truth.  The entries \<open>hammer2_freemap_init\<close> leaves free are exactly the
  4MB segments past the static allocations, inside the filesystem and not at the base of the leaf's
  gigabyte; all others are full, and the leaf's \<open>avail\<close> is the bytes of the free ones.\<close>

theorem freemap_init_exact:
  assumes "dev_geometry hmp" "key AND HAMMER2_FREEMAP_LEVEL1_MASK = 0" "unat key < 2 ^ 63"
  shows "\<exists>leaf bm. leaf_create hmp key 0 = Some (0, leaf) \<and> fl_bmdata leaf = Some bm \<and> length bm = HAMMER2_FREEMAP_COUNT \<and>
    (\<forall>n < HAMMER2_FREEMAP_COUNT. bm ! n = (if seg_initially_free hmp key n then bmap_fresh else bmap_full)) \<and>
    unat (fl_avail leaf) = HAMMER2_SEGSIZE * card {n. n < HAMMER2_FREEMAP_COUNT \<and> seg_initially_free hmp key n}"
proof -
  have g: "unat (hmp_total_size hmp) < 2 ^ 63" "unat (vd_allocator_beg (hmp_voldata hmp)) < 2 ^ 63"
    using assms(1) by (simp_all add: dev_geometry_def)
  have i: "seg_base key n < freemap_lokey (vd_allocator_beg (hmp_voldata hmp)) key \<or>
      freemap_hikey (hmp_total_size hmp) key \<le> seg_base key n \<longleftrightarrow> \<not> seg_initially_free hmp key n" if "n < 256" for n
    using lokey_iff [OF g(2) assms(2,3) that] hikey_iff [OF g(1) assms(3) aligned_base(3) [OF assms(2)] that]
    unfolding seg_initially_free_def linorder_not_less [symmetric] by blast
  obtain bm where bm: "fl_bmdata (leaf_fresh hmp key) = Some bm" "length bm = 256"
    "\<And>n. n < 256 \<Longrightarrow> bm ! n =
      (if seg_base key n < freemap_lokey (vd_allocator_beg (hmp_voldata hmp)) key \<or>
          freemap_hikey (hmp_total_size hmp) key \<le> seg_base key n then bmap_full else bmap_fresh)"
    by (rule leaf_fresh_data) blast
  show ?thesis
    by (intro exI [of _ "leaf_fresh hmp key"] exI [of _ bm] conjI allI impI leaf_create_fresh bm(1,2))
      (simp_all add: bm(3) i leaf_fresh_avail [OF i])
qed

theorem freemap_init_exact_witness:
  "\<exists>leaf bm. leaf_create ex_dev 0 0 = Some (0, leaf) \<and> fl_bmdata leaf = Some bm \<and> bm ! 0 = bmap_full"
proof -
  have "(0 :: u64) AND HAMMER2_FREEMAP_LEVEL1_MASK = 0" "unat (0 :: u64) < 2 ^ 63" by simp_all
  from freemap_init_exact [OF ex_dev_geometry this]
  obtain leaf bm where "leaf_create ex_dev 0 0 = Some (0, leaf)" "fl_bmdata leaf = Some bm"
      and n: "\<forall>n < 256. bm ! n = (if seg_initially_free ex_dev 0 n then bmap_fresh else bmap_full)"
    by (elim exE conjE) (rule that)
  moreover have "bm ! 0 = bmap_full" using n by (simp add: seg_initially_free_def)
  ultimately show ?thesis by blast
qed

subsection \<open>Recovery\<close>

text \<open>The entry \<open>b'\<close> is \<open>b\<close> with the chunks \<open>c0 ..< c0 + k\<close> marked, and the iterator reset when that
  changed anything.\<close>

definition chunks_marked :: "nat \<Rightarrow> nat \<Rightarrow> hammer2_bmap_data \<Rightarrow> bool \<Rightarrow> hammer2_bmap_data \<Rightarrow> bool" where
  "chunks_marked c0 k b modified b' \<longleftrightarrow> length (bm_bitmapq b') = 8 \<and>
     (\<forall>c < 256. chunk_free b' c \<longleftrightarrow> chunk_free b c \<and> \<not> (c0 \<le> c \<and> c < c0 + k)) \<and>
     unat (bm_avail b') = 16384 * card (free_chunks b') \<and> (if modified then bm_linear b' = 0 else b' = b)"

lemma pair_full_not_free: "p < 32 \<Longrightarrow> q AND push_bit (2 * p) 3 = push_bit (2 * p) 3 \<Longrightarrow> \<not> pair_free q p"
proof -
  assume p: "p < 32" and q: "q AND push_bit (2 * p) 3 = push_bit (2 * p) 3"
  have "bit (push_bit (2 * p) 3 :: u64) (2 * p)" using p by (simp add: bit_push_bit_iff)
  then have "bit (q AND push_bit (2 * p) 3) (2 * p)" using q by simp
  then show "\<not> pair_free q p" by (simp add: pair_free_def bit_and_iff)
qed

lemma chunk_pair: "p < 32 \<Longrightarrow> chunk_free b (32 * i + p) = pair_free (bm_bitmapq b ! i) p"
  by (simp add: chunk_free_def)

lemma avail_dec:
  fixes a :: u32
  assumes "unat a = 16384 * card A" "c \<in> A" "finite A"
  shows "unat (a - 16384) = 16384 * card (A - {c})"
proof -
  have c: "card A = Suc (card (A - {c}))" using assms(2,3) by (rule card.remove [rotated])
  then have "16384 \<le> unat a" using assms(1) by simp
  then have "unat (a - 16384) = unat a - 16384" by (simp add: unat_sub word_le_nat_alt)
  then show ?thesis using assms(1) c by simp
qed

lemma adjust_step:
  assumes len: "length (bm_bitmapq b) = 8" and i: "i < 8" and p: "p < 32"
    and av: "unat (bm_avail b) = 16384 * card (free_chunks b)"
    and b': "b' = b\<lparr> bm_linear := 0, bm_class := cl, bm_avail := (if bm_bitmapq b ! i AND push_bit (2 * p) 3 = 0 then bm_avail b - 16384 else bm_avail b),
      bm_bitmapq := (bm_bitmapq b)[i := bm_bitmapq b ! i OR push_bit (2 * p) 3] \<rparr>"
  shows "chunks_marked (32 * i + p) 1 b True b'"
proof -
  have run: "push_bit (2 * p) 3 = (bitrun (2 * p) (2 * 1) :: u64)" by (simp add: bitrun_2)
  have q: "bm_bitmapq b' = bm_bitmapq (mark_run i p 1 b)" unfolding b' mark_run_def by (simp add: bitrun_2)
  have cf: "chunk_free b' c \<longleftrightarrow> chunk_free b c \<and> \<not> (32 * i + p \<le> c \<and> c < 32 * i + p + 1)" if "c < 256" for c
    using chunk_free_mark_run [OF len i _ that, of p 1] p q by (simp add: chunk_free_def)
  have "free_chunks b' = free_chunks (mark_run i p 1 b)" using q by (simp add: free_chunks_def chunk_free_def)
  then have fc: "free_chunks b' = free_chunks b - {32 * i + p}"
    using free_chunks_mark_run [OF len i, of p 1] p by (simp add: atLeastLessThanSuc)
  have "bm_bitmapq b ! i AND push_bit (2 * p) 3 = 0 \<longleftrightarrow> chunk_free b (32 * i + p)"
    unfolding run using run_free_iff [OF i, of p 1 b] p by (auto simp: less_Suc_eq_le intro: antisym)
  moreover have "32 * i + p < 256" using i p by simp
  ultimately have "unat (bm_avail b') = 16384 * card (free_chunks b - {32 * i + p})"
    using avail_dec [OF av, of "32 * i + p"] av by (auto simp: b' free_chunks_def)
  then show ?thesis using cf fc len by (simp add: chunks_marked_def b')
qed

lemma chunks_marked_trans:
  assumes "chunks_marked c0 j b m1 b1" "chunks_marked (c0 + j) k b1 m2 b2" "m1 \<longrightarrow> m2"
  shows "chunks_marked c0 (j + k) b m2 b2"
proof -
  have "chunk_free b2 c \<longleftrightarrow> chunk_free b c \<and> \<not> (c0 \<le> c \<and> c < c0 + (j + k))" if "c < 256" for c
  proof -
    have "chunk_free b2 c \<longleftrightarrow> (chunk_free b c \<and> \<not> (c0 \<le> c \<and> c < c0 + j)) \<and> \<not> (c0 + j \<le> c \<and> c < c0 + j + k)"
      using assms(1,2) that unfolding chunks_marked_def by blast
    then show ?thesis by linarith
  qed
  then show ?thesis using assms unfolding chunks_marked_def by (auto split: if_splits)
qed

lemma adjust_loop_mark:
  assumes "bmmask11 \<noteq> 0" "bm_bitmapq b ! i AND bmmask11 \<noteq> bmmask11" "modified \<or> e = 0" "modified \<Longrightarrow> bm_linear b = 0"
  shows "adjust_loop e class i (Suc k) bmmask11 modified b bg = adjust_loop e class i k (push_bit 2 bmmask11) True
    (b\<lparr> bm_linear := 0, bm_class := (if bm_class b = 0 then class else bm_class b),
       bm_avail := (if bm_bitmapq b ! i AND bmmask11 = 0 then bm_avail b - 16384 else bm_avail b),
       bm_bitmapq := (bm_bitmapq b)[i := bm_bitmapq b ! i OR bmmask11] \<rparr>)
    (if bm_bitmapq b ! i AND bmmask11 = 0 then bg + 16384 else bg)"
  using assms by (cases b) (auto simp: Let_def)

lemma adjust_loop_spec:
  assumes "length (bm_bitmapq b) = 8" "i < 8" "p + k \<le> 32" "unat (bm_avail b) = 16384 * card (free_chunks b)"
    "modified \<Longrightarrow> bm_linear b = 0"
  shows "(\<exists>m' b' bg'. adjust_loop e class i k (push_bit (2 * p) 3) modified b bg = Some (Inr (m', b', bg')) \<and>
      (modified \<longrightarrow> m') \<and> chunks_marked (32 * i + p) k b m' b') \<or>
    e \<noteq> 0 \<and> \<not> modified \<and> adjust_loop e class i k (push_bit (2 * p) 3) modified b bg = Some (Inl e)"
  using assms
proof (induction k arbitrary: p b modified bg)
  case 0
  then show ?case by (auto simp: chunks_marked_def)
next
  case (Suc k)
  have p: "p < 32" using Suc.prems(3) by simp
  have nz: "push_bit (2 * p) (3 :: u64) \<noteq> 0"
  proof
    assume "push_bit (2 * p) (3 :: u64) = 0"
    moreover have "bit (push_bit (2 * p) (3 :: u64)) (2 * p)" using p by (simp add: bit_push_bit_iff)
    ultimately show False by simp
  qed
  have sh: "push_bit 2 (push_bit (2 * p) (3 :: u64)) = push_bit (2 * Suc p) 3" by (simp add: push_bit_push_bit add.commute)
  have next_p: "Suc p + k \<le> 32" "32 * i + p + 1 = 32 * i + Suc p" using Suc.prems(3) by simp_all
  show ?case
  proof (cases "bm_bitmapq b ! i AND push_bit (2 * p) 3 = push_bit (2 * p) 3")
    case True
    then have "\<not> chunk_free b (32 * i + p)" using pair_full_not_free [OF p] chunk_pair [OF p] by blast
    then have "chunks_marked (32 * i + p) 1 b modified b"
      using Suc.prems(1,4,5) by (auto simp: chunks_marked_def less_Suc_eq_le dest: antisym)
    moreover have "adjust_loop e class i (Suc k) (push_bit (2 * p) 3) modified b bg =
        adjust_loop e class i k (push_bit (2 * Suc p) 3) modified b bg"
      using nz True by (simp only: adjust_loop.simps sh) simp
    ultimately show ?thesis
      using Suc.IH [OF Suc.prems(1,2) next_p(1) Suc.prems(4,5), of modified bg] chunks_marked_trans [of "32 * i + p" 1 b modified b k]
      unfolding next_p(2) by auto
  next
    case False
    show ?thesis
    proof (cases "\<not> modified \<and> e \<noteq> 0")
      case True
      then show ?thesis using nz False by (simp only: adjust_loop.simps) simp
    next
      case 2: False
      define b1 where "b1 = b\<lparr> bm_linear := 0, bm_class := (if bm_class b = 0 then class else bm_class b),
        bm_avail := (if bm_bitmapq b ! i AND push_bit (2 * p) 3 = 0 then bm_avail b - 16384 else bm_avail b),
        bm_bitmapq := (bm_bitmapq b)[i := bm_bitmapq b ! i OR push_bit (2 * p) 3] \<rparr>"
      have m1: "chunks_marked (32 * i + p) 1 b True b1"
        by (rule adjust_step [OF Suc.prems(1,2) p Suc.prems(4)]) (simp add: b1_def)
      obtain bg1 where l: "adjust_loop e class i (Suc k) (push_bit (2 * p) 3) modified b bg =
          adjust_loop e class i k (push_bit (2 * Suc p) 3) True b1 bg1"
        using adjust_loop_mark [OF nz False, of modified e "class" k bg] 2 Suc.prems(5) unfolding b1_def sh by blast
      have "length (bm_bitmapq b1) = 8" "unat (bm_avail b1) = 16384 * card (free_chunks b1)" "bm_linear b1 = 0"
        using m1 by (simp_all add: chunks_marked_def)
      from Suc.IH [OF this(1) Suc.prems(2) next_p(1) this(2,3), of True bg1]
      obtain b' bg' where "adjust_loop e class i k (push_bit (2 * Suc p) 3) True b1 bg1 = Some (Inr (True, b', bg'))"
          "chunks_marked (32 * i + Suc p) k b1 True b'"
        by (elim disjE exE conjE) auto
      then show ?thesis using l chunks_marked_trans [OF m1, of k True b'] unfolding next_p(2) by auto
    qed
  qed
qed

text \<open>Where the code addresses the bitmap, as numbers.\<close>

lemma mod_div_exp: "x mod 2 ^ (a + b) div 2 ^ a = x div 2 ^ a mod (2 ^ b :: nat)"
  by (simp add: power_add mod_mult2_eq)

lemma adjust_address:
  "adjust_entry off = unat off mod 2 ^ 30 div 4194304"
  "adjust_element off = unat off mod 4194304 div 524288"
  "adjust_start off = 2 * (unat off div 16384 mod 16)"
proof -
  have m: "(255 :: u64) = mask 8" "(7 :: u64) = mask 3" "(15 :: u64) = mask 4" by (simp_all add: mask_eq_exp_minus_1)
  have d: "unat (drop_bit n off) = unat off div 2 ^ n" for n 
    using unsigned_less [of off, where 'a = nat] by (simp only: unsigned_drop_bit_eq) (simp add: drop_bit_eq_div take_bit_nat_eq_self)
  have "unat off mod 2 ^ 30 div 2 ^ 22 = unat off div 2 ^ 22 mod 2 ^ 8" using mod_div_exp [of "unat off" 22 8] by simp
  then show "adjust_entry off = unat off mod 2 ^ 30 div 4194304"
    unfolding adjust_entry_def by (simp add: m unat_and_mask d)
  have "unat off mod 2 ^ 22 div 2 ^ 19 = unat off div 2 ^ 19 mod 2 ^ 3" using mod_div_exp [of "unat off" 19 3] by simp
  then show "adjust_element off = unat off mod 4194304 div 524288"
    unfolding adjust_element_def by (simp add: m unat_and_mask d)
  show "adjust_start off = 2 * (unat off div 16384 mod 16)"
    unfolding adjust_start_def by (simp add: m unat_and_mask d)
qed

text \<open>The first chunk the code marks, and the chunk the block begins in.\<close>

definition adjust_chunk :: "hammer2_off_t \<Rightarrow> nat" where
  "adjust_chunk off = 32 * adjust_element off + unat off div 16384 mod 16"

lemma adjust_chunk_half:
  "unat off mod 4194304 div 16384 = adjust_chunk off + (if bit off 18 then 16 else 0)"
proof -
  let ?y = "unat off div 16384"
  have 1: "unat off mod 4194304 div 16384 = ?y mod 256" using mod_div_exp [of "unat off" 14 8] by simp
  have 2: "unat off mod 4194304 div 524288 = ?y mod 256 div 32"
    unfolding 1 [symmetric] by (simp add: div_mult2_eq [symmetric])
  have 3: "bit off 18 \<longleftrightarrow> odd (?y div 16)"
  proof -
    have "bit off 18 \<longleftrightarrow> bit (unat off) 18" by (simp add: bit_unsigned_iff)
    also have "\<dots> \<longleftrightarrow> odd (unat off div 16384 div 16)" unfolding bit_iff_odd div_mult2_eq [symmetric] by simp
    finally show ?thesis .
  qed
  have "?y mod 256 = 32 * (?y mod 256 div 32) + ?y mod 256 mod 32" by simp
  moreover have "?y mod 256 mod 32 = ?y mod 32" by (simp add: mod_mod_cancel)
  moreover have "?y mod 32 = 16 * (?y div 16 mod 2) + ?y mod 16" using mod_mult2_eq [of ?y 16 2] by simp
  ultimately show ?thesis
    unfolding 1 adjust_chunk_def adjust_address(2) 2 3 by (simp add: odd_iff_mod_2_eq_one)
qed

lemma chunks_marked_ok:
  assumes "bmap_ok b" "chunks_marked c0 k b m b'"
  shows "bmap_ok b'" "x < HAMMER2_SEGSIZE \<Longrightarrow> byte_free b' x \<Longrightarrow> byte_free b x"
proof -
  show "bmap_ok b'" using assms by (cases m) (auto simp: chunks_marked_def intro!: bmap_okI [where n = 0])
  show "byte_free b x" if "x < 4194304" "byte_free b' x"
  proof (cases m)
    case True
    then have "chunk_free b' (x div 16384)" using that(2) assms(2) by (simp add: byte_free_def chunks_marked_def)
    moreover have "x div 16384 < 256" using that(1) by (simp add: less_mult_imp_div_less)
    ultimately show ?thesis using assms(2) by (simp add: byte_free_def chunks_marked_def)
  next
    case False
    then show ?thesis using that(2) assms(2) by (simp add: chunks_marked_def)
  qed
qed

lemma adjust_mark_spec:
  assumes leaf: "leaf_ok hmp key leaf" "fl_error leaf = 0" and r: "radix \<le> 16"
  obtains
    (failed) "e \<noteq> 0" "adjust_mark off radix cl e leaf = Some (False, leaf_modify e leaf, 0)"
  | (marked) m leaf' bm b' bg where "adjust_mark off radix cl e leaf = Some (m, leaf', bg)"
      "fl_bmdata leaf = Some bm" "bmdata_ok hmp key bm" "m \<longrightarrow> leaf' = leaf\<lparr> fl_bmdata := Some (bm[adjust_entry off := b']), fl_bigmask := -1 \<rparr>"
      "\<not> m \<longrightarrow> leaf' = leaf" "chunks_marked (adjust_chunk off) (radix_chunks radix) (bm ! adjust_entry off) m b'"
proof -
  obtain bm where bm: "fl_bmdata leaf = Some bm" "bmdata_ok hmp key bm" using leaf by (auto simp: leaf_ok_def)
  let ?n = "adjust_entry off" and ?p = "unat off div 16384 mod 16"
  have n: "?n < 256" unfolding adjust_address(1) by (simp add: less_mult_imp_div_less)
  then have b: "bmap_ok (bm ! ?n)" using bm(2) by (simp add: bmdata_ok_def entry_ok_def)
  have i: "adjust_element off < 8" unfolding adjust_address(2) by (simp add: less_mult_imp_div_less)
  have "radix_chunks radix \<le> 4" using radix_chunks_values [OF r] by auto
  moreover have "?p \<le> 15" using mod_less_divisor [of 16 "unat off div 16384"] by linarith
  ultimately have pk: "?p + radix_chunks radix \<le> 32" by linarith
  have count: "(if radix < 14 then 1 else 2 ^ (radix - 14)) = radix_chunks radix" by (simp add: radix_chunks_def)
  have av: "length (bm_bitmapq (bm ! ?n)) = 8" "unat (bm_avail (bm ! ?n)) = 16384 * card (free_chunks (bm ! ?n))"
    using b by (simp_all add: bmap_ok_def)
  have am: "adjust_mark off radix cl e leaf = do {
      res \<leftarrow> adjust_loop e cl (adjust_element off) (radix_chunks radix) (push_bit (2 * ?p) 3) False (bm ! ?n) 0;
      (case res of
         Inl error \<Rightarrow> Some (False, leaf_modify error leaf, 0)
       | Inr (modified, bmap, bgsize) \<Rightarrow>
           Some (modified, (if modified then leaf_modify 0 (leaf\<lparr> fl_bmdata := Some (bm[?n := bmap]), fl_bigmask := -1 \<rparr>)
                            else leaf), bgsize)) }"
    unfolding adjust_mark_def adjust_address(3) bm(1) Let_def count by simp
  show ?thesis
  proof (rule disjE [OF adjust_loop_spec [OF av(1) i pk av(2), of False e cl 0]]; (elim exE conjE)?)
    fix m' b' bg'
    assume l: "adjust_loop e cl (adjust_element off) (radix_chunks radix) (push_bit (2 * ?p) 3) False (bm ! ?n) 0 =
        Some (Inr (m', b', bg'))" "chunks_marked (32 * adjust_element off + ?p) (radix_chunks radix) (bm ! ?n) m' b'"
    have "adjust_mark off radix cl e leaf =
        Some (m', if m' then leaf\<lparr> fl_bmdata := Some (bm[?n := b']), fl_bigmask := -1 \<rparr> else leaf, bg')"
      unfolding am l(1) using leaf(2) by simp
    then show ?thesis by (rule marked [OF _ bm]) (use l(2) in \<open>simp_all add: adjust_chunk_def\<close>)
  next
    assume "e \<noteq> 0" and l: "adjust_loop e cl (adjust_element off) (radix_chunks radix) (push_bit (2 * ?p) 3) False (bm ! ?n) 0 = Some (Inl e)"
    then show ?thesis by (intro failed) (simp_all add: am)
  qed simp
qed

text \<open>A block reference recovery may meet: a block of a data or meta data class, aligned to its size and
  outside the reserved areas.\<close>

definition recover_ok :: "hammer2_blockref \<Rightarrow> nat \<Rightarrow> bool" where
  "recover_ok bref radix \<longleftrightarrow> unat (br_data_off bref AND HAMMER2_OFF_MASK_RADIX) = radix \<and> 10 \<le> radix \<and> radix \<le> 16 \<and>
     HAMMER2_ZONE_SEG \<le> data_off_lbase (br_data_off bref) AND HAMMER2_ZONE_MASK \<and>
     unat (data_off_lbase (br_data_off bref)) mod 2 ^ radix = 0 \<and> unat (data_off_lbase (br_data_off bref)) < 2 ^ 63"

abbreviation recover_key :: "hammer2_blockref \<Rightarrow> hammer2_key_t" where
  "recover_key bref \<equiv> H2FMBASE (data_off_lbase (br_data_off bref)) HAMMER2_FREEMAP_LEVEL1_RADIX"

lemma recover_key_ok:
  assumes "recover_ok bref radix"
  shows "recover_key bref AND HAMMER2_FREEMAP_LEVEL1_MASK = 0" "unat (recover_key bref) < 2 ^ 63"
    "unat (recover_key bref) = unat (data_off_lbase (br_data_off bref)) div 2 ^ 30 * 2 ^ 30"
proof -
  let ?o = "data_off_lbase (br_data_off bref)"
  show u: "unat (recover_key bref) = unat ?o div 2 ^ 30 * 2 ^ 30" by (simp only: H2FMBASE_def unat_and_not_mask)
  have "unat (recover_key bref) \<le> unat ?o" unfolding u by (rule div_times_less_eq_dividend)
  then show "unat (recover_key bref) < 2 ^ 63" using assms by (simp add: recover_ok_def)
  have "unat (recover_key bref AND mask 30) = 0" unfolding unat_and_mask u by simp
  then show "recover_key bref AND HAMMER2_FREEMAP_LEVEL1_MASK = 0" unfolding mask_30 by (simp add: unat_eq_zero)
qed

text \<open>What a call leaves of the device: one leaf replaced, some of the counters changed.\<close>

lemma adjust_tail:
  fixes hmp :: hammer2_dev
  assumes ok: "freemap_ok hmp" and leaf: "leaf_ok hmp key leaf" "leaf_le leaf (leaf_view hmp key)"
    and h: "hmp' = hmp_allocator_free_sub bg (if m then (leaf_put key leaf hmp)\<lparr> hmp_freemap_relaxed := False \<rparr> else leaf_put key leaf hmp)"
  shows "freemap_ok hmp'" "media_le hmp' hmp" "leaf_view hmp' k = (if k = key then leaf else leaf_view hmp k)"
proof -
  let ?p = "leaf_put key leaf hmp"
  let ?r = "if m then ?p\<lparr> hmp_freemap_relaxed := False \<rparr> else ?p"
  have io: "io_inv hmp" "io_room hmp" using ok by (simp_all add: freemap_ok_def)
  have 1: "freemap_ok ?p" by (rule freemap_ok_put [OF ok _ _ io leaf(1)]) simp_all
  have hu: "heur_update ?p ?r" unfolding heur_update_def
    by (intro exI [of _ "alloc_data_bytes ?r"] exI [of _ "alloc_meta_bytes ?r"] exI [of _ "hmp_freemap_relaxed ?r"]
        exI [of _ "hmp_heur_freemap ?r"]) simp
  have st: "dev_static ?r hmp'" "hmp_fleaves hmp' = hmp_fleaves ?r"
    by (simp_all add: h hmp_allocator_free_sub_def dev_static_def)
  have r: "freemap_ok ?r" using 1 heur_update_ok(1) [OF hu] by simp
  then have "io_inv hmp'" "io_room hmp'" by (simp_all add: h hmp_allocator_free_sub_def freemap_ok_def io_inv_def io_room_def)
  then show "freemap_ok hmp'" by (rule freemap_ok_static [OF r st])
  have v: "leaf_view hmp' k = (if k = key then leaf else leaf_view hmp k)" for k
    using media_avail_static(1) [OF st] heur_update_ok(2) [OF hu] leaf_view_put [of hmp hmp key leaf] by simp
  then show "leaf_view hmp' k = (if k = key then leaf else leaf_view hmp k)" .
  have "media_le ?p hmp" by (rule media_le_put [OF _ _ leaf(2)]) simp_all
  moreover have "media_avail hmp' x = media_avail ?p x" for x
    unfolding media_avail_def v leaf_view_put [OF dev_static_refl refl] ..
  ultimately show "media_le hmp' hmp" by (simp add: media_le_def)
qed

text \<open>The leaf the marking works on, or the early ways out.\<close>

lemma adjust_cases:
  assumes ok: "freemap_ok hmp" and bref: "recover_ok bref radix"
  obtains
    (below) "data_off_lbase (br_data_off bref) < vd_allocator_beg (hmp_voldata hmp)"
      "hammer2_freemap_adjust hmp bref HAMMER2_FREEMAP_DORECOVER env = Some hmp"
  | (create) "hmp_fleaves hmp (recover_key bref) = None" "fe_create env \<noteq> 0"
      "hammer2_freemap_adjust hmp bref HAMMER2_FREEMAP_DORECOVER env = Some hmp"
  | (bad) leaf where "fl_error leaf \<noteq> 0" "fe_modify env = 0 \<Longrightarrow> leaf = leaf_view hmp (recover_key bref)"
      "hammer2_freemap_adjust hmp bref HAMMER2_FREEMAP_DORECOVER env = Some (leaf_put (recover_key bref) leaf hmp)"
  | (had) "fl_error (leaf_view hmp (recover_key bref)) = 0"
      "vd_allocator_beg (hmp_voldata hmp) \<le> data_off_lbase (br_data_off bref)"
      "hammer2_freemap_adjust hmp bref HAMMER2_FREEMAP_DORECOVER env = do {
         (m, leaf, bg) \<leftarrow> adjust_mark (data_off_lbase (br_data_off bref)) radix (freemap_class (br_type bref)) (fe_modify2 env)
           (leaf_view hmp (recover_key bref));
         Some (hmp_allocator_free_sub bg (if m then (leaf_put (recover_key bref) leaf hmp)\<lparr> hmp_freemap_relaxed := False \<rparr>
           else leaf_put (recover_key bref) leaf hmp)) }"
proof -
  let ?o = "data_off_lbase (br_data_off bref)" and ?k = "recover_key bref"
  have r: "unat (br_data_off bref AND HAMMER2_OFF_MASK_RADIX) = radix" "radix \<noteq> 0" "radix \<le> 16"
    "HAMMER2_ZONE_SEG \<le> ?o AND HAMMER2_ZONE_MASK" "hmp_spmp hmp"
    using ok bref by (simp_all add: recover_ok_def freemap_ok_def)
  note d = hammer2_freemap_adjust_def [of hmp bref "Suc 0" env, folded data_off_lbase_def, unfolded Let_def r(1)]
  show ?thesis
  proof (cases "?o < vd_allocator_beg (hmp_voldata hmp)")
    case True
    then show ?thesis using r by (intro below) (simp_all add: d)
  next
    case False
    show ?thesis
    proof (cases "hmp_fleaves hmp ?k")
      case None
      show ?thesis
      proof (cases "fe_create env = 0 \<and> fe_modify env = 0")
        case True
        then show ?thesis using False None r
          by (intro had) (simp_all add: leaf_view_def d adjust_leaf_get_def leaf_create_fresh leaf_put_def cong: if_cong)
      next
        case f: False
        show ?thesis
        proof (cases "fe_create env = 0")
          case True
          then show ?thesis using False f None r
            by (intro bad [of "leaf_modify (fe_modify env) leaf_created"])
              (simp_all add: d adjust_leaf_get_def leaf_create_def leaf_put_def, simp add: leaf_modify_def)
        next
          case c: False
          then show ?thesis using False None r by (intro create) (simp_all add: d adjust_leaf_get_def)
        qed
      qed
    next
      case (Some leaf)
      then have v: "leaf_view hmp ?k = leaf" by (simp add: leaf_view_def)
      show ?thesis
      proof (cases "fl_error leaf = 0")
        case True
        then show ?thesis using False Some r by (intro had) (simp_all add: v d adjust_leaf_get_def leaf_put_def cong: if_cong)
      next
        case e: False
        then show ?thesis using False Some r by (intro bad [of leaf]) (simp_all add: v d adjust_leaf_get_def leaf_put_def)
      qed
    qed
  qed
qed

lemma chunks_marked_leaf:
  assumes leaf: "leaf_ok hmp key leaf" "fl_error leaf = 0" "fl_bmdata leaf = Some bm" "bmdata_ok hmp key bm" and n: "n < 256"
    and m: "chunks_marked c0 k (bm ! n) True b'"
  shows "leaf_ok hmp key (leaf\<lparr> fl_bmdata := Some (bm[n := b']), fl_bigmask := -1 \<rparr>)"
    "leaf_le (leaf\<lparr> fl_bmdata := Some (bm[n := b']), fl_bigmask := -1 \<rparr>) leaf"
proof -
  have e: "entry_ok hmp key j (bm ! j)" "length bm = 256" if "j < 256" for j using leaf(4) that by (simp_all add: bmdata_ok_def)
  have "bmap_ok (bm ! n)" using e(1) [OF n] by (simp add: entry_ok_def)
  note c = chunks_marked_ok [OF this m]
  have "entry_ok hmp key n b'" using e(1) [OF n] c unfolding entry_ok_def by blast
  then have "bmdata_ok hmp key (bm[n := b'])"
    using e n by (auto simp: bmdata_ok_def nth_list_update)
  moreover have "bigmask_ok (-1) bm'" for bm' by (simp add: bigmask_ok_def)
  ultimately show "leaf_ok hmp key (leaf\<lparr> fl_bmdata := Some (bm[n := b']), fl_bigmask := -1 \<rparr>)" by (simp add: leaf_ok_def)
  show "leaf_le (leaf\<lparr> fl_bmdata := Some (bm[n := b']), fl_bigmask := -1 \<rparr>) leaf"
    using leaf(2,3) e(2) [OF n] c(2) n by (auto simp: leaf_le_def leaf_avail_def nth_list_update)
qed

lemma adjust_entry_less: "adjust_entry off < 256"
  unfolding adjust_address(1) by (simp add: less_mult_imp_div_less)

lemma freemap_adjust_spec:
  assumes ok: "freemap_ok hmp" and bref: "recover_ok bref radix"
  shows "\<exists>hmp'. hammer2_freemap_adjust hmp bref HAMMER2_FREEMAP_DORECOVER env = Some hmp' \<and> freemap_ok hmp' \<and> media_le hmp' hmp"
  using ok bref
proof (cases rule: adjust_cases [where env = env])
  case (bad leaf)
  have "leaf_ok hmp (recover_key bref) leaf" "leaf_le leaf (leaf_view hmp (recover_key bref))"
    using bad(1) by (simp_all add: leaf_ok_def leaf_le_def leaf_avail_def)
  from adjust_tail [OF ok this, of _ 0 False] show ?thesis
    using bad(3) by (simp add: hmp_allocator_free_sub_def)
next
  case had
  let ?o = "data_off_lbase (br_data_off bref)" and ?l = "leaf_view hmp (recover_key bref)" and ?cl = "freemap_class (br_type bref)"
  have r: "radix \<le> 16" using bref by (simp add: recover_ok_def)
  have lo: "leaf_ok hmp (recover_key bref) ?l" by (rule leaf_view_ok [OF ok recover_key_ok(1,2) [OF bref]])
  have "\<exists>m leaf bg. adjust_mark ?o radix ?cl (fe_modify2 env) ?l = Some (m, leaf, bg) \<and>
      leaf_ok hmp (recover_key bref) leaf \<and> leaf_le leaf ?l"
  proof (rule adjust_mark_spec [OF lo had(1) r, where e = "fe_modify2 env" and off = ?o and cl = ?cl])
    assume "adjust_mark ?o radix ?cl (fe_modify2 env) ?l = Some (False, leaf_modify (fe_modify2 env) ?l, 0)"
    then show ?thesis using leaf_modify_ok [OF lo had(1)] leaf_le_modify [OF had(1)] by blast
  next
    fix m leaf bm b' bg
    assume a: "adjust_mark ?o radix ?cl (fe_modify2 env) ?l = Some (m, leaf, bg)"
      "fl_bmdata ?l = Some bm" "bmdata_ok hmp (recover_key bref) bm"
      "m \<longrightarrow> leaf = ?l\<lparr> fl_bmdata := Some (bm[adjust_entry ?o := b']), fl_bigmask := -1 \<rparr>" "\<not> m \<longrightarrow> leaf = ?l"
      "chunks_marked (adjust_chunk ?o) (radix_chunks radix) (bm ! adjust_entry ?o) m b'"
    show ?thesis
    proof (cases m)
      case True
      then show ?thesis using a(1,4) chunks_marked_leaf [OF lo had(1) a(2,3) adjust_entry_less] a(6) by (metis (full_types))
    next
      case False
      then show ?thesis using a(1,5) lo by auto
    qed
  qed
  then obtain m leaf bg where "adjust_mark ?o radix ?cl (fe_modify2 env) ?l = Some (m, leaf, bg)"
      "leaf_ok hmp (recover_key bref) leaf" "leaf_le leaf ?l" by blast
  then show ?thesis using had(3) adjust_tail(1,2) [OF ok _ _ refl, of "recover_key bref" leaf bg m] by simp
qed (use ok in simp_all)

text \<open>The 16KB chunk of byte \<open>x\<close> of the media is free, and it is fully allocated.\<close>

definition media_entry :: "hammer2_dev \<Rightarrow> nat \<Rightarrow> hammer2_bmap_data option" where
  "media_entry hmp x = (let leaf = leaf_view hmp (leaf_key x) in
     if fl_error leaf = 0 then map_option (\<lambda>bm. bm ! (x mod 2 ^ 30 div 4194304)) (fl_bmdata leaf) else None)"

definition media_chunk_free :: "hammer2_dev \<Rightarrow> nat \<Rightarrow> bool" where
  "media_chunk_free hmp x \<longleftrightarrow> (\<exists>b. media_entry hmp x = Some b \<and> chunk_free b (x mod 4194304 div 16384))"

definition chunk_full :: "hammer2_bmap_data \<Rightarrow> nat \<Rightarrow> bool" where
  "chunk_full b c \<longleftrightarrow> bit (bm_bitmapq b ! (c div 32)) (2 * (c mod 32)) \<and> bit (bm_bitmapq b ! (c div 32)) (2 * (c mod 32) + 1)"

lemma media_avail_entry: "media_avail hmp x \<longleftrightarrow> (\<exists>b. media_entry hmp x = Some b \<and> byte_free b (x mod 4194304))"
  by (auto simp: media_avail_def media_entry_def leaf_avail_def Let_def)

lemma chunk_free_avail: "media_chunk_free hmp x \<Longrightarrow> media_avail hmp x"
  unfolding media_avail_entry media_chunk_free_def byte_free_def by auto

text \<open>The bytes of an aligned block and the chunks they are in.\<close>

lemma aligned_split:
  assumes "(a :: nat) mod 2 ^ r = 0" "r \<le> s" "d < 2 ^ r"
  shows "a mod 2 ^ s + d < 2 ^ s"
proof -
  have "(2 :: nat) ^ s = 2 ^ r * 2 ^ (s - r)" using assms(2) by (simp flip: power_add)
  then have "a mod 2 ^ s mod 2 ^ r = 0" using assms(1) by (simp add: mod_mult2_eq)
  then obtain q where q: "a mod 2 ^ s = 2 ^ r * q" by auto
  have "2 ^ r * q < 2 ^ r * 2 ^ (s - r)" using q \<open>2 ^ s = 2 ^ r * 2 ^ (s - r)\<close> mod_less_divisor [of "2 ^ s" a] by simp
  then have "Suc q \<le> 2 ^ (s - r)" by simp
  then have "2 ^ r * Suc q \<le> 2 ^ r * 2 ^ (s - r)" by (rule mult_le_mono2)
  then show ?thesis using assms(3) q \<open>2 ^ s = 2 ^ r * 2 ^ (s - r)\<close> by simp
qed

lemma add_low_bits:
  assumes "(a :: nat) mod m + d < m"
  shows "(a + d) div m = a div m" "(a + d) mod m = a mod m + d"
proof -
  have e: "a + d = m * (a div m) + (a mod m + d)" by simp
  show "(a + d) div m = a div m" by (subst e, subst div_mult_self4) (use assms in auto)
  show "(a + d) mod m = a mod m + d" by (subst e, subst mod_mult_self4) (use assms in simp)
qed

lemma block_chunks:
  assumes "recover_ok bref radix" "x \<in> bref_bytes bref radix"
  shows "leaf_key x = recover_key bref" "x mod 2 ^ 30 div 4194304 = adjust_entry (data_off_lbase (br_data_off bref))"
    "unat (data_off_lbase (br_data_off bref)) mod 4194304 div 16384 \<le> x mod 4194304 div 16384"
    "x mod 4194304 div 16384 < unat (data_off_lbase (br_data_off bref)) mod 4194304 div 16384 + radix_chunks radix"
proof -
  let ?a = "unat (data_off_lbase (br_data_off bref))"
  have r: "?a mod 2 ^ radix = 0" "radix \<le> 16" using assms(1) by (simp_all add: recover_ok_def)
  obtain d where d: "x = ?a + d" "d < 2 ^ radix"
    using assms(2) by (auto simp: bref_bytes_def le_iff_add)
  note s = aligned_split [OF r(1) _ d(2)]
  have 30: "x div 2 ^ 30 = ?a div 2 ^ 30" "x mod 2 ^ 30 = ?a mod 2 ^ 30 + d"
    using add_low_bits [OF s [of 30]] r(2) d(1) by auto
  have 22: "x div 4194304 = ?a div 4194304" "x mod 4194304 = ?a mod 4194304 + d"
    using add_low_bits [OF s [of 22]] r(2) d(1) by auto
  have "leaf_key x = of_nat (unat (recover_key bref))" unfolding recover_key_ok(3) [OF assms(1)] leaf_key_def 30(1) ..
  then show "leaf_key x = recover_key bref" by simp
  have "x mod 2 ^ 30 div 2 ^ 22 = ?a mod 2 ^ 30 div 2 ^ 22"
    using mod_div_exp [of x 22 8] mod_div_exp [of ?a 22 8] 22(1) by simp
  then show "x mod 2 ^ 30 div 4194304 = adjust_entry (data_off_lbase (br_data_off bref))" by (simp add: adjust_address(1))
  show "?a mod 4194304 div 16384 \<le> x mod 4194304 div 16384" unfolding 22(2) by (rule div_le_mono) simp
  let ?c = "?a mod 4194304 div 16384"
  have c: "?a mod 4194304 = 16384 * ?c + ?a mod 4194304 mod 16384" by simp
  have m: "?a mod 4194304 mod 16384 = ?a mod 2 ^ 14" by (simp add: mod_mod_cancel)
  have "?a mod 2 ^ 14 + d < 16384 * radix_chunks radix"
  proof (cases "radix < 14")
    case True
    then show ?thesis using s [of 14] by (simp add: radix_chunks_def)
  next
    case False
    then have e: "(2 :: nat) ^ radix = 2 ^ 14 * radix_chunks radix" by (simp only: radix_chunks_def flip: power_add) simp
    then have "?a mod 2 ^ 14 = 0" using r(1) by (metis mod_mult2_eq add_eq_0_iff_both_eq_0)
    with d(2) e show ?thesis by simp
  qed
  then have "16384 * ?c + (?a mod 2 ^ 14 + d) < 16384 * (?c + radix_chunks radix)" by (simp add: distrib_left)
  moreover have "x mod 4194304 = 16384 * ?c + (?a mod 2 ^ 14 + d)" unfolding 22(2) using c unfolding m by presburger
  ultimately have "x mod 4194304 < 16384 * (?c + radix_chunks radix)" by metis
  then show "x mod 4194304 div 16384 < ?c + radix_chunks radix" by (intro less_mult_imp_div_less) (simp add: mult.commute)
qed

lemma adjust_had:
  assumes ok: "freemap_ok hmp" and bref: "recover_ok bref radix" and e: "fl_error (leaf_view hmp (recover_key bref)) = 0"
    and beg: "vd_allocator_beg (hmp_voldata hmp) \<le> data_off_lbase (br_data_off bref)"
    and env: "fe_create env = 0" "fe_modify env = 0" "fe_modify2 env = 0"
  obtains hmp' m leaf bm b' where "hammer2_freemap_adjust hmp bref HAMMER2_FREEMAP_DORECOVER env = Some hmp'"
    "\<And>k. leaf_view hmp' k = (if k = recover_key bref then leaf else leaf_view hmp k)"
    "fl_bmdata (leaf_view hmp (recover_key bref)) = Some bm" "length bm = 256"
    "m \<longrightarrow> leaf = (leaf_view hmp (recover_key bref))
       \<lparr> fl_bmdata := Some (bm[adjust_entry (data_off_lbase (br_data_off bref)) := b']), fl_bigmask := -1 \<rparr>"
    "\<not> m \<longrightarrow> leaf = leaf_view hmp (recover_key bref)"
    "chunks_marked (adjust_chunk (data_off_lbase (br_data_off bref))) (radix_chunks radix)
       (bm ! adjust_entry (data_off_lbase (br_data_off bref))) m b'"
  using ok bref
proof (cases rule: adjust_cases [where env = env])
  case (bad leaf)
  then show ?thesis using e env(2) by simp
next
  case had
  let ?o = "data_off_lbase (br_data_off bref)" and ?l = "leaf_view hmp (recover_key bref)" and ?cl = "freemap_class (br_type bref)"
  have r: "radix \<le> 16" using bref by (simp add: recover_ok_def)
  have lo: "leaf_ok hmp (recover_key bref) ?l" by (rule leaf_view_ok [OF ok recover_key_ok(1,2) [OF bref]])
  show ?thesis
  proof (rule adjust_mark_spec [OF lo had(1) r, where e = "fe_modify2 env" and off = ?o and cl = ?cl])
    assume "fe_modify2 env \<noteq> 0" then show ?thesis using env(3) by simp
  next
    fix m leaf bm b' bg
    assume a: "adjust_mark ?o radix ?cl (fe_modify2 env) ?l = Some (m, leaf, bg)"
      "fl_bmdata ?l = Some bm" "bmdata_ok hmp (recover_key bref) bm"
      "m \<longrightarrow> leaf = ?l\<lparr> fl_bmdata := Some (bm[adjust_entry ?o := b']), fl_bigmask := -1 \<rparr>" "\<not> m \<longrightarrow> leaf = ?l"
      "chunks_marked (adjust_chunk ?o) (radix_chunks radix) (bm ! adjust_entry ?o) m b'"
    let ?h = "hmp_allocator_free_sub bg (if m then (leaf_put (recover_key bref) leaf hmp)\<lparr> hmp_freemap_relaxed := False \<rparr>
      else leaf_put (recover_key bref) leaf hmp)"
    have l: "leaf_ok hmp (recover_key bref) leaf" "leaf_le leaf ?l"
    proof -
      have "leaf_ok hmp (recover_key bref) leaf \<and> leaf_le leaf ?l"
        using a(4-6) lo chunks_marked_leaf [OF lo had(1) a(2,3) adjust_entry_less] by (cases m) simp_all
      then show "leaf_ok hmp (recover_key bref) leaf" "leaf_le leaf ?l" by simp_all
    qed
    have len: "length bm = 256" using a(3) by (simp add: bmdata_ok_def)
    show ?thesis
      by (rule that [of ?h leaf, OF _ adjust_tail(3) [OF ok l refl] a(2) len a(4-6)]) (simp only: had(3) a(1) bind.bind_lunit prod.case)
  qed
next
  case below
  then show ?thesis using beg by simp
next
  case create
  then show ?thesis using env(1) by simp
qed

lemma adjust_chunks_spec:
  assumes "freemap_ok hmp" "recover_ok bref radix" "fl_error (leaf_view hmp (recover_key bref)) = 0"
    "vd_allocator_beg (hmp_voldata hmp) \<le> data_off_lbase (br_data_off bref)"
    "fe_create env = 0" "fe_modify env = 0" "fe_modify2 env = 0"
  obtains hmp' where "hammer2_freemap_adjust hmp bref HAMMER2_FREEMAP_DORECOVER env = Some hmp'"
    "\<And>x. media_chunk_free hmp' x \<longleftrightarrow> media_chunk_free hmp x \<and>
       \<not> (leaf_key x = recover_key bref \<and> x mod 2 ^ 30 div 4194304 = adjust_entry (data_off_lbase (br_data_off bref)) \<and>
         adjust_chunk (data_off_lbase (br_data_off bref)) \<le> x mod 4194304 div 16384 \<and>
         x mod 4194304 div 16384 < adjust_chunk (data_off_lbase (br_data_off bref)) + radix_chunks radix)"
proof (rule adjust_had [OF assms])
  fix hmp' m leaf bm b'
  let ?o = "data_off_lbase (br_data_off bref)" and ?l = "leaf_view hmp (recover_key bref)"
  assume h: "hammer2_freemap_adjust hmp bref HAMMER2_FREEMAP_DORECOVER env = Some hmp'"
    "\<And>k. leaf_view hmp' k = (if k = recover_key bref then leaf else leaf_view hmp k)"
    "fl_bmdata ?l = Some bm" "length bm = 256"
    "m \<longrightarrow> leaf = ?l\<lparr> fl_bmdata := Some (bm[adjust_entry ?o := b']), fl_bigmask := -1 \<rparr>" "\<not> m \<longrightarrow> leaf = ?l"
    "chunks_marked (adjust_chunk ?o) (radix_chunks radix) (bm ! adjust_entry ?o) m b'"
  show ?thesis
  proof (rule that [OF h(1)])
    fix x :: nat
    let ?n = "x mod 2 ^ 30 div 4194304" and ?c = "x mod 4194304 div 16384"
    have c: "?c < 256" "?n < 256" by (simp_all add: less_mult_imp_div_less)
    let ?hit = "leaf_key x = recover_key bref \<and> ?n = adjust_entry ?o"
    have same: "media_entry hmp' x = media_entry hmp x" if "\<not> ?hit"
      using that h(5,6) assms(3) by (cases m) (auto simp: media_entry_def h(2,3) Let_def)
    have hit: "media_entry hmp' x = Some b'" "media_entry hmp x = Some (bm ! adjust_entry ?o)" if "?hit"
      using that h(5,6,7) assms(3) c(2) h(4) by (cases m, auto simp: media_entry_def h(2,3) Let_def chunks_marked_def)+
    show "media_chunk_free hmp' x \<longleftrightarrow> media_chunk_free hmp x \<and> \<not> (leaf_key x = recover_key bref \<and> ?n = adjust_entry ?o \<and>
         adjust_chunk ?o \<le> ?c \<and> ?c < adjust_chunk ?o + radix_chunks radix)"
    proof (cases ?hit)
      case True
      then show ?thesis using hit h(7) c(1) by (simp add: media_chunk_free_def chunks_marked_def)
    next
      case False
      then show ?thesis using same by (auto simp: media_chunk_free_def)
    qed
  qed
qed

definition ex_recover :: "hammer2_off_t \<Rightarrow> hammer2_blockref" where
  "ex_recover off = blockref_zero\<lparr> br_type := HAMMER2_BREF_TYPE_DATA, br_data_off := off OR 14 \<rparr>"

lemma ex_recover_ok:
  "recover_ok (ex_recover 4194304) 14" "recover_ok (ex_recover 4456448) 14"
  "data_off_lbase (br_data_off (ex_recover 4194304)) = 4194304" "data_off_lbase (br_data_off (ex_recover 4456448)) = 4456448"
  by (simp_all add: recover_ok_def ex_recover_def data_off_lbase_def)

lemma lbase_bit: "bit (data_off_lbase off) 18 \<longleftrightarrow> bit off 18"
proof -
  have m: "(63 :: u64) = mask 6" by (simp add: mask_eq_exp_minus_1)
  show ?thesis unfolding data_off_lbase_def m by (auto simp: bit_and_iff bit_not_iff bit_mask_iff dest: bit_imp_le_length)
qed

lemma div_split: "0 < m \<Longrightarrow> x div m = k * (x div (m * k)) + x mod (m * k) div (m :: nat)"
  by (simp add: mod_mult2_eq div_mult2_eq)

lemma offset_step: "(a :: nat) = d + c \<Longrightarrow> b = d + e \<Longrightarrow> e \<le> c \<Longrightarrow> a = b + (c - e)"
  by simp

lemma offset_less: "e \<le> c \<Longrightarrow> c < e + k \<Longrightarrow> c - e < (k :: nat)"
  by simp

lemma mult_exp_14: "14 \<le> r \<Longrightarrow> (2 :: nat) ^ r = 16384 * 2 ^ (r - 14)"
  using power_add [of "2 :: nat" 14 "r - 14"] by simp

lemma marked_in_block:
  assumes bref: "recover_ok bref radix" and x: "x < 2 ^ 64" "leaf_key x = recover_key bref"
      "x mod 2 ^ 30 div 4194304 = adjust_entry (data_off_lbase (br_data_off bref))"
    and c: "unat (data_off_lbase (br_data_off bref)) mod 4194304 div 16384 \<le> x mod 4194304 div 16384"
      "x mod 4194304 div 16384 < unat (data_off_lbase (br_data_off bref)) mod 4194304 div 16384 + radix_chunks radix"
  shows "\<exists>y \<in> bref_bytes bref radix. x div 16384 = y div 16384"
proof -
  let ?a = "unat (data_off_lbase (br_data_off bref))"
  have "x div 2 ^ 30 * 2 ^ 30 < 2 ^ 64" by (rule le_less_trans [OF div_times_less_eq_dividend x(1)])
  then have "unat (leaf_key x) = x div 2 ^ 30 * 2 ^ 30" unfolding leaf_key_def by (intro unat_of_nat_small) simp
  then have "x div 2 ^ 30 * 2 ^ 30 = ?a div 2 ^ 30 * 2 ^ 30" unfolding x(2) recover_key_ok(3) [OF bref] by (rule sym)
  then have "x div 2 ^ 30 = ?a div 2 ^ 30" by (simp only: mult_cancel2) simp
  moreover have "x div 4194304 = 256 * (x div 2 ^ 30) + x mod 2 ^ 30 div 4194304" for x :: nat
    using div_split [of 4194304 x 256] by simp
  ultimately have d: "x div 4194304 = ?a div 4194304" using x(3) unfolding adjust_address(1) by metis
  have s: "x div 16384 = 256 * (x div 4194304) + x mod 4194304 div 16384" for x :: nat
    using div_split [of 16384 x 256] by simp
  define j where "j = x mod 4194304 div 16384 - ?a mod 4194304 div 16384"
  have j1: "x div 16384 = ?a div 16384 + j"
    unfolding j_def by (rule offset_step [OF s [of x, unfolded d] s c(1)])
  have j2: "j < radix_chunks radix" unfolding j_def by (rule offset_less [OF c])
  have y: "?a + 16384 * j < ?a + 2 ^ radix"
  proof (cases "radix < 14")
    case True
    then show ?thesis using j2 by (simp add: radix_chunks_def)
  next
    case False
    then have "(2 :: nat) ^ radix = 16384 * radix_chunks radix" using mult_exp_14 by (simp add: radix_chunks_def)
    then show ?thesis using j2 by simp
  qed
  have "x div 16384 = (?a + 16384 * j) div 16384" unfolding j1 by simp
  moreover have "?a + 16384 * j \<in> bref_bytes bref radix" using y by (simp add: bref_bytes_def)
  ultimately show ?thesis by blast
qed



text \<open>The second segment of the example device is free.\<close>

lemma ex_dev_chunk_free:
  assumes "4194304 \<le> x \<and> x < 8388608"
  shows "media_chunk_free ex_dev x"
proof -
  obtain d where d: "x = 4194304 + d" "d < 4194304" using assms le_Suc_ex [of 4194304 x] by auto
  have k: "leaf_key x = 0" "x mod 1073741824 div 4194304 = 1" "x mod 4194304 = d"
    using media_pos [of 0 1 d] d by (simp_all add: add.commute)
  obtain bm where bm: "fl_bmdata (leaf_fresh ex_dev 0) = Some bm"
    "\<And>n. n < 256 \<Longrightarrow> bm ! n = (if seg_base 0 n < freemap_lokey (vd_allocator_beg (hmp_voldata ex_dev)) 0 \<or>
          freemap_hikey (hmp_total_size ex_dev) 0 \<le> seg_base 0 n then bmap_full else bmap_fresh)"
    by (rule leaf_fresh_data) blast
  have "bm ! 1 = bmap_fresh"
    using bm(2) [of 1] by (simp add: seg_base_def freemap_lokey_def freemap_hikey_def Let_def H2FMBASE_def H2FMZONEBASE_def ex_dev_def)
  moreover have "chunk_free bmap_fresh (d div 16384)"
    using d(2) by (intro chunk_free_fresh) (simp_all add: less_mult_imp_div_less bmap_fresh_def)
  ultimately show ?thesis by (simp add: media_chunk_free_def media_entry_def k ex_dev_view bm(1))
qed

text \<open>C11: Recovery of a block in the lower half of its 512KB element marks what it should: when nothing
  fails, no chunk of the block is free afterwards, and every other chunk is as it was.\<close>

theorem freemap_adjust_marks:
  assumes "freemap_ok hmp" "recover_ok bref radix" "fl_error (leaf_view hmp (recover_key bref)) = 0"
    and "vd_allocator_beg (hmp_voldata hmp) \<le> data_off_lbase (br_data_off bref)"
    and "fe_create env = 0" "fe_modify env = 0" "fe_modify2 env = 0" and half: "\<not> bit (br_data_off bref) 18"
  shows "\<exists>hmp'. hammer2_freemap_adjust hmp bref HAMMER2_FREEMAP_DORECOVER env = Some hmp' \<and>
    (\<forall>x \<in> bref_bytes bref radix. \<not> media_chunk_free hmp' x) \<and>
    (\<forall>x < 2 ^ 64. (\<forall>y \<in> bref_bytes bref radix. x div 16384 \<noteq> y div 16384) \<longrightarrow> media_chunk_free hmp' x = media_chunk_free hmp x)"
proof -
  let ?o = "data_off_lbase (br_data_off bref)"
  obtain hmp' where h: "hammer2_freemap_adjust hmp bref HAMMER2_FREEMAP_DORECOVER env = Some hmp'"
    "\<And>x. media_chunk_free hmp' x \<longleftrightarrow> media_chunk_free hmp x \<and>
       \<not> (leaf_key x = recover_key bref \<and> x mod 2 ^ 30 div 4194304 = adjust_entry ?o \<and>
         adjust_chunk ?o \<le> x mod 4194304 div 16384 \<and> x mod 4194304 div 16384 < adjust_chunk ?o + radix_chunks radix)"
    by (rule adjust_chunks_spec [OF assms(1-7)]) blast
  have c: "unat ?o mod 4194304 div 16384 = adjust_chunk ?o"
    using adjust_chunk_half [of ?o] half by (simp add: lbase_bit)
  have "\<not> media_chunk_free hmp' x" if "x \<in> bref_bytes bref radix" for x
    using h(2) block_chunks [OF assms(2) that] unfolding c by blast
  moreover have "media_chunk_free hmp' x = media_chunk_free hmp x"
    if "x < 2 ^ 64" "\<forall>y \<in> bref_bytes bref radix. x div 16384 \<noteq> y div 16384" for x
    using h(2) [of x] marked_in_block [OF assms(2) that(1)] that(2) unfolding c by blast
  ultimately show ?thesis using h(1) by blast
qed

lemma ex_recover_dev:
  "fl_error (leaf_view ex_dev (recover_key bref)) = 0"
  "off \<in> {4194304, 4456448} \<Longrightarrow> vd_allocator_beg (hmp_voldata ex_dev) \<le> data_off_lbase (br_data_off (ex_recover off))"
  "fe_create (ex_env 0) = 0" "fe_modify (ex_env 0) = 0" "fe_modify2 (ex_env 0) = 0"
  by (simp add: ex_dev_view) (auto simp: ex_recover_ok ex_env_def, simp_all add: ex_dev_def)

theorem freemap_adjust_marks_witness:
  "\<exists>hmp'. hammer2_freemap_adjust ex_dev (ex_recover 4194304) HAMMER2_FREEMAP_DORECOVER (ex_env 0) = Some hmp' \<and>
     \<not> media_chunk_free hmp' 4194304"
proof -
  have h: "\<not> bit (br_data_off (ex_recover 4194304)) 18" by (simp add: ex_recover_def bit_iff_odd)
  have "vd_allocator_beg (hmp_voldata ex_dev) \<le> data_off_lbase (br_data_off (ex_recover 4194304))" by (rule ex_recover_dev) simp
  note t = freemap_adjust_marks [OF ex_dev_ok ex_recover_ok(1) ex_recover_dev(1) this ex_recover_dev(3-5) h]
  have "4194304 \<in> bref_bytes (ex_recover 4194304) 14" by (simp add: bref_bytes_def ex_recover_ok)
  with t obtain hmp' where "hammer2_freemap_adjust ex_dev (ex_recover 4194304) HAMMER2_FREEMAP_DORECOVER (ex_env 0) = Some hmp'"
      "\<not> media_chunk_free hmp' 4194304" by (elim exE conjE) blast
  then show ?thesis by blast
qed



lemma adjust_loop_full:
  assumes "\<And>j. j < k \<Longrightarrow> bm_bitmapq b ! i AND push_bit (2 * (p + j)) 3 = push_bit (2 * (p + j)) 3" "p + k \<le> 32"
  shows "adjust_loop e cl i k (push_bit (2 * p) 3) False b bg = Some (Inr (False, b, bg))"
  using assms
proof (induction k arbitrary: p)
  case (Suc k)
  have nz: "push_bit (2 * p) (3 :: u64) \<noteq> 0"
  proof
    assume "push_bit (2 * p) (3 :: u64) = 0"
    moreover have "bit (push_bit (2 * p) (3 :: u64)) (2 * p)" using Suc.prems(2) by (simp add: bit_push_bit_iff)
    ultimately show False by simp
  qed
  have sh: "push_bit 2 (push_bit (2 * p) (3 :: u64)) = push_bit (2 * Suc p) 3" by (simp add: push_bit_push_bit add.commute)
  have "adjust_loop e cl i (Suc k) (push_bit (2 * p) 3) False b bg = adjust_loop e cl i k (push_bit (2 * Suc p) 3) False b bg"
    using nz Suc.prems(1) [of 0] by (simp only: adjust_loop.simps sh) simp
  also have "\<dots> = Some (Inr (False, b, bg))" using Suc.prems(1) [of "Suc j" for j] Suc.prems(2) by (intro Suc.IH) simp_all
  finally show ?case .
qed simp

lemma chunk_full_pair:
  assumes "chunk_full b (32 * i + p)" "p < 32"
  shows "bm_bitmapq b ! i AND push_bit (2 * p) 3 = push_bit (2 * p) 3"
proof (rule bit_word_eqI)
  fix n assume n: "n < LENGTH(64)"
  have s: "bit (push_bit (2 * p) (3 :: u64)) n \<longleftrightarrow> n = 2 * p \<or> n = 2 * p + 1"
    using n unfolding bitrun_2 bit_bitrun by auto
  have f: "bit (bm_bitmapq b ! i) (2 * p)" "bit (bm_bitmapq b ! i) (2 * p + 1)" using assms by (simp_all add: chunk_full_def)
  show "bit (bm_bitmapq b ! i AND push_bit (2 * p) 3) n = bit (push_bit (2 * p) (3 :: u64)) n"
    unfolding bit_and_iff s using f by auto
qed

definition media_chunk_full :: "hammer2_dev \<Rightarrow> nat \<Rightarrow> bool" where
  "media_chunk_full hmp x \<longleftrightarrow> (\<exists>b. media_entry hmp x = Some b \<and> chunk_full b (x mod 4194304 div 16384))"

text \<open>Every chunk of the run the code marks holds a byte of the block.\<close>

lemma marked_has_byte:
  assumes bref: "recover_ok bref radix" and j: "j < radix_chunks radix"
  shows "\<exists>x \<in> bref_bytes bref radix. x mod 4194304 div 16384 = unat (data_off_lbase (br_data_off bref)) mod 4194304 div 16384 + j"
proof -
  let ?a = "unat (data_off_lbase (br_data_off bref))"
  have r: "?a mod 2 ^ radix = 0" "radix \<le> 16" using bref by (simp_all add: recover_ok_def)
  have y: "16384 * j < 2 ^ radix"
  proof (cases "radix < 14")
    case True
    then show ?thesis using j by (simp add: radix_chunks_def)
  next
    case False
    then have "(2 :: nat) ^ radix = 16384 * radix_chunks radix" using mult_exp_14 by (simp add: radix_chunks_def)
    then show ?thesis using j by simp
  qed
  have "(?a + 16384 * j) mod 2 ^ 22 = ?a mod 2 ^ 22 + 16384 * j"
    by (rule add_low_bits(2) [OF aligned_split [OF r(1) _ y]]) (use r(2) in simp)
  then have "(?a + 16384 * j) mod 4194304 div 16384 = (?a mod 4194304 + 16384 * j) div 16384" by simp
  also have "\<dots> = ?a mod 4194304 div 16384 + j" by simp
  finally show ?thesis using y by (intro bexI [of _ "?a + 16384 * j"]) (simp_all add: bref_bytes_def)
qed


text \<open>A device whose second segment has one 1KB fragment handed out, and the reference of the next.\<close>

definition ex_entry :: hammer2_bmap_data where
  "ex_entry = \<lparr> bm_linear = 1024, bm_class = 0x0310, bm_avail = 4177920, bm_bitmapq = 3 # replicate 7 0 \<rparr>"

definition ex_used :: hammer2_dev where
  "ex_used = leaf_put 0 ((leaf_fresh ex_dev 0)\<lparr> fl_bmdata := map_option (\<lambda>bm. bm[1 := ex_entry]) (fl_bmdata (leaf_fresh ex_dev 0)) \<rparr>) ex_dev"

definition ex_fragment :: hammer2_blockref where
  "ex_fragment = blockref_zero\<lparr> br_type := HAMMER2_BREF_TYPE_INODE, br_data_off := 4195328 OR 10 \<rparr>"

lemma bit_word_3: "bit (3 :: u64) n \<longleftrightarrow> n < 2"
  using bit_mask_iff [of 2 n, where 'a = u64] by (auto simp: mask_2_eq)

lemma ex_entry_chunks: "c < 256 \<Longrightarrow> chunk_free ex_entry c \<longleftrightarrow> c \<noteq> 0"
proof -
  assume c: "c < 256"
  have "pair_free 3 p \<longleftrightarrow> p \<noteq> 0" if "p < 32" for p
    using that by (cases p) (auto simp: pair_free_def bit_word_3)
  moreover have "pair_free 0 p" for p by (simp add: pair_free_def)
  ultimately show ?thesis
    using c by (cases "c < 32") (simp_all add: chunk_free_def ex_entry_def nth_Cons' less_mult_imp_div_less)
qed

lemma ex_entry_ok: "bmap_ok ex_entry"
proof -
  have "free_chunks ex_entry = {1 ..< 256}" using ex_entry_chunks by (auto simp: free_chunks_def)
  then show ?thesis
    using ex_entry_chunks [of 0] by (intro bmap_okI [where n = 1024]) (simp_all, simp_all add: ex_entry_def)
qed

lemma ex_used_leaf:
  obtains bm where "fl_bmdata (leaf_fresh ex_dev 0) = Some bm" "length bm = 256" "bmdata_ok ex_dev 0 bm" "bm ! 1 = bmap_fresh"
proof -
  obtain bm where bm: "fl_bmdata (leaf_fresh ex_dev 0) = Some bm" "length bm = 256"
    "\<And>n. n < 256 \<Longrightarrow> bm ! n = (if seg_base 0 n < freemap_lokey (vd_allocator_beg (hmp_voldata ex_dev)) 0 \<or>
          freemap_hikey (hmp_total_size ex_dev) 0 \<le> seg_base 0 n then bmap_full else bmap_fresh)"
    by (rule leaf_fresh_data) blast
  have "bm ! 1 = bmap_fresh"
    using bm(3) [of 1] by (simp add: seg_base_def freemap_lokey_def freemap_hikey_def Let_def H2FMBASE_def H2FMZONEBASE_def ex_dev_def)
  moreover have "bmdata_ok ex_dev 0 bm"
    using leaf_fresh_ok [of ex_dev 0] ex_dev_geometry bm(1) by (simp add: leaf_ok_def)
  ultimately show ?thesis using that bm(1,2) by blast
qed

lemma ex_used_ok: "freemap_ok ex_used"
proof -
  obtain bm where bm: "fl_bmdata (leaf_fresh ex_dev 0) = Some bm" "length bm = 256" "bmdata_ok ex_dev 0 bm" "bm ! 1 = bmap_fresh"
    by (rule ex_used_leaf)
  have "entry_ok ex_dev 0 1 bmap_fresh" using bm(3,4) by (metis bmdata_ok_def one_less_numeral_iff semiring_norm(76))
  moreover have "byte_free bmap_fresh 0" using chunk_free_fresh [of 0 bmap_fresh] by (simp add: byte_free_def bmap_fresh_def)
  ultimately have "seg_usable ex_dev (seg_base 0 1)" unfolding entry_ok_def by force
  then have "entry_ok ex_dev 0 1 ex_entry" using ex_entry_ok by (simp add: entry_ok_def)
  then have "bmdata_ok ex_dev 0 (bm[1 := ex_entry])" using bm(2,3) by (auto simp: bmdata_ok_def nth_list_update)
  then have "leaf_ok ex_dev 0 ((leaf_fresh ex_dev 0)\<lparr> fl_bmdata := Some (bm[1 := ex_entry]) \<rparr>)"
    by (simp add: leaf_ok_def bigmask_ok_def)
  then show ?thesis
    unfolding ex_used_def bm(1) using ex_dev_inv by (intro freemap_ok_put [OF ex_dev_ok]) simp_all
qed

lemma ex_fragment_bytes:
  "recover_ok ex_fragment 10" "bref_bytes ex_fragment 10 = {4195328 ..< 4196352}" "recover_key ex_fragment = 0"
  "\<not> bit (br_data_off ex_fragment) 18" "data_off_lbase (br_data_off ex_fragment) = 4195328"
  by (simp_all add: recover_ok_def ex_fragment_def data_off_lbase_def bref_bytes_def H2FMBASE_def mask_eq_exp_minus_1 bit_iff_odd)

lemma ex_used_entry:
  assumes "4194304 \<le> x" "x < 8388608"
  shows "media_entry ex_used x = Some ex_entry" "x mod 4194304 = x - 4194304"
proof -
  obtain bm where bm: "fl_bmdata (leaf_fresh ex_dev 0) = Some bm" "length bm = 256" by (rule ex_used_leaf)
  obtain d where d: "x = 4194304 + d" "d < 4194304" using assms le_Suc_ex [of 4194304 x] by auto
  have k: "leaf_key x = 0" "x mod 1073741824 div 4194304 = 1" "x mod 4194304 = d"
    using media_pos [of 0 1 d] d by (simp_all add: add.commute)
  show "x mod 4194304 = x - 4194304" using k d by simp
  have "leaf_view ex_used 0 = (leaf_fresh ex_dev 0)\<lparr> fl_bmdata := Some (bm[1 := ex_entry]) \<rparr>"
    unfolding ex_used_def leaf_view_put [OF dev_static_refl refl] bm(1) by simp
  then show "media_entry ex_used x = Some ex_entry" by (simp add: media_entry_def k bm(2))
qed

lemma ex_fragment_state:
  assumes "x \<in> bref_bytes ex_fragment 10"
  shows "media_chunk_full ex_used x" "media_avail ex_used x"
proof -
  have x: "4194304 \<le> x" "x < 8388608" "1024 \<le> x - 4194304" "x - 4194304 < 2048" "4195328 \<le> x"
    using assms unfolding ex_fragment_bytes by auto
  have "(x - 4194304) div 16384 = 0" using x(4) by simp
  then show "media_chunk_full ex_used x" "media_avail ex_used x"
    using ex_used_entry [OF x(1,2)] x(5)
    by (simp_all add: media_chunk_full_def media_avail_entry chunk_full_def byte_free_def) (simp_all add: ex_entry_def bit_word_3)
qed


end
