(* ===== verification/Hammer2_Bulkfree.thy ===== *)
theory Hammer2_Bulkfree
  imports Hammer2_Recover
begin

text \<open>
  \<^verbatim>\<open>hammer2_bulkfree.c\<close>: the two-stage release of blocks.  A pass scans the whole topology of a
  snapshot and builds an in-memory freemap of what is in use; it then reconciles the live freemap with
  it, pair by pair: what is not in use goes from allocated (11) to staged (10) and in a later pass from
  staged to free (00), what is in use goes back to allocated.

  The topology is given as the tree \<open>hammer2_chain_scan\<close> presents.  What the kernel answers is a
  \<open>bulkfree_env\<close>.  The counters of type \<open>long\<close> are integers.  Messages and the throttle that sleeps
  when chains are scanned too fast are left out.
\<close>

unbundle bit_operations_syntax

abbreviation (input) HAMMER2_BMAP_INDEX_SIZE :: "'a::numeral" where "HAMMER2_BMAP_INDEX_SIZE \<equiv> 524288"
abbreviation (input) HAMMER2_BREF_FLAG_PFSROOT :: u8 where "HAMMER2_BREF_FLAG_PFSROOT \<equiv> 1"
abbreviation (input) HAMMER2_DEDUP_HEUR_MASK :: u32 where "HAMMER2_DEDUP_HEUR_MASK \<equiv> 0x3FFFF"

section \<open>State\<close>

text \<open>
  The topology of the snapshot as \<open>hammer2_chain_scan\<close> presents it: a chain with its block reference and
  size, \<open>bc_seen_error\<close> as its \<open>error\<close> when met without its data and \<open>bc_error\<close> once locked with it, and
  the entries the scan returns in order, with the chain instantiated for those that have one.
  \<open>bc_end\<close> is what ends the scan, \<open>EOF\<close> unless it fails.
\<close>

datatype bf_chain = BfChain (bc_bref: hammer2_blockref) (bc_bytes: nat) (bc_seen_error: h2error) (bc_error: h2error)
    (bc_entries: "bf_entry list") (bc_end: h2error)
  and bf_entry = BfEntry (be_bref: hammer2_blockref) (be_chain: "bf_chain option")

record hammer2_dedup =
  dd_data_off :: hammer2_off_t
  dd_ticks :: u32
  dd_saved_error :: h2error

text \<open>
  \<open>bf_list\<close> is the list of saved chains, each with the address of its \<open>hammer2_chain_save\<close> (a number that
  is not used twice, \<open>bf_next\<close> being the next one); \<open>bf_calls\<close> numbers the callbacks, whose signal checks
  are answered by the environment.
\<close>

record hammer2_bulkfree_info =
  bf_sbase :: hammer2_off_t
  bf_sstop :: hammer2_off_t
  bf_bmap :: "hammer2_bmap_data list"
  bf_depth :: int
  bf_count_10_00 :: int
  bf_count_11_10 :: int
  bf_count_00_11 :: int
  bf_count_01_11 :: int
  bf_count_10_11 :: int
  bf_count_l0cleans :: int
  bf_count_linadjusts :: int
  bf_count_inodes_scanned :: int
  bf_count_dirents_scanned :: int
  bf_count_dedup_factor :: int
  bf_count_bytes_scanned :: int
  bf_count_chains_scanned :: int
  bf_count_chains_reported :: int
  bf_list_alert :: bool
  bf_adj_free :: hammer2_off_t
  bf_signaled :: bool
  bf_list :: "(nat \<times> bf_chain) list"
  bf_list_count :: int
  bf_list_count_max :: int
  bf_backout :: "nat option"
  bf_dedup :: "nat \<Rightarrow> hammer2_dedup"
  bf_pri :: int
  bf_next :: nat
  bf_calls :: nat

text \<open>What the rest of the kernel answers: the signal check of each callback, the errors of
  \<open>hammer2_chain_lookup\<close> and \<open>hammer2_chain_modify\<close> on the live freemap, the
  kernel's \<open>crc32c\<close> and the module's limits.\<close>

record bulkfree_env =
  ev_signal :: "nat \<Rightarrow> bool"
  ev_lookup :: "hammer2_off_t \<Rightarrow> h2error"
  ev_modify :: "hammer2_off_t \<Rightarrow> h2error"
  ev_crc32c :: "u32 \<Rightarrow> u8 list \<Rightarrow> u32"
  ev_limit_scan_depth :: int
  ev_limit_saved_chains :: int

section \<open>The dedup heuristic\<close>

definition dedup_zero :: hammer2_dedup where
  "dedup_zero = \<lparr> dd_data_off = 0, dd_ticks = 0, dd_saved_error = 0 \<rparr>"

definition bulkfree_slot :: "bulkfree_env \<Rightarrow> hammer2_blockref \<Rightarrow> nat" where
  "bulkfree_slot env bref =
     unat (hammer2_icrc32 (ev_crc32c env) (le_bytes 8 (br_data_off bref)) AND (HAMMER2_DEDUP_HEUR_MASK AND NOT 7))"

text \<open>The loop over the eight ways: the way that holds the block, or the one to replace.\<close>

fun bulkfree_probe :: "(nat \<Rightarrow> hammer2_dedup) \<Rightarrow> nat \<Rightarrow> hammer2_off_t \<Rightarrow> nat list \<Rightarrow> nat \<Rightarrow> nat + nat" where
  "bulkfree_probe dedup slot data_off [] best = Inr best"
| "bulkfree_probe dedup slot data_off (i # is) best =
     (if dd_data_off (dedup (slot + i)) = data_off then Inl i
      else bulkfree_probe dedup slot data_off is
        (if dd_ticks (dedup (slot + i)) < dd_ticks (dedup (slot + best)) then i else best))"

definition h2_bulkfree_test ::
    "bulkfree_env \<Rightarrow> hammer2_bulkfree_info \<Rightarrow> hammer2_blockref \<Rightarrow> int \<Rightarrow> h2error \<Rightarrow> h2error \<times> hammer2_bulkfree_info" where
  "h2_bulkfree_test env cbinfo bref pri saved_error =
     (let slot = bulkfree_slot env bref; dedup = bf_dedup cbinfo in
      case bulkfree_probe dedup slot (br_data_off bref) [0..<8] 0 of
        Inl i \<Rightarrow>
          let d = dedup (slot + i);
              d = (if dd_ticks d < word_of_int pri then d\<lparr> dd_ticks := word_of_int pri \<rparr> else d)
          in (dd_saved_error d OR HAMMER2_ERROR_EOF,
              cbinfo\<lparr> bf_dedup := dedup(slot + i := d),
                bf_count_dedup_factor := bf_count_dedup_factor cbinfo + (if pri = 1 then uint (dd_ticks d) else 0) \<rparr>)
      | Inr best \<Rightarrow>
          (0, cbinfo\<lparr> bf_dedup := dedup(slot + best :=
             \<lparr> dd_data_off = br_data_off bref, dd_ticks = word_of_int pri, dd_saved_error = saved_error \<rparr>) \<rparr>))"

section \<open>The in-memory freemap\<close>

fun bmap_init_loop :: "nat \<Rightarrow> hammer2_key_t \<Rightarrow> hammer2_key_t \<Rightarrow> hammer2_key_t \<Rightarrow> hammer2_bmap_data list" where
  "bmap_init_loop 0 key lokey hikey = []"
| "bmap_init_loop (Suc n) key lokey hikey =
     (let lokey = (if lokey < H2FMBASE key HAMMER2_FREEMAP_LEVEL1_RADIX
                   then H2FMBASE key HAMMER2_FREEMAP_LEVEL1_RADIX else lokey);
          lokey = (if lokey < H2FMZONEBASE key + HAMMER2_ZONE_SEG then H2FMZONEBASE key + HAMMER2_ZONE_SEG else lokey);
          bmap = (if key < lokey \<or> key \<ge> hikey
                  then bmap_zero\<lparr> bm_bitmapq := replicate 8 (-1), bm_avail := 0, bm_linear := HAMMER2_SEGSIZE \<rparr>
                  else bmap_zero\<lparr> bm_avail := HAMMER2_FREEMAP_LEVEL0_SIZE \<rparr>)
      in bmap # bmap_init_loop n (key + HAMMER2_FREEMAP_LEVEL0_SIZE) lokey hikey)"

text \<open>\<open>nbytes\<close> bytes (the source's \<open>size\<close>) are \<open>size / sizeof(hammer2_bmap_data_t)\<close> entries of 128 bytes.\<close>

definition cbinfo_bmap_init :: "hammer2_dev \<Rightarrow> hammer2_bulkfree_info \<Rightarrow> nat \<Rightarrow> hammer2_bulkfree_info" where
  "cbinfo_bmap_init hmp cbinfo nbytes = cbinfo\<lparr> bf_bmap :=
     bmap_init_loop (nbytes div 128) (bf_sbase cbinfo)
       ((vd_allocator_beg (hmp_voldata hmp) + HAMMER2_SEGMASK) AND NOT HAMMER2_SEGMASK)
       (hmp_total_size hmp AND NOT HAMMER2_SEGMASK) \<rparr>"

text \<open>The marking loop over the 16KB chunks of a block.\<close>

fun bulkfree_mark :: "nat \<Rightarrow> nat \<Rightarrow> hammer2_bmap_data \<Rightarrow> hammer2_bmap_data" where
  "bulkfree_mark data_off bytes bmap =
     (if bytes = 0 then bmap
      else
        let bindex = data_off div HAMMER2_BMAP_INDEX_SIZE;
            bmask = push_bit (2 * (data_off mod HAMMER2_BMAP_INDEX_SIZE div HAMMER2_FREEMAP_BLOCK_SIZE)) 3;
            bmap = (if bm_bitmapq bmap ! bindex AND bmask = 0
                    then bmap\<lparr> bm_avail := bm_avail bmap -
                           (if bytes < HAMMER2_FREEMAP_BLOCK_SIZE then HAMMER2_FREEMAP_BLOCK_SIZE else of_nat bytes),
                         bm_bitmapq := (bm_bitmapq bmap)[bindex := bm_bitmapq bmap ! bindex OR bmask] \<rparr>
                    else bmap)
        in bulkfree_mark (data_off + HAMMER2_FREEMAP_BLOCK_SIZE) (bytes - HAMMER2_FREEMAP_BLOCK_SIZE) bmap)"

declare bulkfree_mark.simps [simp del]

text \<open>A block of \<open>bytes\<close> at \<open>data_off\<close> of its segment entered in the entry of the segment.\<close>

definition bulkfree_enter :: "u16 \<Rightarrow> nat \<Rightarrow> nat \<Rightarrow> hammer2_bmap_data \<Rightarrow> hammer2_bmap_data" where
  "bulkfree_enter class data_off bytes bmap =
     (let bmap = (if bm_class bmap = 0 then bmap\<lparr> bm_class := class, bm_avail := HAMMER2_FREEMAP_LEVEL0_SIZE \<rparr> else bmap);
          last = int data_off + int bytes;
          bmap = (if bytes mod HAMMER2_FREEMAP_BLOCK_SIZE \<noteq> 0
                  then (if bm_linear bmap < last then bmap\<lparr> bm_linear := last \<rparr> else bmap)
                  else if bm_linear bmap \<ge> int data_off \<and> bm_linear bmap < last then bmap\<lparr> bm_linear := last \<rparr>
                  else bmap)
      in bulkfree_mark data_off bytes bmap)"

definition h2_bulkfree_callback ::
    "bulkfree_env \<Rightarrow> hammer2_dev \<Rightarrow> hammer2_bulkfree_info \<Rightarrow> hammer2_blockref \<Rightarrow>
     (h2error \<times> hammer2_bulkfree_info) option" where
  "h2_bulkfree_callback env hmp cbinfo bref =
     (let sig = ev_signal env (bf_calls cbinfo);
          cbinfo = cbinfo\<lparr> bf_calls := Suc (bf_calls cbinfo) \<rparr>;
          data_off = data_off_lbase (br_data_off bref)
      in
      if sig \<and> \<not> bf_signaled cbinfo then Some (HAMMER2_ERROR_ABORTED, cbinfo\<lparr> bf_signaled := True \<rparr>)
      else if data_off < bf_sbase cbinfo \<or> data_off \<ge> bf_sstop cbinfo then Some (0, cbinfo)
      else if data_off < vd_allocator_beg (hmp_voldata hmp) then Some (0, cbinfo)
      else if data_off \<ge> hmp_total_size hmp then Some (0, cbinfo)
      else do {
        let radix = unat (br_data_off bref AND HAMMER2_OFF_MASK_RADIX);
        KKASSERT (radix \<noteq> 0);
        let bytes = push_bit radix (1 :: u64);
        let bytes = (if data_off + bytes > bf_sstop cbinfo then bf_sstop cbinfo - data_off else bytes);
        let data_off = data_off - bf_sbase cbinfo;
        let n = unat (drop_bit HAMMER2_SEGRADIX data_off);
        let data_off = data_off AND HAMMER2_SEGMASK;
        let bytes = (if data_off + bytes > HAMMER2_FREEMAP_LEVEL0_SIZE then HAMMER2_FREEMAP_LEVEL0_SIZE - data_off else bytes);
        if n < length (bf_bmap cbinfo)
        then Some (0, cbinfo\<lparr> bf_bmap := (bf_bmap cbinfo)[n :=
               bulkfree_enter (freemap_class (br_type bref)) (unat data_off) (unat bytes) (bf_bmap cbinfo ! n)] \<rparr>)
        else None })"

section \<open>Hints\<close>

text \<open>The inner loop of \<open>bigmask_get\<close>: is one of the windows of \<open>iter\<close> bits free?  The window is moved
  \<open>64 / iter\<close> times.\<close>

fun bigmask_windows :: "nat \<Rightarrow> hammer2_bitmap_t \<Rightarrow> nat \<Rightarrow> hammer2_bitmap_t \<Rightarrow> u32 \<Rightarrow> u32 \<Rightarrow> u32" where
  "bigmask_windows 0 bits iter scan radix_mask bigmask = bigmask"
| "bigmask_windows (Suc n) bits iter scan radix_mask bigmask =
     bigmask_windows n bits iter (push_bit iter scan) radix_mask
       (if scan AND bits = 0 then bigmask OR radix_mask else bigmask)"

fun bigmask_iters :: "nat list \<Rightarrow> hammer2_bitmap_t \<Rightarrow> u32 \<Rightarrow> u32 \<Rightarrow> u32" where
  "bigmask_iters [] bits radix_mask bigmask = bigmask"
| "bigmask_iters (iter # iters) bits radix_mask bigmask =
     (let scan = (if iter = 64 then -1 else push_bit iter 1 - 1);
          bigmask = bigmask_windows (64 div iter) bits iter scan radix_mask bigmask
      in bigmask_iters iters bits (push_bit 1 radix_mask OR 1) bigmask)"

text \<open>\<open>iter\<close> takes the values 2, 4, 8 and so on up to the width of an element.\<close>

definition bigmask_get :: "hammer2_bmap_data \<Rightarrow> u32" where
  "bigmask_get bmap = fold (\<lambda>i bigmask. bigmask_iters [2, 4, 8, 16, 32, 64] (bm_bitmapq bmap ! i) 0x7FFF bigmask) [0..<8] 0"

definition bigmask_good :: "hammer2_bmap_data \<Rightarrow> u32 \<Rightarrow> bool" where
  "bigmask_good bmap live_bigmask \<longleftrightarrow> live_bigmask AND bigmask_get bmap = bigmask_get bmap"

section \<open>Reconciling the live freemap\<close>

type_synonym sync_state = "hammer2_dev \<times> hammer2_bulkfree_info \<times> hammer2_bmap_data"

text \<open>One pair of an element: \<open>m\<close> of the scan against \<open>l\<close> of the live freemap.\<close>

definition sync_pair :: "nat \<Rightarrow> nat \<Rightarrow> hammer2_off_t \<Rightarrow> hammer2_bitmap_t \<Rightarrow> hammer2_bitmap_t \<Rightarrow> sync_state \<Rightarrow> sync_state option" where
  "sync_pair bindex scount tmp_off m l s = (case s of (hmp, cbinfo, live) \<Rightarrow>
     let q = bm_bitmapq live ! bindex in
     if m = 0 then
       (if l = 2 then do {
          let live = live\<lparr> bm_bitmapq := (bm_bitmapq live)[bindex := q AND NOT (push_bit scount 2)] \<rparr>;
          let avail = bm_avail live + HAMMER2_FREEMAP_BLOCK_SIZE;
          let avail = (if avail > HAMMER2_FREEMAP_LEVEL0_SIZE then HAMMER2_FREEMAP_LEVEL0_SIZE else avail);
          let cbinfo = cbinfo\<lparr> bf_adj_free := bf_adj_free cbinfo + HAMMER2_FREEMAP_BLOCK_SIZE,
                               bf_count_10_00 := bf_count_10_00 cbinfo + 1 \<rparr>;
          hmp \<leftarrow> hammer2_io_dedup_assert hmp (tmp_off OR HAMMER2_FREEMAP_BLOCK_RADIX) HAMMER2_FREEMAP_BLOCK_SIZE;
          Some (hmp, cbinfo, live\<lparr> bm_avail := avail \<rparr>) }
        else if l = 3 then do {
          let live = live\<lparr> bm_bitmapq := (bm_bitmapq live)[bindex := q AND NOT (push_bit scount 1)] \<rparr>;
          let cbinfo = cbinfo\<lparr> bf_count_11_10 := bf_count_11_10 cbinfo + 1 \<rparr>;
          hmp \<leftarrow> hammer2_io_dedup_delete hmp HAMMER2_BREF_TYPE_DATA (tmp_off OR HAMMER2_FREEMAP_BLOCK_RADIX)
            HAMMER2_FREEMAP_BLOCK_SIZE;
          Some (hmp, cbinfo, live) }
        else Some (hmp, cbinfo, live))
     else if m = 3 then
       (let (cbinfo, live) =
          (if l = 0 then
             (cbinfo\<lparr> bf_count_00_11 := bf_count_00_11 cbinfo + 1,
                      bf_adj_free := bf_adj_free cbinfo - HAMMER2_FREEMAP_BLOCK_SIZE \<rparr>,
              let avail = bm_avail live - HAMMER2_FREEMAP_BLOCK_SIZE
              in live\<lparr> bm_avail := (if sint avail < 0 then 0 else avail) \<rparr>)
           else if l = 1 then (cbinfo\<lparr> bf_count_01_11 := bf_count_01_11 cbinfo + 1 \<rparr>, live)
           else if l = 2 then (cbinfo\<lparr> bf_count_10_11 := bf_count_10_11 cbinfo + 1 \<rparr>, live)
           else (cbinfo, live))
        in Some (hmp, cbinfo, live\<lparr> bm_bitmapq := (bm_bitmapq live)[bindex := q OR push_bit scount 3] \<rparr>))
     else Some (hmp, cbinfo, live))"

fun sync_pairs :: "nat \<Rightarrow> nat \<Rightarrow> nat \<Rightarrow> hammer2_off_t \<Rightarrow> hammer2_bitmap_t \<Rightarrow> hammer2_bitmap_t \<Rightarrow> sync_state \<Rightarrow>
    (hammer2_off_t \<times> sync_state) option" where
  "sync_pairs 0 bindex scount tmp_off mmask lmask s = Some (tmp_off, s)"
| "sync_pairs (Suc n) bindex scount tmp_off mmask lmask s = do {
     s \<leftarrow> sync_pair bindex scount tmp_off (mmask AND 3) (lmask AND 3) s;
     sync_pairs n bindex (scount + 2) (tmp_off + HAMMER2_FREEMAP_BLOCK_SIZE) (drop_bit 2 mmask) (drop_bit 2 lmask) s }"

fun sync_elements :: "nat list \<Rightarrow> hammer2_off_t \<Rightarrow> hammer2_bmap_data \<Rightarrow> sync_state \<Rightarrow> sync_state option" where
  "sync_elements [] tmp_off bmap s = Some s"
| "sync_elements (bindex # bs) tmp_off bmap s = (case s of (hmp, cbinfo, live) \<Rightarrow>
     let lmask = bm_bitmapq live ! bindex; mmask = bm_bitmapq bmap ! bindex in
     if lmask = mmask then sync_elements bs (tmp_off + HAMMER2_BMAP_INDEX_SIZE) bmap s
     else do {
       (tmp_off, s) \<leftarrow> sync_pairs 32 bindex 0 tmp_off mmask lmask s;
       sync_elements bs tmp_off bmap s })"

text \<open>The last element that is not free, counting down; \<open>None\<close> when there is none.\<close>

definition last_used :: "hammer2_bmap_data \<Rightarrow> nat option" where
  "last_used live = List.find (\<lambda>i. bm_bitmapq live ! i \<noteq> 0) (rev [0..<8])"

definition sync_linear :: "hammer2_bmap_data \<Rightarrow> hammer2_bulkfree_info \<times> hammer2_bmap_data \<Rightarrow>
    hammer2_bulkfree_info \<times> hammer2_bmap_data" where
  "sync_linear bmap s = (case s of (cbinfo, live) \<Rightarrow>
     (case last_used live of
        None \<Rightarrow> (cbinfo\<lparr> bf_count_l0cleans := bf_count_l0cleans cbinfo + 1 \<rparr>,
                 live\<lparr> bm_avail := HAMMER2_FREEMAP_LEVEL0_SIZE, bm_class := 0, bm_linear := 0 \<rparr>)
      | Some bindex \<Rightarrow>
          if bindex < 7 then
            (cbinfo\<lparr> bf_count_linadjusts := bf_count_linadjusts cbinfo + 1 \<rparr>,
             if bm_linear live < bm_linear bmap \<and> (bm_linear live XOR bm_linear bmap) AND NOT 16383 = 0
             then live\<lparr> bm_linear := bm_linear bmap \<rparr>
             else live\<lparr> bm_linear := (bm_linear bmap + 16383) AND NOT 16383 \<rparr>)
          else (cbinfo, live\<lparr> bm_linear := HAMMER2_SEGSIZE \<rparr>)))"

definition h2_bulkfree_sync_adjust :: "hammer2_off_t \<Rightarrow> hammer2_bmap_data \<Rightarrow> sync_state \<Rightarrow> sync_state option" where
  "h2_bulkfree_sync_adjust data_off bmap s = do {
     (hmp, cbinfo, live) \<leftarrow> sync_elements [0..<8] data_off bmap s;
     let (cbinfo, live) = sync_linear bmap (cbinfo, live);
     Some (hmp, cbinfo, live) }"

text \<open>
  The loop of \<open>h2_bulkfree_sync\<close>.  \<open>live\<close> is the key of the leaf held from the last round, if any.  A
  lookup that fails returns no chain, and the message about it reads \<open>live_chain->error\<close>.
\<close>

fun bulkfree_sync_loop ::
    "bulkfree_env \<Rightarrow> hammer2_off_t \<Rightarrow> hammer2_bmap_data list \<Rightarrow> hammer2_key_t option \<Rightarrow>
     hammer2_dev \<Rightarrow> hammer2_bulkfree_info \<Rightarrow> (h2error \<times> hammer2_dev \<times> hammer2_bulkfree_info) option" where
  "bulkfree_sync_loop env data_off [] live hmp cbinfo = (if data_off < bf_sstop cbinfo then None else Some (0, hmp, cbinfo))"
| "bulkfree_sync_loop env data_off (bmap # bmaps) live hmp cbinfo =
     (if \<not> data_off < bf_sstop cbinfo then Some (0, hmp, cbinfo)
      else if data_off < vd_allocator_beg (hmp_voldata hmp) \<or> data_off \<ge> hmp_total_size hmp
      then bulkfree_sync_loop env (data_off + HAMMER2_FREEMAP_LEVEL0_SIZE) bmaps live hmp cbinfo
      else
        let key = data_off AND NOT HAMMER2_FREEMAP_LEVEL1_MASK;
            held = (live = Some key);
            error = (if held then 0 else ev_lookup env data_off) in
        if error \<noteq> 0 then None
        else
          (case hmp_fleaves hmp key of
             None \<Rightarrow> bulkfree_sync_loop env (data_off + HAMMER2_FREEMAP_LEVEL0_SIZE) bmaps None hmp cbinfo
           | Some leaf \<Rightarrow>
               if fl_error leaf \<noteq> 0
               then bulkfree_sync_loop env (data_off + HAMMER2_FREEMAP_LEVEL0_SIZE) bmaps None hmp cbinfo
               else do {
                 bmdata \<leftarrow> fl_bmdata leaf;
                 let n = unat (drop_bit HAMMER2_SEGRADIX (data_off AND HAMMER2_FREEMAP_LEVEL1_MASK));
                 let entry = bmdata ! n;
                 if bm_bitmapq entry = bm_bitmapq bmap \<and> bm_linear entry \<ge> bm_linear bmap \<and> bigmask_good bmap (fl_bigmask leaf)
                 then bulkfree_sync_loop env (data_off + HAMMER2_FREEMAP_LEVEL0_SIZE) bmaps (Some key) hmp cbinfo
                 else if ev_modify env data_off \<noteq> 0
                 then bulkfree_sync_loop env (data_off + HAMMER2_FREEMAP_LEVEL0_SIZE) bmaps None
                        (hmp\<lparr> hmp_fleaves := (hmp_fleaves hmp)(key \<mapsto> leaf_modify (ev_modify env data_off) leaf) \<rparr>) cbinfo
                 else do {
                   (hmp, cbinfo, entry) \<leftarrow> h2_bulkfree_sync_adjust data_off bmap
                     (hmp\<lparr> hmp_freemap_relaxed := False \<rparr>, cbinfo, entry);
                   let leaf = leaf\<lparr> fl_bigmask := -1, fl_bmdata := Some (bmdata[n := entry]) \<rparr>;
                   bulkfree_sync_loop env (data_off + HAMMER2_FREEMAP_LEVEL0_SIZE) bmaps (Some key)
                     (hmp\<lparr> hmp_fleaves := (hmp_fleaves hmp)(key \<mapsto> leaf) \<rparr>) cbinfo } }))"

definition h2_bulkfree_sync ::
    "bulkfree_env \<Rightarrow> hammer2_dev \<Rightarrow> hammer2_bulkfree_info \<Rightarrow> (h2error \<times> hammer2_dev \<times> hammer2_bulkfree_info) option" where
  "h2_bulkfree_sync env hmp cbinfo = bulkfree_sync_loop env (bf_sbase cbinfo) (bf_bmap cbinfo) None hmp cbinfo"

section \<open>The scan of the topology\<close>

definition bf_recurses :: "u8 \<Rightarrow> bool" where
  "bf_recurses t \<longleftrightarrow> t \<in> {HAMMER2_BREF_TYPE_INODE, HAMMER2_BREF_TYPE_FREEMAP_NODE, HAMMER2_BREF_TYPE_INDIRECT,
     HAMMER2_BREF_TYPE_VOLUME, HAMMER2_BREF_TYPE_FREEMAP}"

definition bf_pfsroot :: "bf_chain \<Rightarrow> bool" where
  "bf_pfsroot parent \<longleftrightarrow> br_type (bc_bref parent) = HAMMER2_BREF_TYPE_INODE \<and>
     br_flags (bc_bref parent) AND HAMMER2_BREF_FLAG_PFSROOT \<noteq> 0"

text \<open>The list of saved chains: insertion after the element at an address, and at the head.\<close>

fun list_insert_after :: "nat \<Rightarrow> nat \<times> bf_chain \<Rightarrow> (nat \<times> bf_chain) list \<Rightarrow> (nat \<times> bf_chain) list" where
  "list_insert_after a x [] = []"
| "list_insert_after a x (y # ys) = (if fst y = a then y # x # ys else y # list_insert_after a x ys)"

definition list_first :: "(nat \<times> bf_chain) list \<Rightarrow> nat option" where
  "list_first l = (case l of [] \<Rightarrow> None | x # _ \<Rightarrow> Some (fst x))"

definition bulkfree_defer :: "bulkfree_env \<Rightarrow> bf_chain \<Rightarrow> hammer2_bulkfree_info \<Rightarrow> hammer2_bulkfree_info" where
  "bulkfree_defer env chain info =
     (let info = (if bf_list_count info > ev_limit_saved_chains env \<and> \<not> bf_list_alert info
                  then info\<lparr> bf_list_alert := True \<rparr> else info);
          save = (bf_next info, chain);
          info = info\<lparr> bf_next := Suc (bf_next info),
                   bf_list := (case bf_backout info of
                       Some a \<Rightarrow> list_insert_after a save (bf_list info)
                     | None \<Rightarrow> save # bf_list info),
                   bf_backout := Some (fst save),
                   bf_list_count := bf_list_count info + 1 \<rparr>
      in info\<lparr> bf_list_count_max := max (bf_list_count_max info) (bf_list_count info), bf_pri := bf_pri info + 10 \<rparr>)"

definition bulkfree_must_defer :: "bulkfree_env \<Rightarrow> hammer2_bulkfree_info \<Rightarrow> bool" where
  "bulkfree_must_defer env info \<longleftrightarrow> bf_depth info > 16 \<or> bf_backout info \<noteq> None \<or>
     bf_depth info > ev_limit_scan_depth env \<and> bf_list_count info \<ge> ev_limit_saved_chains env div 4"

definition bulkfree_count_chain :: "bf_chain \<Rightarrow> hammer2_bulkfree_info \<Rightarrow> hammer2_bulkfree_info" where
  "bulkfree_count_chain chain info =
     (let info = info\<lparr> bf_count_bytes_scanned := bf_count_bytes_scanned info + int (bc_bytes chain),
                       bf_count_chains_scanned := bf_count_chains_scanned info + 1 \<rparr>
      in if bf_count_chains_scanned info \<ge> bf_count_chains_reported info + 1000000 \<or>
            bf_count_chains_scanned info < 1000000 \<and> bf_count_chains_scanned info \<ge> bf_count_chains_reported info + 100000
         then info\<lparr> bf_count_chains_reported := bf_count_chains_scanned info \<rparr> else info)"

text \<open>
  \<open>hammer2_bulkfree_scan\<close>: its start, its loop over the entries of \<open>parent\<close> (\<open>es\<close> those still to come,
  \<open>tail\<close> the head of the list of saved chains at the start) and the loop that runs the chains saved
  below the root of a PFS.
\<close>

datatype bf_task =
    BF_SCAN bf_chain
  | BF_LOOP bf_chain "bf_entry list" "nat option" h2error h2error
  | BF_RERUN bf_chain "nat option" h2error h2error

definition bf_scan_end :: "bulkfree_env \<Rightarrow> bf_chain \<Rightarrow> h2error \<Rightarrow> hammer2_bulkfree_info \<Rightarrow> h2error \<times> hammer2_bulkfree_info" where
  "bf_scan_end env parent error info =
     (let (_, info) = h2_bulkfree_test env info (bc_bref parent) (bf_pri info + 1) (error AND NOT HAMMER2_ERROR_EOF)
      in (error AND NOT HAMMER2_ERROR_EOF, info))"

partial_function (option) bulkfree_run ::
    "bulkfree_env \<Rightarrow> hammer2_dev \<Rightarrow> bf_task \<Rightarrow> hammer2_bulkfree_info \<Rightarrow> (h2error \<times> hammer2_bulkfree_info) option" where
  "bulkfree_run env hmp task info = (case task of
     BF_SCAN parent \<Rightarrow>
       (let info = info\<lparr> bf_pri := bf_pri info + 1 \<rparr> in
        if bc_error parent AND HAMMER2_ERROR_CHECK \<noteq> 0
        then Some (bc_error parent AND NOT HAMMER2_ERROR_EOF, info)
        else bulkfree_run env hmp (BF_LOOP parent (bc_entries parent) (list_first (bf_list info)) 0 0) info)
   | BF_LOOP parent es tail error rup_error \<Rightarrow>
       (let error = (case es of [] \<Rightarrow> error OR bc_end parent | _ # _ \<Rightarrow> error) in
        if error AND NOT HAMMER2_ERROR_CHECK \<noteq> 0
        then bulkfree_run env hmp (BF_RERUN parent tail error rup_error) info
        else if es = [] then None
        else
          let bref = be_bref (hd es);
              info = (if br_type bref = HAMMER2_BREF_TYPE_DIRENT
                      then info\<lparr> bf_count_dirents_scanned := bf_count_dirents_scanned info + 1 \<rparr> else info) in
          if data_off_lbase (br_data_off bref) = 0
          then bulkfree_run env hmp (BF_LOOP parent (tl es) tail error rup_error) info
          else
            let (e2, info) = h2_bulkfree_test env (info\<lparr> bf_pri := bf_pri info + 1 \<rparr>) bref 1 0 in
            if e2 \<noteq> 0
            then bulkfree_run env hmp (BF_LOOP parent (tl es) tail (error OR e2 AND NOT HAMMER2_ERROR_EOF) rup_error) info
            else do {
              let info = (if br_type bref = HAMMER2_BREF_TYPE_INODE
                          then info\<lparr> bf_count_inodes_scanned := bf_count_inodes_scanned info + 1 \<rparr> else info);
              (e3, info) \<leftarrow> h2_bulkfree_callback env hmp info bref;
              let error = error OR e3;
              if error AND NOT HAMMER2_ERROR_CHECK \<noteq> 0
              then bulkfree_run env hmp (BF_RERUN parent tail error rup_error) info
              else (case be_chain (hd es) of
                  None \<Rightarrow> bulkfree_run env hmp (BF_LOOP parent (tl es) tail error rup_error) info
                | Some chain \<Rightarrow> do {
                    let info = bulkfree_count_chain chain info;
                    (rup_error, info) \<leftarrow>
                      (if bf_recurses (br_type (bc_bref chain)) then do {
                         let info = info\<lparr> bf_depth := bf_depth info + 1 \<rparr>;
                         (rup_error, info) \<leftarrow>
                           (if bc_seen_error chain AND HAMMER2_ERROR_CHECK \<noteq> 0 then Some (rup_error, info)
                            else if bulkfree_must_defer env info then Some (rup_error, bulkfree_defer env chain info)
                            else do {
                              let savepri = bf_pri info;
                              (e4, info) \<leftarrow> bulkfree_run env hmp (BF_SCAN chain) (info\<lparr> bf_pri := 0 \<rparr>);
                              Some (rup_error OR e4, info\<lparr> bf_pri := bf_pri info + savepri \<rparr>) });
                         Some (rup_error, info\<lparr> bf_depth := bf_depth info - 1 \<rparr>) }
                       else Some (rup_error, info));
                    if rup_error AND HAMMER2_ERROR_ABORTED \<noteq> 0
                    then bulkfree_run env hmp (BF_RERUN parent tail error rup_error) info
                    else bulkfree_run env hmp (BF_LOOP parent (tl es) tail error rup_error) info }) })
   | BF_RERUN parent tail error rup_error \<Rightarrow>
       (if bf_pfsroot parent \<and> list_first (bf_list info) \<noteq> tail
        then (case bf_list info of
                [] \<Rightarrow> None
              | save # l \<Rightarrow> do {
                  let savepri = bf_pri info;
                  (e, info) \<leftarrow> bulkfree_run env hmp (BF_SCAN (snd save))
                    (info\<lparr> bf_list := l, bf_backout := None, bf_list_count := bf_list_count info - 1, bf_pri := 0 \<rparr>);
                  bulkfree_run env hmp (BF_RERUN parent tail error (rup_error OR e)) (info\<lparr> bf_pri := savepri \<rparr>) })
        else Some (bf_scan_end env parent (error OR rup_error) info)))"

definition hammer2_bulkfree_scan ::
    "bulkfree_env \<Rightarrow> hammer2_dev \<Rightarrow> bf_chain \<Rightarrow> hammer2_bulkfree_info \<Rightarrow> (h2error \<times> hammer2_bulkfree_info) option" where
  "hammer2_bulkfree_scan env hmp parent info = bulkfree_run env hmp (BF_SCAN parent) info"

section \<open>A pass\<close>

text \<open>The chains that were saved, as long as no error stops the scan.\<close>

partial_function (option) bulkfree_drain ::
    "bulkfree_env \<Rightarrow> hammer2_dev \<Rightarrow> h2error \<Rightarrow> hammer2_bulkfree_info \<Rightarrow> (h2error \<times> hammer2_bulkfree_info) option" where
  "bulkfree_drain env hmp error info = (case bf_list info of
     [] \<Rightarrow> Some (error, info)
   | save # l \<Rightarrow>
       if error AND NOT HAMMER2_ERROR_CHECK \<noteq> 0 then Some (error, info)
       else do {
         (e, info) \<leftarrow> hammer2_bulkfree_scan env hmp (snd save)
           (info\<lparr> bf_list := l, bf_list_count := bf_list_count info - 1, bf_pri := 0, bf_backout := None \<rparr>);
         bulkfree_drain env hmp (error OR e) info })"

text \<open>The scan of one window of the media, with what is left on the list given up.\<close>

definition bulkfree_gather ::
    "bulkfree_env \<Rightarrow> hammer2_dev \<Rightarrow> bf_chain \<Rightarrow> h2error \<Rightarrow> hammer2_bulkfree_info \<Rightarrow> (h2error \<times> hammer2_bulkfree_info) option" where
  "bulkfree_gather env hmp vchain error info = do {
     (e, info) \<leftarrow> hammer2_bulkfree_scan env hmp vchain (info\<lparr> bf_pri := 0 \<rparr>);
     (error, info) \<leftarrow> bulkfree_drain env hmp (error OR e) info;
     Some (error, info\<lparr> bf_list_count := bf_list_count info - int (length (bf_list info)), bf_list := [], bf_backout := None \<rparr>) }"

definition bulkfree_window_start :: "hammer2_dev \<Rightarrow> u64 \<Rightarrow> hammer2_bulkfree_info \<Rightarrow> hammer2_bulkfree_info" where
  "bulkfree_window_start hmp nbytes info =
     (let info = (cbinfo_bmap_init hmp info (unat nbytes))\<lparr> bf_dedup := (\<lambda>_. dedup_zero), bf_count_inodes_scanned := 0,
            bf_count_dirents_scanned := 0, bf_count_bytes_scanned := 0, bf_count_chains_scanned := 0,
            bf_count_chains_reported := 0 \<rparr>;
          incr = nbytes div HAMMER2_FREEMAP_LEVELN_PSIZE * HAMMER2_FREEMAP_LEVEL1_SIZE
      in if hmp_total_size hmp - bf_sbase info \<le> incr then info\<lparr> bf_sstop := hmp_total_size hmp \<rparr>
         else info\<lparr> bf_sstop := bf_sbase info + incr \<rparr>)"

definition voldata_free_add :: "hammer2_off_t \<Rightarrow> hammer2_dev \<Rightarrow> hammer2_dev" where
  "voldata_free_add adj hmp = hmp\<lparr> hmp_voldata := (hmp_voldata hmp)\<lparr>
     vd_allocator_free := vd_allocator_free (hmp_voldata hmp) + adj \<rparr>, hmp_voldata_modified := True \<rparr>"

partial_function (option) bulkfree_windows ::
    "bulkfree_env \<Rightarrow> bf_chain \<Rightarrow> u64 \<Rightarrow> h2error \<Rightarrow> hammer2_dev \<Rightarrow> hammer2_bulkfree_info \<Rightarrow>
     (h2error \<times> hammer2_dev \<times> hammer2_bulkfree_info) option" where
  "bulkfree_windows env vchain nbytes error hmp info =
     (if \<not> bf_sbase info < hmp_total_size hmp then Some (error, hmp, info)
      else do {
        (error, info) \<leftarrow> bulkfree_gather env hmp vchain error (bulkfree_window_start hmp nbytes info);
        (error, hmp, info) \<leftarrow>
          (if error AND NOT HAMMER2_ERROR_CHECK \<noteq> 0 then Some (error, hmp, info)
           else do {
             (error, hmp, info) \<leftarrow> h2_bulkfree_sync env hmp info;
             Some (error, voldata_free_add (bf_adj_free info) hmp, info) });
        if error AND NOT HAMMER2_ERROR_CHECK \<noteq> 0 then Some (error, hmp, info)
        else bulkfree_windows env vchain nbytes error hmp (info\<lparr> bf_sbase := bf_sstop info, bf_adj_free := 0 \<rparr>) })"

definition bulkfree_info_zero :: hammer2_bulkfree_info where
  "bulkfree_info_zero = \<lparr> bf_sbase = 0, bf_sstop = 0, bf_bmap = [], bf_depth = 0, bf_count_10_00 = 0, bf_count_11_10 = 0,
     bf_count_00_11 = 0, bf_count_01_11 = 0, bf_count_10_11 = 0, bf_count_l0cleans = 0, bf_count_linadjusts = 0,
     bf_count_inodes_scanned = 0, bf_count_dirents_scanned = 0, bf_count_dedup_factor = 0, bf_count_bytes_scanned = 0,
     bf_count_chains_scanned = 0, bf_count_chains_reported = 0, bf_list_alert = False, bf_adj_free = 0,
     bf_signaled = False, bf_list = [], bf_list_count = 0, bf_list_count_max = 0, bf_backout = None,
     bf_dedup = (\<lambda>_. dedup_zero), bf_pri = 0, bf_next = 0, bf_calls = 0 \<rparr>"

text \<open>The size of the buffer in bytes: as asked for, but no more than the media needs and no less than 1MB.\<close>

definition bulkfree_nbytes :: "hammer2_dev \<Rightarrow> u64 \<Rightarrow> u64" where
  "bulkfree_nbytes hmp asked =
     (let up = (\<lambda>x. (x + HAMMER2_FREEMAP_LEVELN_PSIZE - 1) AND NOT (HAMMER2_FREEMAP_LEVELN_PSIZE - 1));
          nbytes = up asked;
          nbytes = (if nbytes > hmp_total_size hmp div 32768 then (hmp_total_size hmp + 32767) div 32768 else nbytes);
          nbytes = (if nbytes < 1048576 then 1048576 else nbytes)
      in up nbytes)"

text \<open>The result is the error, the device, the final \<open>cbinfo\<close> and \<open>bfi->sstop\<close>.  \<open>hammer2_dedup_clear\<close> works on
  a table of the device that is not part of the model.\<close>

definition hammer2_bulkfree_pass ::
    "bulkfree_env \<Rightarrow> hammer2_dev \<Rightarrow> bf_chain \<Rightarrow> u64 \<Rightarrow> hammer2_off_t \<Rightarrow>
     (h2error \<times> hammer2_dev \<times> hammer2_bulkfree_info \<times> hammer2_off_t) option" where
  "hammer2_bulkfree_pass env hmp vchain asked sbase = do {
     let sbase = (if sbase > hmp_total_size hmp then hmp_total_size hmp else sbase) AND NOT HAMMER2_FREEMAP_LEVEL1_MASK;
     (error, hmp, info) \<leftarrow> bulkfree_windows env vchain (bulkfree_nbytes hmp asked) 0 hmp (bulkfree_info_zero\<lparr> bf_sbase := sbase \<rparr>);
     KKASSERT (hmp_total_size hmp div 10000 \<noteq> 0);
     Some (error, hmp, info, bf_sbase info) }"

end
