(* ===== verification/Hammer2_Scan.thy ===== *)
theory Hammer2_Scan
  imports "HOL-Library.Multiset" Hammer2_Bulkfree
begin

text \<open>
  The scan of the topology by \<^verbatim>\<open>hammer2_bulkfree.c\<close>: what a callback marks in the in-memory freemap, and that the scan
  with its dedup heuristic and its list of deferred chains ends, misses no block and marks nothing else.

  The argument: every entry below a chain that was visited is marked or lies below a deferred chain that is no larger
  (\<open>good\<close>); scanning a chain relies on smaller chains only, so a deferred chain never stands for itself, and taking it from the
  list replaces it by smaller ones, which ends by the multiset order.
\<close>

unbundle bit_operations_syntax

section \<open>What a callback marks\<close>

text \<open>Entries of the in-memory freemap: every pair is free or fully allocated.\<close>

definition mem_entry_ok :: "hammer2_bmap_data \<Rightarrow> bool" where
  "mem_entry_ok b \<longleftrightarrow> length (bm_bitmapq b) = 8 \<and> (\<forall>c < 256. chunk_free b c \<or> chunk_full b c)"

lemma chunk_full_bits: "p < 32 \<Longrightarrow> chunk_full b (32 * i + p) \<longleftrightarrow> bit (bm_bitmapq b ! i) (2 * p) \<and> bit (bm_bitmapq b ! i) (2 * p + 1)"
  by (simp add: chunk_full_def)

lemma chunk_split: "c < 256 \<Longrightarrow> \<exists>i p. c = 32 * i + p \<and> i < 8 \<and> p < (32 :: nat)"
  by (rule exI [of _ "c div 32"], rule exI [of _ "c mod 32"]) (simp add: less_mult_imp_div_less)

lemma chunk_inj: "p < 32 \<Longrightarrow> r < 32 \<Longrightarrow> 32 * i + p = 32 * j + r \<longleftrightarrow> i = j \<and> p = (r :: nat)"
  by (metis (no_types, lifting) add_diff_cancel_left' div_mult_self4 div_less add_0_right zero_neq_numeral)

text \<open>Setting one pair.\<close>

definition mark_chunk :: "nat \<Rightarrow> hammer2_bmap_data \<Rightarrow> hammer2_bmap_data" where
  "mark_chunk c b = b\<lparr> bm_bitmapq := (bm_bitmapq b)[c div 32 := bm_bitmapq b ! (c div 32) OR push_bit (2 * (c mod 32)) 3] \<rparr>"

lemma mark_chunk_full:
  assumes "length (bm_bitmapq b) = 8" "c < 256" "d < 256"
  shows "chunk_full (mark_chunk c b) d \<longleftrightarrow> chunk_full b d \<or> d = c" "chunk_free (mark_chunk c b) d \<longleftrightarrow> chunk_free b d \<and> d \<noteq> c"
proof -
  obtain i p where c: "c = 32 * i + p" "i < 8" "p < 32" using chunk_split [OF assms(2)] by blast
  obtain j r where d: "d = 32 * j + r" "j < 8" "r < 32" using chunk_split [OF assms(3)] by blast
  have cd: "c div 32 = i" "c mod 32 = p" "d div 32 = j" "d mod 32 = r" using c d by simp_all
  have 3: "bit (push_bit (2 * p) (3 :: u64)) n \<longleftrightarrow> n = 2 * p \<or> n = 2 * p + 1" if "n < 64" for n
    using that unfolding bitrun_2 bit_bitrun by auto
  have eq: "d = c \<longleftrightarrow> j = i \<and> r = p" using chunk_inj [OF d(3) c(3), of j i] c d by simp
  show "chunk_full (mark_chunk c b) d \<longleftrightarrow> chunk_full b d \<or> d = c"
    unfolding eq chunk_full_def mark_chunk_def cd using assms(1) c d 3 [of "2 * r"] 3 [of "2 * r + 1"]
    by (cases "j = i") (auto simp: bit_or_iff)
  show "chunk_free (mark_chunk c b) d \<longleftrightarrow> chunk_free b d \<and> d \<noteq> c"
    unfolding eq chunk_free_def pair_free_def mark_chunk_def cd using assms(1) c d 3 [of "2 * r"] 3 [of "2 * r + 1"]
    by (cases "j = i") (auto simp: bit_or_iff)
qed

lemma pair_zero_free: "p < 32 \<Longrightarrow> bm_bitmapq b ! i AND push_bit (2 * p) 3 = 0 \<longleftrightarrow> chunk_free b (32 * i + p)"
  using and_bitrun_pairs [of p 1 "bm_bitmapq b ! i"]
  by (auto simp: bitrun_2 chunk_free_def less_Suc_eq_le dest: antisym)

lemma mark_step:
  assumes "mem_entry_ok b" "c < 256"
    and b': "b' = (if bm_bitmapq b ! (c div 32) AND push_bit (2 * (c mod 32)) 3 = 0
      then b\<lparr> bm_avail := a, bm_bitmapq := (bm_bitmapq b)[c div 32 := bm_bitmapq b ! (c div 32) OR push_bit (2 * (c mod 32)) 3] \<rparr> else b)"
  shows "mem_entry_ok b'" "\<And>d. d < 256 \<Longrightarrow> chunk_full b' d \<longleftrightarrow> chunk_full b d \<or> d = c"
    "bm_linear b' = bm_linear b" "bm_class b' = bm_class b"
proof -
  have len: "length (bm_bitmapq b) = 8" using assms(1) by (simp add: mem_entry_ok_def)
  have z: "bm_bitmapq b ! (c div 32) AND push_bit (2 * (c mod 32)) 3 = 0 \<longleftrightarrow> chunk_free b c"
    using pair_zero_free [of "c mod 32" b "c div 32"] by simp
  have same: "chunk_full b' d \<longleftrightarrow> (if chunk_free b c then chunk_full (mark_chunk c b) d else chunk_full b d)"
    "chunk_free b' d \<longleftrightarrow> (if chunk_free b c then chunk_free (mark_chunk c b) d else chunk_free b d)" for d
    unfolding b' z by (simp_all add: chunk_full_def chunk_free_def mark_chunk_def)
  have "chunk_full b c" if "\<not> chunk_free b c" using assms(1,2) that by (auto simp: mem_entry_ok_def)
  then show f: "chunk_full b' d \<longleftrightarrow> chunk_full b d \<or> d = c" if "d < 256" for d
    using same(1) mark_chunk_full(1) [OF len assms(2) that] by auto
  have "chunk_free b' d \<or> chunk_full b' d" if "d < 256" for d
    using f [OF that] same(2) mark_chunk_full(2) [OF len assms(2) that] assms(1) that by (auto simp: mem_entry_ok_def)
  then show "mem_entry_ok b'" using len by (simp add: mem_entry_ok_def b')
  show "bm_linear b' = bm_linear b" "bm_class b' = bm_class b" by (simp_all add: b')
qed

lemma div_524288: "d div 524288 = d div 16384 div 32" "d mod 524288 div 16384 = d div 16384 mod (32 :: nat)"
  using div_mult2_eq [of d 16384 32] mod_mult2_eq [of d 16384 32] by simp_all

lemma ceil_step: "0 < bytes \<Longrightarrow> (bytes + 16383) div 16384 = Suc ((bytes - 16384 + 16383) div (16384 :: nat))"
proof (cases "bytes \<le> 16384")
  case False
  then have "bytes + 16383 = (bytes - 16384 + 16383) + 16384" by simp
  then show ?thesis by (metis div_add_self2 numeral_neq_zero Suc_eq_plus1)
qed simp

definition marks :: "nat \<Rightarrow> nat \<Rightarrow> hammer2_bmap_data \<Rightarrow> hammer2_bmap_data \<Rightarrow> bool" where
  "marks c0 k b b' \<longleftrightarrow> mem_entry_ok b' \<and> (\<forall>c < 256. chunk_full b' c \<longleftrightarrow> chunk_full b c \<or> c0 \<le> c \<and> c < c0 + k) \<and>
     bm_linear b' = bm_linear b \<and> bm_class b' = bm_class b"

lemma bulkfree_mark_spec:
  assumes "mem_entry_ok b" "d div 16384 + (bytes + 16383) div 16384 \<le> 256"
  shows "marks (d div 16384) ((bytes + 16383) div 16384) b (bulkfree_mark d bytes b)"
  using assms
proof (induction bytes arbitrary: d b rule: less_induct)
  case (less bytes)
  show ?case
  proof (cases "bytes = 0")
    case True
    then show ?thesis using less.prems by (subst bulkfree_mark.simps) (auto simp: marks_def)
  next
    case False
    let ?c = "d div 16384"
    define a where "a = bm_avail b - (if bytes < 16384 then 16384 else of_nat bytes)"
    define b1 where "b1 = (if bm_bitmapq b ! (?c div 32) AND push_bit (2 * (?c mod 32)) 3 = 0
      then b\<lparr> bm_avail := a, bm_bitmapq := (bm_bitmapq b)[?c div 32 := bm_bitmapq b ! (?c div 32) OR push_bit (2 * (?c mod 32)) 3] \<rparr> else b)"
    have k: "(bytes + 16383) div 16384 = Suc ((bytes - 16384 + 16383) div 16384)" using ceil_step False by simp
    have c: "?c < 256" using less.prems(2) k by simp
    note m = mark_step [OF less.prems(1) c b1_def]
    have e: "bulkfree_mark d bytes b = bulkfree_mark (d + 16384) (bytes - 16384) b1"
      using False by (subst bulkfree_mark.simps) (simp only: div_524288 b1_def a_def Let_def if_False)
    have "(d + 16384) div 16384 = Suc ?c" by simp
    moreover have "marks ((d + 16384) div 16384) ((bytes - 16384 + 16383) div 16384) b1 (bulkfree_mark (d + 16384) (bytes - 16384) b1)"
      by (rule less.IH [OF _ m(1)]) (use False less.prems(2) k in simp_all)
    ultimately show ?thesis
      unfolding e k marks_def using m(2-4) by (auto simp: less_Suc_eq_le)
  qed
qed

definition bref_radix :: "hammer2_blockref \<Rightarrow> nat" where
  "bref_radix bref = unat (br_data_off bref AND HAMMER2_OFF_MASK_RADIX)"

abbreviation bref_base :: "hammer2_blockref \<Rightarrow> nat" where
  "bref_base bref \<equiv> unat (data_off_lbase (br_data_off bref))"

text \<open>A block of the topology: a size the allocator knows, aligned to it and inside the filesystem.\<close>

definition block_ok :: "hammer2_dev \<Rightarrow> hammer2_blockref \<Rightarrow> bool" where
  "block_ok hmp bref \<longleftrightarrow> 10 \<le> bref_radix bref \<and> bref_radix bref \<le> 16 \<and> bref_base bref mod 2 ^ bref_radix bref = 0 \<and>
     bref_base bref + 2 ^ bref_radix bref \<le> unat (hmp_total_size hmp)"

text \<open>The linear iterator of an entry of the in-memory freemap: inside the segment, and inside a chunk only if that is in use.\<close>

definition mem_linear_ok :: "hammer2_bmap_data \<Rightarrow> bool" where
  "mem_linear_ok b \<longleftrightarrow> 0 \<le> bm_linear b \<and> bm_linear b \<le> HAMMER2_SEGSIZE \<and> bm_linear b mod 1024 = 0 \<and>
     (bm_linear b mod 16384 \<noteq> 0 \<longrightarrow> chunk_full b (nat (bm_linear b div 16384)))"

text \<open>The in-memory freemap covers the window, which ends with the media or on a segment.\<close>

definition mem_ok :: "hammer2_dev \<Rightarrow> hammer2_bulkfree_info \<Rightarrow> bool" where
  "mem_ok hmp info \<longleftrightarrow> unat (bf_sbase info) mod 4194304 = 0 \<and> bf_sbase info \<le> bf_sstop info \<and>
     (bf_sstop info = hmp_total_size hmp \<or> unat (bf_sstop info) mod 4194304 = 0) \<and>
     unat (bf_sstop info) < 2 ^ 63 \<and>
     unat (bf_sstop info) - unat (bf_sbase info) \<le> 4194304 * length (bf_bmap info) \<and>
     (\<forall>b \<in> set (bf_bmap info). mem_entry_ok b \<and> mem_linear_ok b)"

text \<open>The chunk of byte \<open>x\<close> of the media is marked in use.\<close>

definition mem_marked :: "hammer2_bulkfree_info \<Rightarrow> nat \<Rightarrow> bool" where
  "mem_marked info x \<longleftrightarrow> (let y = x - unat (bf_sbase info) in
     y div 4194304 < length (bf_bmap info) \<and> chunk_full (bf_bmap info ! (y div 4194304)) (y mod 4194304 div 16384))"

definition in_window :: "hammer2_dev \<Rightarrow> hammer2_bulkfree_info \<Rightarrow> hammer2_blockref \<Rightarrow> bool" where
  "in_window hmp info bref \<longleftrightarrow> bf_sbase info \<le> data_off_lbase (br_data_off bref) \<and>
     data_off_lbase (br_data_off bref) < bf_sstop info \<and>
     vd_allocator_beg (hmp_voldata hmp) \<le> data_off_lbase (br_data_off bref) \<and>
     data_off_lbase (br_data_off bref) < hmp_total_size hmp"

definition covered :: "hammer2_dev \<Rightarrow> hammer2_bulkfree_info \<Rightarrow> hammer2_blockref \<Rightarrow> bool" where
  "covered hmp info bref \<longleftrightarrow> data_off_lbase (br_data_off bref) = 0 \<or>
     (in_window hmp info bref \<longrightarrow> (\<forall>x \<in> bref_bytes bref (bref_radix bref). mem_marked info x))"

lemma radix_ceil: "r \<le> 16 \<Longrightarrow> (2 ^ r + 16383) div 16384 = radix_chunks r"
proof -
  assume "r \<le> 16"
  then consider "r \<le> 14" | "r = 15" | "r = 16" by linarith
  then show ?thesis
  proof cases
    case 1
    then have "(2 :: nat) ^ r \<le> 2 ^ 14" by (rule power_increasing) simp
    moreover have "1 \<le> (2 :: nat) ^ r" by simp
    ultimately have "(2 ^ r + 16383) div 16384 = (1 :: nat)" by (intro div_nat_eqI) simp_all
    then show ?thesis using 1 by (simp add: radix_chunks_def)
  qed (simp_all add: radix_chunks_def)
qed

lemma aligned_chunks:
  assumes "(d :: nat) mod 2 ^ r = 0" "r \<le> 16" "e < 2 ^ r"
  shows "d div 16384 \<le> (d + e) div 16384" "(d + e) div 16384 < d div 16384 + radix_chunks r"
proof -
  show "d div 16384 \<le> (d + e) div 16384" by (rule div_le_mono) simp
  show "(d + e) div 16384 < d div 16384 + radix_chunks r"
  proof (cases "r < 14")
    case True
    then have "(d + e) div 2 ^ 14 = d div 2 ^ 14"
      by (intro add_low_bits(1) aligned_split [OF assms(1) _ assms(3)]) simp
    then show ?thesis using True by (simp add: radix_chunks_def)
  next
    case False
    then have k: "(2 :: nat) ^ r = 16384 * radix_chunks r" using mult_exp_14 by (simp add: radix_chunks_def)
    obtain q where q: "d = 2 ^ r * q" using assms(1) by auto
    have "d = 16384 * (radix_chunks r * q)" unfolding q k by (simp only: mult.assoc)
    then have "(d + e) div 16384 = d div 16384 + e div 16384" by (metis div_mult_self4 nonzero_mult_div_cancel_left zero_neq_numeral)
    moreover have "e div 16384 < radix_chunks r" using assms(3) k by (simp add: less_mult_imp_div_less mult.commute)
    ultimately show ?thesis by simp
  qed
qed

lemma aligned_chunks_end:
  assumes "(d :: nat) mod 2 ^ r = 0" "r \<le> 16" "d < 4194304"
  shows "d div 16384 + radix_chunks r \<le> 256" "d + 2 ^ r \<le> 4194304"
proof -
  have "d mod 2 ^ 22 + (2 ^ r - 1) < 2 ^ 22" using assms(2) by (intro aligned_split [OF assms(1)]) simp_all
  then show e: "d + 2 ^ r \<le> 4194304" using assms(3) by simp
  have "d div 16384 < 256" using assms(3) by (simp add: less_mult_imp_div_less)
  moreover have "(d + (2 ^ r - 1)) div 16384 < 256" using e by (intro less_mult_imp_div_less) simp
  moreover have "radix_chunks r = 1 \<or> 14 < r" by (auto simp: radix_chunks_def)
  moreover have "d div 16384 + radix_chunks r \<le> 256" if "14 < r"
  proof -
    have k: "(2 :: nat) ^ r = 16384 * radix_chunks r" using mult_exp_14 that by (simp add: radix_chunks_def)
    have "16384 * (d div 16384) \<le> d" by simp
    then have "16384 * (d div 16384 + radix_chunks r) \<le> 16384 * 256" using e k by (simp only: distrib_left)
    then show ?thesis by simp
  qed
  ultimately show "d div 16384 + radix_chunks r \<le> 256" by (metis Suc_eq_plus1 Suc_leI)
qed

lemma unat_drop_bit: "unat (drop_bit n (w :: u64)) = unat w div 2 ^ n"
  using unsigned_less [of w, where 'a = nat] by (simp only: unsigned_drop_bit_eq) (simp add: drop_bit_eq_div take_bit_nat_eq_self)

lemma unat_push_bit_1: "r < 64 \<Longrightarrow> unat (push_bit r (1 :: u64)) = 2 ^ r"
  using power_strict_increasing [of r 64 "2 :: nat"] unat_of_nat_small [of "2 ^ r", where 'a = 64]
  by (simp add: push_bit_eq_mult)

lemma mem_entry_ok_fields [simp]:
  "mem_entry_ok (b\<lparr> bm_class := x \<rparr>) = mem_entry_ok b" "mem_entry_ok (b\<lparr> bm_avail := y \<rparr>) = mem_entry_ok b"
  "mem_entry_ok (b\<lparr> bm_linear := z \<rparr>) = mem_entry_ok b"
  by (simp_all add: mem_entry_ok_def chunk_full_def chunk_free_def)

lemma chunk_full_fields [simp]:
  "chunk_full (b\<lparr> bm_class := x \<rparr>) c = chunk_full b c" "chunk_full (b\<lparr> bm_avail := y \<rparr>) c = chunk_full b c"
  "chunk_full (b\<lparr> bm_linear := z \<rparr>) c = chunk_full b c"
  by (simp_all add: chunk_full_def)

lemma linear_chunk_less: "(x :: int) \<le> 4194304 \<Longrightarrow> x mod 16384 \<noteq> 0 \<Longrightarrow> nat (x div 16384) < 256"
proof -
  assume x: "x \<le> 4194304" "x mod 16384 \<noteq> 0"
  define c d where "c = x div 16384" and "d = x mod 16384"
  have "16384 * c + d = x" unfolding c_def d_def by (rule mult_div_mod_eq)
  moreover have "0 \<le> d" "d \<noteq> 0" using x(2) unfolding d_def by simp_all
  ultimately have "c < 256" using x(1) by linarith
  then show ?thesis unfolding c_def by simp
qed

lemma bulkfree_enter_spec:
  assumes "mem_entry_ok b" "d mod 2 ^ r = 0" "r \<le> 16" "d < 4194304"
  shows "mem_entry_ok (bulkfree_enter cl d (2 ^ r) b)"
    "\<And>c. c < 256 \<Longrightarrow> chunk_full (bulkfree_enter cl d (2 ^ r) b) c \<longleftrightarrow>
       chunk_full b c \<or> d div 16384 \<le> c \<and> c < d div 16384 + radix_chunks r"
proof -
  have k: "d div 16384 + (2 ^ r + 16383) div 16384 \<le> 256"
    using aligned_chunks_end(1) [OF assms(2-4)] radix_ceil [OF assms(3)] by simp
  have m: "marks (d div 16384) (radix_chunks r) b0 (bulkfree_mark d (2 ^ r) b0)" if "mem_entry_ok b0" for b0
    using bulkfree_mark_spec [OF that k] radix_ceil [OF assms(3)] by simp
  obtain b0 where b0: "bulkfree_enter cl d (2 ^ r) b = bulkfree_mark d (2 ^ r) b0" "mem_entry_ok b0"
      "\<And>c. chunk_full b0 c = chunk_full b c"
    using assms(1) unfolding bulkfree_enter_def Let_def by (simp split: if_split)
  show "mem_entry_ok (bulkfree_enter cl d (2 ^ r) b)"
    "\<And>c. c < 256 \<Longrightarrow> chunk_full (bulkfree_enter cl d (2 ^ r) b) c \<longleftrightarrow>
       chunk_full b c \<or> d div 16384 \<le> c \<and> c < d div 16384 + radix_chunks r"
    using m [OF b0(2)] unfolding b0(1) by (simp_all add: marks_def b0(3))
qed

lemma linear_place:
  assumes "d mod 2 ^ r = 0" "10 \<le> r" "r \<le> 16" "d < 4194304"
  shows "d + 2 ^ r \<le> 4194304" "(d + 2 ^ r) mod 1024 = (0 :: nat)"
    "(d + 2 ^ r) mod 16384 \<noteq> 0 \<Longrightarrow> (d + 2 ^ r) div 16384 = d div 16384"
proof -
  show "d + 2 ^ r \<le> 4194304" by (rule aligned_chunks_end(2) [OF assms(1,3,4)])
  have r: "(1024 :: nat) dvd 2 ^ r" using le_imp_power_dvd [of 10 r "2 :: nat"] assms(2) by simp
  have d: "2 ^ r dvd d" using assms(1) by (simp add: mod_eq_0_iff_dvd)
  have "1024 dvd d + 2 ^ r" by (rule dvd_add [OF dvd_trans [OF r d] r])
  then show "(d + 2 ^ r) mod 1024 = 0" by (simp add: mod_eq_0_iff_dvd)
  assume nz: "(d + 2 ^ r) mod 16384 \<noteq> 0"
  have lt: "r < 14"
  proof (rule ccontr)
    assume "\<not> r < 14"
    then have r14: "(16384 :: nat) dvd 2 ^ r" using le_imp_power_dvd [of 14 r "2 :: nat"] by simp
    have "16384 dvd d + 2 ^ r" by (rule dvd_add [OF dvd_trans [OF r14 d] r14])
    then show False using nz by (simp add: mod_eq_0_iff_dvd)
  qed
  define m where "m = d mod 16384"
  have "d mod 2 ^ 14 + (2 ^ r - 1) < 2 ^ 14" using lt by (intro aligned_split [OF assms(1)]) simp_all
  then have le: "m + 2 ^ r \<le> 16384" unfolding m_def by simp
  have e: "d + 2 ^ r = (m + 2 ^ r) + 16384 * (d div 16384)" unfolding m_def by simp
  have "m + 2 ^ r \<noteq> 16384"
  proof
    assume "m + 2 ^ r = 16384"
    then have "d + 2 ^ r = 16384 * Suc (d div 16384)" using e by simp
    then show False using nz by (simp only: mod_mult_self1_is_0)
  qed
  then show "(d + 2 ^ r) div 16384 = d div 16384" unfolding e using le by simp
qed

lemma enter_linear:
  assumes "mem_entry_ok b" "mem_linear_ok b" "d mod 2 ^ r = 0" "10 \<le> r" "r \<le> 16" "d < 4194304"
  shows "mem_linear_ok (bulkfree_enter cl d (2 ^ r) b)"
proof -
  let ?e = "bulkfree_enter cl d (2 ^ r) b"
  note pl = linear_place [OF assms(3-6)] and sp = bulkfree_enter_spec [where cl = cl, OF assms(1,3,5,6)]
  have k: "d div 16384 + (2 ^ r + 16383) div 16384 \<le> 256"
    using aligned_chunks_end(1) [OF assms(3,5,6)] radix_ceil [OF assms(5)] by simp
  have m: "bm_linear (bulkfree_mark d (2 ^ r) b0) = bm_linear b0" if "mem_entry_ok b0" for b0
    using bulkfree_mark_spec [OF that k] by (simp add: marks_def)
  have "bm_linear ?e = bm_linear b \<or> bm_linear ?e = int (d + 2 ^ r)"
    using assms(1) unfolding bulkfree_enter_def Let_def by (simp add: m split: if_split)
  then show ?thesis
  proof
    assume l: "bm_linear ?e = bm_linear b"
    have "chunk_full ?e (nat (bm_linear b div 16384))" if nz: "bm_linear b mod 16384 \<noteq> 0"
      using sp(2) [OF linear_chunk_less [OF _ nz]] assms(2) nz by (simp add: mem_linear_ok_def)
    then show ?thesis using assms(2) unfolding mem_linear_ok_def l by blast
  next
    assume l: "bm_linear ?e = int (d + 2 ^ r)"
    have "int (d + 2 ^ r) mod 16384 = int ((d + 2 ^ r) mod 16384)" "int (d + 2 ^ r) mod 1024 = int ((d + 2 ^ r) mod 1024)"
      "int (d + 2 ^ r) div 16384 = int ((d + 2 ^ r) div 16384)" by (simp_all only: zmod_int zdiv_int of_nat_numeral)
    moreover have "chunk_full ?e ((d + 2 ^ r) div 16384)" if "(d + 2 ^ r) mod 16384 \<noteq> 0"
      using sp(2) [of "d div 16384"] pl(3) [OF that] assms(6) by (simp add: less_mult_imp_div_less radix_chunks_def)
    moreover have "int (d + 2 ^ r) \<le> int 4194304" using pl(1) by (simp only: of_nat_le_iff)
    ultimately show ?thesis unfolding mem_linear_ok_def l pl(2) by (simp only: nat_int of_nat_0 of_nat_0_le_iff of_nat_eq_0_iff of_nat_numeral) blast
  qed
qed

text \<open>Where the callback enters a block.\<close>

lemma callback_place:
  assumes mem: "mem_ok hmp info" and bref: "block_ok hmp bref" and win: "in_window hmp info bref"
  defines "rel \<equiv> bref_base bref - unat (bf_sbase info)"
  shows "unat (data_off_lbase (br_data_off bref) - bf_sbase info) = rel" "rel div 4194304 < length (bf_bmap info)"
    "rel mod 4194304 mod 2 ^ bref_radix bref = 0"
    "data_off_lbase (br_data_off bref) + push_bit (bref_radix bref) 1 \<le> bf_sstop info"
    "bref_base bref = unat (bf_sbase info) + rel"
proof -
  let ?r = "bref_radix bref" and ?a = "bref_base bref"
  have r: "?r \<le> 16" "?a mod 2 ^ ?r = 0" "?a + 2 ^ ?r \<le> unat (hmp_total_size hmp)" using bref by (simp_all add: block_ok_def)
  have w: "unat (bf_sbase info) \<le> ?a" "?a < unat (bf_sstop info)"
    using win by (simp_all add: in_window_def word_le_nat_alt word_less_nat_alt)
  show "unat (data_off_lbase (br_data_off bref) - bf_sbase info) = rel"
    unfolding rel_def using w(1) by (simp add: unat_sub word_le_nat_alt)
  show b: "?a = unat (bf_sbase info) + rel" unfolding rel_def using w(1) by simp
  have "rel < 4194304 * length (bf_bmap info)" using w mem unfolding rel_def mem_ok_def by linarith
  then show "rel div 4194304 < length (bf_bmap info)" by (intro less_mult_imp_div_less) (simp add: mult.commute)
  have dv: "(2 :: nat) ^ ?r dvd 4194304" using le_imp_power_dvd [of ?r 22 "2 :: nat"] r(1) by simp
  have "4194304 dvd unat (bf_sbase info)" using mem by (simp add: mem_ok_def mod_eq_0_iff_dvd)
  then have "2 ^ ?r dvd unat (bf_sbase info)" using dv dvd_trans by blast
  moreover have "2 ^ ?r dvd ?a" using r(2) by (simp add: mod_eq_0_iff_dvd)
  ultimately have "2 ^ ?r dvd rel" unfolding rel_def by (rule dvd_diff_nat [rotated])
  then show "rel mod 4194304 mod 2 ^ ?r = 0" using dv by (simp add: mod_mod_cancel mod_eq_0_iff_dvd)
  have p: "(2 :: nat) ^ ?r \<le> 2 ^ 16" using r(1) by (intro power_increasing) auto
  have le: "?a + 2 ^ ?r \<le> unat (bf_sstop info)"
  proof (cases "bf_sstop info = hmp_total_size hmp")
    case False
    then have "4194304 dvd unat (bf_sstop info)" using mem by (simp add: mem_ok_def mod_eq_0_iff_dvd)
    then have "2 ^ ?r dvd unat (bf_sstop info)" using dv dvd_trans by blast
    then obtain i j where ij: "unat (bf_sstop info) = 2 ^ ?r * i" "?a = 2 ^ ?r * j" using \<open>2 ^ ?r dvd ?a\<close> by (auto elim!: dvdE)
    then have "j < i" using w(2) by simp
    then have "2 ^ ?r * Suc j \<le> 2 ^ ?r * i" by (intro mult_le_mono2) simp
    then show ?thesis using ij by simp
  qed (use r in simp)
  have "unat (push_bit ?r (1 :: u64)) = 2 ^ ?r"
    using p unat_of_nat_small [of "2 ^ ?r", where 'a = 64] by (simp add: push_bit_eq_mult)
  moreover have "unat (bf_sstop info) < 2 ^ 63" using mem by (simp add: mem_ok_def)
  ultimately have "unat (data_off_lbase (br_data_off bref) + push_bit ?r 1) = ?a + 2 ^ ?r"
    using le by (simp add: unat_word_ariths)
  then show "data_off_lbase (br_data_off bref) + push_bit ?r 1 \<le> bf_sstop info" using le by (simp add: word_le_nat_alt)
qed

text \<open>The in-memory freemap only grows, the rest of the state stays.\<close>

definition mem_grows :: "hammer2_bulkfree_info \<Rightarrow> hammer2_bulkfree_info \<Rightarrow> bool" where
  "mem_grows info info' \<longleftrightarrow> bf_sbase info' = bf_sbase info \<and> bf_sstop info' = bf_sstop info \<and>
     (\<forall>x. mem_marked info x \<longrightarrow> mem_marked info' x)"

lemma mem_grows_refl [simp]: "mem_grows info info"
  by (simp add: mem_grows_def)

lemma mem_grows_trans: "mem_grows a b \<Longrightarrow> mem_grows b c \<Longrightarrow> mem_grows a c"
  by (simp add: mem_grows_def)

lemma covered_grows: "mem_grows info info' \<Longrightarrow> covered hmp info bref \<Longrightarrow> covered hmp info' bref"
  by (auto simp: mem_grows_def covered_def in_window_def)

text \<open>The bytes of the 16KB chunks a block touches.\<close>

definition block_chunks :: "hammer2_blockref \<Rightarrow> nat set" where
  "block_chunks bref = {x. \<exists>y \<in> bref_bytes bref (bref_radix bref). x div 16384 = y div 16384}"

definition mem_only :: "hammer2_blockref set \<Rightarrow> hammer2_bulkfree_info \<Rightarrow> hammer2_bulkfree_info \<Rightarrow> bool" where
  "mem_only B info info' \<longleftrightarrow> (\<forall>x. unat (bf_sbase info) \<le> x \<longrightarrow> mem_marked info' x \<longrightarrow>
     mem_marked info x \<or> (\<exists>bref \<in> B. x \<in> block_chunks bref))"

lemma mem_only_refl [simp]: "mem_only B info info"
  by (simp add: mem_only_def)

lemma mem_only_trans: "mem_only B a b \<Longrightarrow> mem_only B b c \<Longrightarrow> bf_sbase b = bf_sbase a \<Longrightarrow> mem_only B a c"
  unfolding mem_only_def by metis

lemma mem_only_mono: "mem_only B a b \<Longrightarrow> B \<subseteq> C \<Longrightarrow> mem_only C a b"
  unfolding mem_only_def by blast

lemma div_at_chunk:
  assumes "(s :: nat) mod 4194304 = 0" shows "(s + y) div 16384 = s div 16384 + y div 16384"
proof -
  obtain k where "s = 4194304 * k" using assms by auto
  then have "s + y = y + 16384 * (256 * k)" "s div 16384 = 256 * k" by simp_all
  then show ?thesis by simp
qed

lemma chunk_in_block:
  assumes d: "d mod 2 ^ r = 0" "r \<le> 16" "(d :: nat) < 4194304" and c: "d div 16384 \<le> c" "c < d div 16384 + radix_chunks r"
  shows "\<exists>f < 2 ^ r. (d + f) div 16384 = c"
proof (cases "r \<le> 14")
  case True
  then have "c = d div 16384" using c by (simp add: radix_chunks_def)
  then show ?thesis by (intro exI [of _ 0]) simp
next
  case False
  then have k: "(2 :: nat) ^ r = 16384 * radix_chunks r" using mult_exp_14 by (simp add: radix_chunks_def)
  define j where "j = c - d div 16384"
  have "16384 * j < 2 ^ r" "c = d div 16384 + j" using c unfolding k j_def by auto
  moreover have "(d + 16384 * j) div 16384 = d div 16384 + j" by simp
  ultimately show ?thesis by metis
qed

lemma callback_marks_only:
  assumes mem: "mem_ok hmp info" and b: "mem_entry_ok (bf_bmap info ! (rel div 4194304))" and n: "rel div 4194304 < length (bf_bmap info)"
    and al: "rel mod 4194304 mod 2 ^ bref_radix bref = 0" and base: "bref_base bref = unat (bf_sbase info) + rel" and r: "bref_radix bref \<le> 16"
    and x: "unat (bf_sbase info) \<le> x"
    and m: "mem_marked (info\<lparr> bf_bmap := (bf_bmap info)[rel div 4194304 :=
      bulkfree_enter cl (rel mod 4194304) (2 ^ bref_radix bref) (bf_bmap info ! (rel div 4194304))] \<rparr>) x"
  shows "mem_marked info x \<or> x \<in> block_chunks bref"
proof -
  let ?s = "unat (bf_sbase info)" and ?n = "rel div 4194304" and ?d = "rel mod 4194304" and ?r = "bref_radix bref"
  define y where "y = x - ?s"
  have xy: "x = ?s + y" using x by (simp add: y_def)
  have d: "?d < 4194304" by simp
  note e = bulkfree_enter_spec(2) [where cl = cl, OF b al r d]
  have c256: "y mod 4194304 div 16384 < 256" by (simp add: less_mult_imp_div_less)
  show ?thesis
  proof (cases "y div 4194304 = ?n \<and> \<not> chunk_full (bf_bmap info ! ?n) (y mod 4194304 div 16384)")
    case True
    then have "?d div 16384 \<le> y mod 4194304 div 16384" "y mod 4194304 div 16384 < ?d div 16384 + radix_chunks ?r"
      using m n e [OF c256] by (simp_all add: mem_marked_def Let_def y_def)
    then obtain f where f: "f < 2 ^ ?r" "(?d + f) div 16384 = y mod 4194304 div 16384" using chunk_in_block [OF al r d] by blast
    have al0: "4194304 * k mod 4194304 = (0 :: nat)" for k by simp
    have "y = 4194304 * ?n + y mod 4194304" "rel + f = 4194304 * ?n + (?d + f)" using True by (metis mult_div_mod_eq, simp)
    then have "y div 16384 = (rel + f) div 16384" using f(2) div_at_chunk [OF al0] by metis
    moreover have "?s mod 4194304 = 0" using mem by (simp add: mem_ok_def)
    ultimately have "x div 16384 = (bref_base bref + f) div 16384" unfolding xy base add.assoc by (simp add: div_at_chunk)
    moreover have "bref_base bref + f \<in> bref_bytes bref ?r" using f(1) by (simp add: bref_bytes_def)
    ultimately show ?thesis unfolding block_chunks_def by blast
  next
    case False
    then show ?thesis using m n by (cases "y div 4194304 = ?n") (simp_all add: mem_marked_def Let_def y_def)
  qed
qed

lemma callback_spec:
  assumes mem: "mem_ok hmp info" and bref: "block_ok hmp bref" and sig: "\<not> ev_signal env (bf_calls info)"
  obtains bmap where "h2_bulkfree_callback env hmp info bref = Some (0, info\<lparr> bf_calls := Suc (bf_calls info), bf_bmap := bmap \<rparr>)"
    "mem_ok hmp (info\<lparr> bf_calls := Suc (bf_calls info), bf_bmap := bmap \<rparr>)"
    "mem_grows info (info\<lparr> bf_calls := Suc (bf_calls info), bf_bmap := bmap \<rparr>)"
    "covered hmp (info\<lparr> bf_calls := Suc (bf_calls info), bf_bmap := bmap \<rparr>) bref"
    "mem_only {bref} info (info\<lparr> bf_calls := Suc (bf_calls info), bf_bmap := bmap \<rparr>)"
proof (cases "in_window hmp info bref")
  case False
  then have "h2_bulkfree_callback env hmp info bref = Some (0, info\<lparr> bf_calls := Suc (bf_calls info), bf_bmap := bf_bmap info \<rparr>)"
    using sig unfolding h2_bulkfree_callback_def Let_def in_window_def by (auto simp: not_le not_less)
  then show ?thesis
  proof (rule that)
    show "covered hmp (info\<lparr> bf_calls := Suc (bf_calls info), bf_bmap := bf_bmap info \<rparr>) bref"
      using False by (auto simp: covered_def in_window_def)
  qed (use mem in \<open>simp_all add: mem_ok_def mem_grows_def mem_marked_def mem_only_def\<close>)
next
  case win: True
  let ?o = "data_off_lbase (br_data_off bref)" and ?r = "bref_radix bref"
  define rel where "rel = bref_base bref - unat (bf_sbase info)"
  note p = callback_place [OF mem bref win, folded rel_def]
  have r: "10 \<le> ?r" "?r \<le> 16" using bref by (simp_all add: block_ok_def)
  let ?n = "rel div 4194304" and ?d = "rel mod 4194304"
  let ?e = "bulkfree_enter (freemap_class (br_type bref)) ?d (2 ^ ?r) (bf_bmap info ! ?n)"
  let ?m = "(bf_bmap info)[?n := ?e]"
  have d: "?d < 4194304" by simp
  have n: "unat (drop_bit 22 (?o - bf_sbase info)) = ?n"
    using p(1) unat_drop_bit [of 22 "?o - bf_sbase info"] by simp
  have ud: "unat ((?o - bf_sbase info) AND HAMMER2_SEGMASK) = ?d" unfolding mask_22 unat_and_mask p(1) by simp
  have ub: "unat (push_bit ?r (1 :: u64)) = 2 ^ ?r" by (rule unat_push_bit_1) (use r in simp)
  have nc: "\<not> ((?o - bf_sbase info) AND HAMMER2_SEGMASK) + push_bit ?r 1 > HAMMER2_FREEMAP_LEVEL0_SIZE"
  proof -
    have "?d + 2 ^ ?r \<le> 4194304" by (rule aligned_chunks_end(2) [OF p(3) r(2) d])
    moreover from this have "unat (((?o - bf_sbase info) AND HAMMER2_SEGMASK) + push_bit ?r 1) = ?d + 2 ^ ?r"
      using ud ub by (simp add: unat_word_ariths)
    ultimately show ?thesis by (simp add: word_less_nat_alt)
  qed
  have call: "h2_bulkfree_callback env hmp info bref = Some (0, info\<lparr> bf_calls := Suc (bf_calls info), bf_bmap := ?m \<rparr>)"
  proof -
    have "\<not> (?o < bf_sbase info \<or> bf_sstop info \<le> ?o)" "\<not> ?o < vd_allocator_beg (hmp_voldata hmp)" "\<not> hmp_total_size hmp \<le> ?o"
      "\<not> ?o + push_bit ?r 1 > bf_sstop info"
      using win p(4) by (auto simp: in_window_def)
    then show ?thesis
      using sig p(2) nc r unfolding h2_bulkfree_callback_def Let_def bref_radix_def [symmetric]
      by (simp only: n ud ub hammer2_bulkfree_info.simps if_False simp_thms if_True) (simp add: n ud ub [simplified])
  qed
  have b: "mem_entry_ok (bf_bmap info ! ?n)" "mem_linear_ok (bf_bmap info ! ?n)" using mem p(2) by (simp_all add: mem_ok_def)
  note e = bulkfree_enter_spec [where cl = "freemap_class (br_type bref)", OF b(1) p(3) r(2) d]
  show ?thesis
  proof (rule that [OF call])
    show "mem_ok hmp (info\<lparr> bf_calls := Suc (bf_calls info), bf_bmap := ?m \<rparr>)"
      using mem e(1) enter_linear [OF b p(3) r d] by (auto simp: mem_ok_def dest!: subsetD [OF set_update_subset_insert])
    have "mem_marked (info\<lparr> bf_calls := Suc (bf_calls info), bf_bmap := ?m \<rparr>) x" if "mem_marked info x" for x
      using that e(2) [of "(x - unat (bf_sbase info)) mod 4194304 div 16384"] p(2)
      by (auto simp: mem_marked_def Let_def nth_list_update less_mult_imp_div_less)
    then show "mem_grows info (info\<lparr> bf_calls := Suc (bf_calls info), bf_bmap := ?m \<rparr>)" by (simp add: mem_grows_def)
    have "mem_marked (info\<lparr> bf_calls := Suc (bf_calls info), bf_bmap := ?m \<rparr>) x" if x: "x \<in> bref_bytes bref ?r" for x
    proof -
      obtain f where f: "x = bref_base bref + f" "f < 2 ^ ?r" using x by (auto simp: bref_bytes_def le_iff_add)
      have y: "x - unat (bf_sbase info) = rel + f" using f p(5) by simp
      have lt: "?d + f < 4194304" using aligned_chunks_end(2) [OF p(3) r(2) d] f(2) by simp
      note low = add_low_bits [OF lt]
      show ?thesis
        unfolding mem_marked_def Let_def using p(2) e(2) [of "(?d + f) div 16384"] aligned_chunks [OF p(3) r(2) f(2)] lt
        by (simp add: y low less_mult_imp_div_less)
    qed
    then show "covered hmp (info\<lparr> bf_calls := Suc (bf_calls info), bf_bmap := ?m \<rparr>) bref" by (simp add: covered_def)
    show "mem_only {bref} info (info\<lparr> bf_calls := Suc (bf_calls info), bf_bmap := ?m \<rparr>)"
      using callback_marks_only [OF mem b(1) p(2,3,5) r(2), where cl = "freemap_class (br_type bref)"] by (simp add: mem_only_def mem_marked_def)
  qed
qed

section \<open>What the scan reaches\<close>

subsection \<open>The dedup heuristic\<close>

definition seen :: "(nat \<Rightarrow> hammer2_dedup) \<Rightarrow> hammer2_off_t \<Rightarrow> bool" where
  "seen dedup d \<longleftrightarrow> (\<exists>i. dd_data_off (dedup i) = d)"

definition dedup_clean :: "(nat \<Rightarrow> hammer2_dedup) \<Rightarrow> bool" where
  "dedup_clean dedup \<longleftrightarrow> (\<forall>i. dd_saved_error (dedup i) = 0)"

lemma probe_found: "bulkfree_probe dedup slot d is best = Inl i \<Longrightarrow> dd_data_off (dedup (slot + i)) = d"
  by (induction dedup slot d "is" best rule: bulkfree_probe.induct) (auto split: if_splits)

text \<open>The test answers 0 and enters the block, or finds it entered before; it changes nothing else.\<close>

lemma bulkfree_test_spec:
  assumes clean: "dedup_clean (bf_dedup info)"
  obtains e dedup k where "h2_bulkfree_test env info bref pri 0 = (e, info\<lparr> bf_dedup := dedup, bf_count_dedup_factor := k \<rparr>)"
    "dedup_clean dedup" "e = 0 \<or> e = HAMMER2_ERROR_EOF \<and> seen (bf_dedup info) (br_data_off bref)"
    "\<And>d. seen dedup d \<Longrightarrow> seen (bf_dedup info) d \<or> d = br_data_off bref"
proof (cases "bulkfree_probe (bf_dedup info) (bulkfree_slot env bref) (br_data_off bref) [0..<8] 0")
  case (Inl i)
  let ?s = "bulkfree_slot env bref + i"
  let ?d = "bf_dedup info ?s"
  let ?d' = "if dd_ticks ?d < word_of_int pri then ?d\<lparr> dd_ticks := word_of_int pri \<rparr> else ?d"
  let ?k = "bf_count_dedup_factor info + (if pri = 1 then uint (dd_ticks ?d') else 0)"
  have f: "dd_data_off ?d' = br_data_off bref" "dd_data_off ?d = br_data_off bref" "dd_saved_error ?d' = 0"
    using probe_found [OF Inl] clean by (simp_all add: dedup_clean_def)
  show ?thesis
  proof (rule that)
    show "h2_bulkfree_test env info bref pri 0 = (HAMMER2_ERROR_EOF,
        info\<lparr> bf_dedup := (bf_dedup info)(?s := ?d'), bf_count_dedup_factor := ?k \<rparr>)"
      using Inl f(3) unfolding h2_bulkfree_test_def by (simp add: Let_def)
    show "dedup_clean ((bf_dedup info)(?s := ?d'))" using clean f(3) by (simp add: dedup_clean_def)
    show "HAMMER2_ERROR_EOF = (0 :: h2error) \<or> HAMMER2_ERROR_EOF = (HAMMER2_ERROR_EOF :: h2error) \<and> seen (bf_dedup info) (br_data_off bref)"
      using f(2) by (auto simp: seen_def)
  qed (use f in \<open>auto simp: seen_def split: if_splits\<close>)
next
  case (Inr best)
  let ?s = "bulkfree_slot env bref + best"
  let ?d = "\<lparr> dd_data_off = br_data_off bref, dd_ticks = word_of_int pri, dd_saved_error = 0 \<rparr>"
  show ?thesis
  proof (rule that)
    show "h2_bulkfree_test env info bref pri 0 = (0,
        info\<lparr> bf_dedup := (bf_dedup info)(?s := ?d), bf_count_dedup_factor := bf_count_dedup_factor info \<rparr>)"
      using Inr unfolding h2_bulkfree_test_def by (simp add: Let_def)
  qed (use clean in \<open>auto simp: seen_def dedup_clean_def\<close>)
qed

subsection \<open>The topology\<close>

inductive below :: "bf_chain \<Rightarrow> bf_entry \<Rightarrow> bool" where
  below_here: "e \<in> set (bc_entries c) \<Longrightarrow> below c e"
| below_deep: "e \<in> set (bc_entries c) \<Longrightarrow> be_chain e = Some c' \<Longrightarrow> below c' f \<Longrightarrow> below c f"

inductive_simps below_simps: "below c e"

lemma below_trans: "below c e \<Longrightarrow> be_chain e = Some c' \<Longrightarrow> below c' f \<Longrightarrow> below c f"
  by (induction rule: below.induct) (auto intro: below.intros)

lemma entry_size: "e \<in> set (bc_entries c) \<Longrightarrow> be_chain e = Some c' \<Longrightarrow> size c' < size c"
proof -
  assume e: "e \<in> set (bc_entries c)" "be_chain e = Some c'"
  have "size c' < size e" using e(2) by (cases e) auto
  moreover have "size e < size c" using e(1) by (cases c) (auto dest: size_list_estimation' [where f = size] split_list)
  ultimately show ?thesis by simp
qed

text \<open>
  A healthy topology under the volume: nothing reads with an error, every block is one the allocator gives, a
  chain carries the reference of its entry, only chains the scan descends into have entries, and
  two references to one place lead to the same chain.
\<close>

definition chain_ok :: "bf_chain \<Rightarrow> bool" where
  "chain_ok c \<longleftrightarrow> bc_error c = 0 \<and> bc_seen_error c = 0 \<and> bc_end c = HAMMER2_ERROR_EOF \<and>
     (bf_recurses (br_type (bc_bref c)) \<or> bc_entries c = [])"

definition entry_sound :: "hammer2_dev \<Rightarrow> bf_entry \<Rightarrow> bool" where
  "entry_sound hmp e \<longleftrightarrow>
     (if data_off_lbase (br_data_off (be_bref e)) = 0 then be_chain e = None else block_ok hmp (be_bref e)) \<and>
     (\<forall>c. be_chain e = Some c \<longrightarrow> chain_ok c \<and> bc_bref c = be_bref e)"

definition topology_ok :: "hammer2_dev \<Rightarrow> bf_chain \<Rightarrow> bool" where
  "topology_ok hmp v \<longleftrightarrow> chain_ok v \<and> data_off_lbase (br_data_off (bc_bref v)) = 0 \<and>
     (\<forall>e. below v e \<longrightarrow> entry_sound hmp e) \<and>
     (\<forall>e f. below v e \<longrightarrow> below v f \<longrightarrow> br_data_off (be_bref e) = br_data_off (be_bref f) \<longrightarrow> be_chain e = be_chain f)"

definition chain_of :: "bf_chain \<Rightarrow> bf_chain \<Rightarrow> bool" where
  "chain_of v c \<longleftrightarrow> c = v \<or> (\<exists>e. below v e \<and> be_chain e = Some c)"

lemma chain_of_below: "chain_of v c \<Longrightarrow> below c e \<Longrightarrow> below v e"
  by (auto simp: chain_of_def intro: below_trans)

lemma chain_of_entry: "chain_of v c \<Longrightarrow> e \<in> set (bc_entries c) \<Longrightarrow> below v e"
  by (auto intro: chain_of_below below_here)

lemma topology_entry: "topology_ok hmp v \<Longrightarrow> below v e \<Longrightarrow> entry_sound hmp e"
  unfolding topology_ok_def by blast

lemma chain_of_chain_ok: "topology_ok hmp v \<Longrightarrow> chain_of v c \<Longrightarrow> chain_ok c"
  by (auto simp: chain_of_def topology_ok_def entry_sound_def)

subsection \<open>What a state of the scan accounts for\<close>

text \<open>
  An entry below a chain is accounted for when its block is marked or when it is below a saved chain that
  is no larger.  The bound on the size is what keeps a saved chain from standing for itself: scanning
  it relies only on smaller ones.
\<close>

definition pend :: "hammer2_bulkfree_info \<Rightarrow> bf_chain set" where
  "pend info = snd ` set (bf_list info)"

definition good :: "hammer2_dev \<Rightarrow> hammer2_bulkfree_info \<Rightarrow> bf_chain \<Rightarrow> bool" where
  "good hmp info c \<longleftrightarrow> (\<forall>e. below c e \<longrightarrow> covered hmp info (be_bref e) \<or> (\<exists>p \<in> pend info. size p \<le> size c \<and> below p e))"

definition entry_done :: "hammer2_dev \<Rightarrow> hammer2_bulkfree_info \<Rightarrow> bf_entry \<Rightarrow> bool" where
  "entry_done hmp info e \<longleftrightarrow> covered hmp info (be_bref e) \<and> (\<forall>c. be_chain e = Some c \<longrightarrow> good hmp info c)"

definition settled :: "hammer2_dev \<Rightarrow> bf_chain \<Rightarrow> hammer2_bulkfree_info \<Rightarrow> hammer2_off_t \<Rightarrow> bool" where
  "settled hmp v info d \<longleftrightarrow> (\<forall>e. below v e \<longrightarrow> br_data_off (be_bref e) = d \<longrightarrow> entry_done hmp info e)"

text \<open>What was seen before is marked, and what is below it is accounted for if it is smaller than \<open>n\<close>.\<close>

definition quiet :: "hammer2_dev \<Rightarrow> bf_chain \<Rightarrow> nat \<Rightarrow> hammer2_bulkfree_info \<Rightarrow> bool" where
  "quiet hmp v n info \<longleftrightarrow> (\<forall>e. below v e \<longrightarrow> data_off_lbase (br_data_off (be_bref e)) \<noteq> 0 \<longrightarrow>
     seen (bf_dedup info) (br_data_off (be_bref e)) \<longrightarrow>
     covered hmp info (be_bref e) \<and> (\<forall>c. be_chain e = Some c \<longrightarrow> size c < n \<longrightarrow> good hmp info c))"

definition advance :: "hammer2_dev \<Rightarrow> hammer2_bulkfree_info \<Rightarrow> hammer2_bulkfree_info \<Rightarrow> bool" where
  "advance hmp info info' \<longleftrightarrow> mem_grows info info' \<and> (\<forall>p \<in> pend info. p \<in> pend info' \<or> good hmp info' p)"

abbreviation reached :: "bf_chain \<Rightarrow> hammer2_blockref set" where
  "reached v \<equiv> be_bref ` {e. below v e}"

definition progress :: "hammer2_dev \<Rightarrow> bf_chain \<Rightarrow> hammer2_bulkfree_info \<Rightarrow> hammer2_bulkfree_info \<Rightarrow> bool" where
  "progress hmp v info info' \<longleftrightarrow> advance hmp info info' \<and> bf_next info \<le> bf_next info' \<and> mem_only (reached v) info info' \<and>
     (\<forall>d. data_off_lbase d \<noteq> 0 \<longrightarrow> seen (bf_dedup info') d \<longrightarrow> seen (bf_dedup info) d \<or> settled hmp v info' d)"

definition scan_inv :: "hammer2_dev \<Rightarrow> bf_chain \<Rightarrow> hammer2_bulkfree_info \<Rightarrow> bool" where
  "scan_inv hmp v info \<longleftrightarrow> mem_ok hmp info \<and> dedup_clean (bf_dedup info) \<and>
     (\<forall>s \<in> set (bf_list info). fst s < bf_next info \<and> chain_of v (snd s) \<and> covered hmp info (bc_bref (snd s)))"

text \<open>The saved chains that a scan of \<open>c\<close> puts in front of the list.\<close>

definition fronts :: "bf_chain \<Rightarrow> hammer2_bulkfree_info \<Rightarrow> hammer2_bulkfree_info \<Rightarrow> (nat \<times> bf_chain) list \<Rightarrow> bool" where
  "fronts c info info' new \<longleftrightarrow> bf_list info' = new @ bf_list info \<and> (\<forall>s \<in> set new. bf_next info \<le> fst s \<and> size (snd s) < size c) \<and>
     (\<forall>a. bf_backout info' = Some a \<longrightarrow> a \<in> fst ` set new)"

definition scan_post :: "hammer2_dev \<Rightarrow> bf_chain \<Rightarrow> bf_chain \<Rightarrow> hammer2_bulkfree_info \<Rightarrow> hammer2_bulkfree_info \<Rightarrow> bool" where
  "scan_post hmp v c info info' \<longleftrightarrow> scan_inv hmp v info' \<and> progress hmp v info info' \<and> good hmp info' c \<and>
     (\<exists>new. fronts c info info' new \<and> (bf_pfsroot c \<longrightarrow> new = []))"

definition scan_pre :: "hammer2_dev \<Rightarrow> bf_chain \<Rightarrow> bf_chain \<Rightarrow> hammer2_bulkfree_info \<Rightarrow> bool" where
  "scan_pre hmp v c info \<longleftrightarrow> scan_inv hmp v info \<and> quiet hmp v (size c) info \<and> chain_of v c \<and>
     covered hmp info (bc_bref c) \<and> bf_backout info = None"

lemma advance_refl [simp]: "advance hmp info info"
  by (simp add: advance_def)

lemma good_advance: "advance hmp info info' \<Longrightarrow> good hmp info c \<Longrightarrow> good hmp info' c"
  unfolding good_def
proof (intro allI impI)
  fix e
  assume a: "advance hmp info info'" "below c e"
    and g: "\<forall>e. below c e \<longrightarrow> covered hmp info (be_bref e) \<or> (\<exists>p \<in> pend info. size p \<le> size c \<and> below p e)"
  show "covered hmp info' (be_bref e) \<or> (\<exists>p \<in> pend info'. size p \<le> size c \<and> below p e)"
  proof (cases "covered hmp info (be_bref e)")
    case True
    then show ?thesis using a(1) covered_grows by (auto simp: advance_def)
  next
    case False
    then obtain p where p: "p \<in> pend info" "size p \<le> size c" "below p e" using g a(2) by auto
    show ?thesis
    proof (cases "p \<in> pend info'")
      case False
      then have "good hmp info' p" using a(1) p(1) by (auto simp: advance_def)
      then show ?thesis using p(2,3) unfolding good_def by (meson order_trans)
    qed (use p in blast)
  qed
qed

lemma advance_trans: "advance hmp a b \<Longrightarrow> advance hmp b c \<Longrightarrow> advance hmp a c"
  unfolding advance_def [of hmp a c]
proof (intro conjI ballI)
  assume a: "advance hmp a b" "advance hmp b c"
  then show "mem_grows a c" unfolding advance_def by (blast intro: mem_grows_trans)
  fix p
  assume "p \<in> pend a"
  then consider "p \<in> pend b" | "good hmp b p" using a(1) unfolding advance_def by blast
  then show "p \<in> pend c \<or> good hmp c p"
    using a(2) good_advance [OF a(2)] unfolding advance_def by cases blast+
qed

lemma covered_advance: "advance hmp info info' \<Longrightarrow> covered hmp info bref \<Longrightarrow> covered hmp info' bref"
  by (auto simp: advance_def intro: covered_grows)

lemma done_advance: "advance hmp info info' \<Longrightarrow> entry_done hmp info e \<Longrightarrow> entry_done hmp info' e"
  by (auto simp: entry_done_def intro: covered_advance good_advance)

lemma settled_advance: "advance hmp info info' \<Longrightarrow> settled hmp v info d \<Longrightarrow> settled hmp v info' d"
  by (auto simp: settled_def intro: done_advance)

lemma progress_refl [simp]: "progress hmp v info info"
  by (simp add: progress_def)

lemma progress_trans: "progress hmp v a b \<Longrightarrow> progress hmp v b c \<Longrightarrow> progress hmp v a c"
  unfolding progress_def [of hmp v a c]
proof (intro conjI allI impI)
  assume p: "progress hmp v a b" "progress hmp v b c"
  then have adv: "advance hmp a b" "advance hmp b c" by (simp_all add: progress_def)
  then show "advance hmp a c" by (rule advance_trans)
  show "bf_next a \<le> bf_next c" using p unfolding progress_def by linarith
  have "bf_sbase b = bf_sbase a" using adv(1) by (simp add: advance_def mem_grows_def)
  then show "mem_only (reached v) a c" using p unfolding progress_def by (blast intro: mem_only_trans)
  fix d
  assume "data_off_lbase d \<noteq> 0" "seen (bf_dedup c) d"
  then show "seen (bf_dedup a) d \<or> settled hmp v c d"
    using p settled_advance [OF adv(2)] unfolding progress_def by blast
qed

lemma progress_advance: "progress hmp v info info' \<Longrightarrow> advance hmp info info'"
  by (simp add: progress_def)

lemma quiet_progress:
  assumes "progress hmp v info info'" "quiet hmp v n info" shows "quiet hmp v n info'"
  unfolding quiet_def
proof (intro allI impI)
  fix e
  assume e: "below v e" "data_off_lbase (br_data_off (be_bref e)) \<noteq> 0" "seen (bf_dedup info') (br_data_off (be_bref e))"
  then consider "seen (bf_dedup info) (br_data_off (be_bref e))" | "settled hmp v info' (br_data_off (be_bref e))"
    using assms(1) by (auto simp: progress_def)
  then show "covered hmp info' (be_bref e) \<and> (\<forall>c. be_chain e = Some c \<longrightarrow> size c < n \<longrightarrow> good hmp info' c)"
  proof cases
    case 1
    then show ?thesis using e assms(2) covered_advance good_advance progress_advance [OF assms(1)]
      unfolding quiet_def by blast
  next
    case 2
    then show ?thesis using e by (auto simp: settled_def entry_done_def)
  qed
qed

text \<open>One entry settles its place, as all entries for it lead to the same chain.\<close>

lemma covered_data_off: "br_data_off a = br_data_off b \<Longrightarrow> covered hmp info a = covered hmp info b"
  by (simp add: covered_def in_window_def bref_bytes_def bref_radix_def)

lemma settledI:
  "topology_ok hmp v \<Longrightarrow> below v e \<Longrightarrow> entry_done hmp info e \<Longrightarrow> settled hmp v info (br_data_off (be_bref e))"
  unfolding settled_def entry_done_def topology_ok_def using covered_data_off by metis

lemma goodI: "(\<And>e. e \<in> set (bc_entries c) \<Longrightarrow> entry_done hmp info e) \<Longrightarrow> good hmp info c"
  unfolding good_def
proof (intro allI impI)
  fix f
  assume d: "\<And>e. e \<in> set (bc_entries c) \<Longrightarrow> entry_done hmp info e" and "below c f"
  from this(2) consider "f \<in> set (bc_entries c)"
    | e c' where "e \<in> set (bc_entries c)" "be_chain e = Some c'" "below c' f" by (auto elim: below.cases)
  then show "covered hmp info (be_bref f) \<or> (\<exists>p \<in> pend info. size p \<le> size c \<and> below p f)"
  proof cases
    case 1
    then show ?thesis using d by (simp add: entry_done_def)
  next
    case 2
    then have "good hmp info c'" using d by (auto simp: entry_done_def)
    then show ?thesis using 2 entry_size [OF 2(1,2)] unfolding good_def by (meson less_imp_le order_trans)
  qed
qed

text \<open>The counters do not matter.\<close>

definition same_scan :: "hammer2_bulkfree_info \<Rightarrow> hammer2_bulkfree_info \<Rightarrow> bool" where
  "same_scan a b \<longleftrightarrow> bf_sbase b = bf_sbase a \<and> bf_sstop b = bf_sstop a \<and> bf_bmap b = bf_bmap a \<and> bf_list b = bf_list a \<and>
     bf_backout b = bf_backout a \<and> bf_dedup b = bf_dedup a \<and> bf_next b = bf_next a"

lemma same_covered: "same_scan a b \<Longrightarrow> covered hmp b = covered hmp a"
  by (auto simp: same_scan_def covered_def in_window_def mem_marked_def fun_eq_iff)

lemma same_good: "same_scan a b \<Longrightarrow> good hmp b = good hmp a"
  by (rule ext) (simp add: good_def pend_def same_covered [of a b] same_scan_def)

lemma same_grows: "same_scan a b \<Longrightarrow> mem_grows a b"
  by (simp add: same_scan_def mem_grows_def mem_marked_def)

lemma same_advance: "same_scan a b \<Longrightarrow> advance hmp a b"
  using same_grows [of a b] by (simp add: advance_def pend_def same_scan_def)

lemma same_progress: "same_scan a b \<Longrightarrow> progress hmp v a b"
  using same_advance [of a b hmp] by (simp add: progress_def same_scan_def mem_only_def mem_marked_def)

lemma same_quiet: "same_scan a b \<Longrightarrow> quiet hmp v n a \<Longrightarrow> quiet hmp v n b"
  by (blast intro: quiet_progress same_progress)

lemma same_mem_ok: "same_scan a b \<Longrightarrow> mem_ok hmp b = mem_ok hmp a"
  by (simp add: same_scan_def mem_ok_def)

lemma same_inv: "same_scan a b \<Longrightarrow> scan_inv hmp v b = scan_inv hmp v a"
  using same_covered [of a b hmp] same_mem_ok [of a b hmp] by (simp add: scan_inv_def same_scan_def)

lemma same_fronts: "same_scan a b \<Longrightarrow> fronts c info b new = fronts c info a new"
  by (simp add: same_scan_def fronts_def)

subsection \<open>One entry\<close>

lemma insert_after_append: "a \<in> fst ` set xs \<Longrightarrow> list_insert_after a x (xs @ ys) = list_insert_after a x xs @ ys"
  by (induction xs) auto

lemma set_insert_after: "a \<in> fst ` set xs \<Longrightarrow> set (list_insert_after a x xs) = insert x (set xs)"
  by (induction xs) auto

lemma defer_fields:
  "bf_list (bulkfree_defer env c info) = (case bf_backout info of
      Some a \<Rightarrow> list_insert_after a (bf_next info, c) (bf_list info) | None \<Rightarrow> (bf_next info, c) # bf_list info)"
  "bf_backout (bulkfree_defer env c info) = Some (bf_next info)" "bf_next (bulkfree_defer env c info) = Suc (bf_next info)"
  "bf_sbase (bulkfree_defer env c info) = bf_sbase info" "bf_sstop (bulkfree_defer env c info) = bf_sstop info"
  "bf_bmap (bulkfree_defer env c info) = bf_bmap info" "bf_dedup (bulkfree_defer env c info) = bf_dedup info"
  by (simp_all add: bulkfree_defer_def Let_def split: option.split)

lemma defer_spec:
  assumes inv: "scan_inv hmp v info" and new: "fronts c info0 info new" "bf_next info0 \<le> bf_next info"
    and c': "chain_of v c'" "covered hmp info (bc_bref c')" "size c' < size c" and i': "info' = bulkfree_defer env c' info"
  shows "scan_inv hmp v info'" "progress hmp v info info'" "good hmp info' c'" "\<exists>new'. fronts c info0 info' new'"
proof -
  note f = defer_fields [of env c' info, folded i']
  let ?new = "case bf_backout info of Some a \<Rightarrow> list_insert_after a (bf_next info, c') new | None \<Rightarrow> (bf_next info, c') # new"
  have l: "bf_list info' = ?new @ bf_list info0" and s: "set ?new = insert (bf_next info, c') (set new)"
    using new f(1) by (auto simp: fronts_def insert_after_append set_insert_after split: option.split)
  have g: "mem_grows info info'" "mem_grows info' info" using f by (simp_all add: mem_grows_def mem_marked_def)
  have cov: "covered hmp info' b = covered hmp info b" for b using g covered_grows by blast
  have set: "set (bf_list info') = insert (bf_next info, c') (set (bf_list info))" using l s new(1) by (auto simp: fronts_def)
  show "scan_inv hmp v info'"
    using inv c' f set unfolding scan_inv_def by (auto simp: cov mem_ok_def)
  have p: "pend info' = insert c' (pend info)" using set by (simp add: pend_def)
  then have "advance hmp info info'" using g by (simp add: advance_def)
  moreover have "mem_only (reached v) info info'" using f by (simp add: mem_only_def mem_marked_def)
  ultimately show "progress hmp v info info'" using f by (simp add: progress_def)
  show "good hmp info' c'" using p by (auto simp: good_def)
  have "fronts c info0 info' ?new" using new l s f(2) c'(3) by (auto simp: fronts_def)
  then show "\<exists>new'. fronts c info0 info' new'" by blast
qed

text \<open>What happens with the chain of an entry.\<close>

definition bulkfree_visit :: "bulkfree_env \<Rightarrow> hammer2_dev \<Rightarrow> bf_chain \<Rightarrow> hammer2_bulkfree_info \<Rightarrow> (h2error \<times> hammer2_bulkfree_info) option" where
  "bulkfree_visit env hmp chain info =
     (if bf_recurses (br_type (bc_bref chain)) then do {
        let info = info\<lparr> bf_depth := bf_depth info + 1 \<rparr>;
        (e, info) \<leftarrow>
          (if bulkfree_must_defer env info then Some (0, bulkfree_defer env chain info)
           else do {
             let savepri = bf_pri info;
             (e, info) \<leftarrow> bulkfree_run env hmp (BF_SCAN chain) (info\<lparr> bf_pri := 0 \<rparr>);
             Some (e, info\<lparr> bf_pri := bf_pri info + savepri \<rparr>) });
        Some (e, info\<lparr> bf_depth := bf_depth info - 1 \<rparr>) }
      else Some (0, info))"

lemma fronts_append:
  assumes "fronts c' info info' new'" "fronts c info0 info new" "bf_next info0 \<le> bf_next info" "size c' < size c" "bf_backout info = None"
  shows "fronts c info0 info' (new' @ new)"
  using assms by (fastforce simp: fronts_def)

lemma visit_spec:
  assumes inv: "scan_inv hmp v info" and new: "fronts c info0 info new" "bf_next info0 \<le> bf_next info"
    and c': "chain_of v c'" "covered hmp info (bc_bref c')" "size c' < size c" "chain_ok c'" and q: "quiet hmp v (size c') info"
    and IH: "\<And>info. scan_pre hmp v c' info \<Longrightarrow> \<exists>info'. bulkfree_run env hmp (BF_SCAN c') info = Some (0, info') \<and> scan_post hmp v c' info info'"
  obtains info' where "bulkfree_visit env hmp c' info = Some (0, info')" "scan_inv hmp v info'" "progress hmp v info info'"
    "good hmp info' c'" "\<exists>new'. fronts c info0 info' new'"
proof (cases "bf_recurses (br_type (bc_bref c'))")
  case False
  then have "bc_entries c' = []" using c'(4) by (simp add: chain_ok_def)
  then have "good hmp info c'" by (intro goodI) simp
  then show ?thesis using that [of info] False inv new by (auto simp: bulkfree_visit_def)
next
  case rec: True
  let ?info = "info\<lparr> bf_depth := bf_depth info + 1 \<rparr>"
  have same: "same_scan info ?info" "same_scan info (?info\<lparr> bf_pri := 0 \<rparr>)" by (simp_all add: same_scan_def)
  show ?thesis
  proof (cases "bulkfree_must_defer env ?info")
    case True
    let ?d = "bulkfree_defer env c' ?info"
    note d = defer_spec [OF _ _ _ c'(1) _ c'(3) refl, where info = ?info, unfolded same_inv [OF same(1)] same_covered [OF same(1)]
        same_fronts [OF same(1)], OF inv new(1) _ c'(2), where env = env]
    let ?i = "?d\<lparr> bf_depth := bf_depth ?d - 1 \<rparr>"
    have s: "same_scan ?d ?i" by (simp add: same_scan_def)
    show ?thesis
    proof (rule that)
      show "bulkfree_visit env hmp c' info = Some (0, ?i)" using rec True by (simp add: bulkfree_visit_def Let_def)
      show "progress hmp v info ?i"
        using progress_trans [OF same_progress [OF same(1)] progress_trans [OF _ same_progress [OF s]]] d(2) new(2) by simp
    qed (use d new(2) same_inv [OF s] same_good [OF s] same_fronts [OF s] in simp_all)
  next
    case False
    let ?i1 = "?info\<lparr> bf_pri := 0 \<rparr>"
    have b: "bf_backout ?i1 = None" using False by (auto simp: bulkfree_must_defer_def)
    have "scan_pre hmp v c' ?i1"
      unfolding scan_pre_def same_inv [OF same(2)] same_covered [OF same(2)] using inv c' b same_quiet [OF same(2) q] by simp
    then obtain i2 where i2: "bulkfree_run env hmp (BF_SCAN c') ?i1 = Some (0, i2)" "scan_post hmp v c' ?i1 i2" using IH by blast
    then obtain new' where p: "scan_inv hmp v i2" "progress hmp v ?i1 i2" "good hmp i2 c'" "fronts c' ?i1 i2 new'"
      by (auto simp: scan_post_def)
    let ?i3 = "i2\<lparr> bf_pri := bf_pri i2 + bf_pri info, bf_depth := bf_depth i2 - 1 \<rparr>"
    have s: "same_scan i2 ?i3" by (simp add: same_scan_def)
    have "fronts c info0 i2 (new' @ new)"
      by (rule fronts_append [OF p(4)]) (use new c'(3) b same_fronts [OF same(2)] in simp_all)
    then have "\<exists>new'. fronts c info0 ?i3 new'" unfolding same_fronts [OF s] by blast
    show ?thesis
    proof (rule that)
      show "bulkfree_visit env hmp c' info = Some (0, ?i3)" using rec False i2(1) by (simp add: bulkfree_visit_def Let_def)
      show "progress hmp v info ?i3"
        by (rule progress_trans [OF same_progress [OF same(2)] progress_trans [OF p(2) same_progress [OF s]]])
    qed (use p same_inv [OF s] same_good [OF s] \<open>\<exists>new'. fronts c info0 ?i3 new'\<close> in simp_all)
  qed
qed

definition count_dirent :: "hammer2_blockref \<Rightarrow> hammer2_bulkfree_info \<Rightarrow> hammer2_bulkfree_info" where
  "count_dirent bref info = (if br_type bref = HAMMER2_BREF_TYPE_DIRENT
     then info\<lparr> bf_count_dirents_scanned := bf_count_dirents_scanned info + 1 \<rparr> else info)"

definition count_inode :: "hammer2_blockref \<Rightarrow> hammer2_bulkfree_info \<Rightarrow> hammer2_bulkfree_info" where
  "count_inode bref info = (if br_type bref = HAMMER2_BREF_TYPE_INODE
     then info\<lparr> bf_count_inodes_scanned := bf_count_inodes_scanned info + 1 \<rparr> else info)"

lemma count_same [simp]: "same_scan info (count_dirent bref info)" "same_scan info (count_inode bref info)"
  "same_scan info (bulkfree_count_chain c info)"
  by (simp_all add: count_dirent_def count_inode_def bulkfree_count_chain_def same_scan_def Let_def)

lemma run_loop_skip:
  "data_off_lbase (br_data_off (be_bref e)) = 0 \<Longrightarrow> bulkfree_run env hmp (BF_LOOP c (e # es) tl0 0 0) info =
     bulkfree_run env hmp (BF_LOOP c es tl0 0 0) (count_dirent (be_bref e) info)"
  by (subst bulkfree_run.simps) (simp add: Let_def count_dirent_def)

lemma run_loop_seen:
  assumes "data_off_lbase (br_data_off (be_bref e)) \<noteq> 0"
    "h2_bulkfree_test env ((count_dirent (be_bref e) info)\<lparr> bf_pri := bf_pri (count_dirent (be_bref e) info) + 1 \<rparr>) (be_bref e) 1 0 =
       (HAMMER2_ERROR_EOF, info1)"
  shows "bulkfree_run env hmp (BF_LOOP c (e # es) tl0 0 0) info = bulkfree_run env hmp (BF_LOOP c es tl0 0 0) info1"
  using assms by (subst bulkfree_run.simps) (simp add: Let_def count_dirent_def)

lemma run_loop_new:
  assumes "data_off_lbase (br_data_off (be_bref e)) \<noteq> 0"
    "h2_bulkfree_test env ((count_dirent (be_bref e) info)\<lparr> bf_pri := bf_pri (count_dirent (be_bref e) info) + 1 \<rparr>) (be_bref e) 1 0 =
       (0, info1)"
    "h2_bulkfree_callback env hmp (count_inode (be_bref e) info1) (be_bref e) = Some (0, info2)"
  shows "be_chain e = None \<Longrightarrow> bulkfree_run env hmp (BF_LOOP c (e # es) tl0 0 0) info = bulkfree_run env hmp (BF_LOOP c es tl0 0 0) info2"
    "be_chain e = Some c' \<Longrightarrow> bc_seen_error c' = 0 \<Longrightarrow> bulkfree_visit env hmp c' (bulkfree_count_chain c' info2) = Some (0, info3) \<Longrightarrow>
       bulkfree_run env hmp (BF_LOOP c (e # es) tl0 0 0) info = bulkfree_run env hmp (BF_LOOP c es tl0 0 0) info3"
proof -
  note eq = assms(2) [unfolded count_dirent_def] assms(3) [unfolded count_inode_def]
  show "bulkfree_run env hmp (BF_LOOP c (e # es) tl0 0 0) info = bulkfree_run env hmp (BF_LOOP c es tl0 0 0) info2" if "be_chain e = None"
    using assms(1) that eq by (subst bulkfree_run.simps) (simp add: Let_def)
  show "bulkfree_run env hmp (BF_LOOP c (e # es) tl0 0 0) info = bulkfree_run env hmp (BF_LOOP c es tl0 0 0) info3"
    if c': "be_chain e = Some c'" "bc_seen_error c' = 0" "bulkfree_visit env hmp c' (bulkfree_count_chain c' info2) = Some (0, info3)"
  proof -
    have "(if bf_recurses (br_type (bc_bref c')) then do {
        let info = (bulkfree_count_chain c' info2)\<lparr> bf_depth := bf_depth (bulkfree_count_chain c' info2) + 1 \<rparr>;
        (rup_error, info) \<leftarrow>
          (if bc_seen_error c' AND HAMMER2_ERROR_CHECK \<noteq> 0 then Some (0, info)
           else if bulkfree_must_defer env info then Some (0, bulkfree_defer env c' info)
           else do {
             let savepri = bf_pri info;
             (e4, info) \<leftarrow> bulkfree_run env hmp (BF_SCAN c') (info\<lparr> bf_pri := 0 \<rparr>);
             Some (0 OR e4, info\<lparr> bf_pri := bf_pri info + savepri \<rparr>) });
        Some (rup_error, info\<lparr> bf_depth := bf_depth info - 1 \<rparr>) }
      else Some (0, bulkfree_count_chain c' info2)) = Some (0, info3)"
      using c'(3) unfolding bulkfree_visit_def or.left_neutral c'(2) by (cases "bf_recurses (br_type (bc_bref c'))") (simp_all add: Let_def)
    then show ?thesis using assms(1) c'(1) eq by (subst bulkfree_run.simps) (simp add: Let_def)
  qed
qed

lemma progress_enter:
  assumes top: "topology_ok hmp v" "below v e" and adv: "advance hmp info infoc" "bf_next infoc = bf_next info" "mem_only {be_bref e} info infoc"
    and sn: "\<And>d. seen (bf_dedup infoc) d \<Longrightarrow> seen (bf_dedup info) d \<or> d = br_data_off (be_bref e)"
    and p: "progress hmp v infoc info'" and dn: "entry_done hmp info' e"
  shows "progress hmp v info info'"
proof -
  have "settled hmp v info' (br_data_off (be_bref e))" using top dn by (rule settledI)
  moreover have "mem_only (reached v) info info'"
  proof (rule mem_only_trans)
    show "mem_only (reached v) info infoc" by (rule mem_only_mono [OF adv(3)]) (use top(2) in blast)
    show "mem_only (reached v) infoc info'" using p by (simp add: progress_def)
    show "bf_sbase infoc = bf_sbase info" using adv(1) by (simp add: advance_def mem_grows_def)
  qed
  ultimately show ?thesis using p sn adv(2) advance_trans [OF adv(1), of info'] unfolding progress_def by fastforce
qed

lemma quiet_enter:
  assumes top: "topology_ok hmp v" "below v e" "be_chain e = Some c'" and q: "quiet hmp v n info" "size c' < n"
    and adv: "advance hmp info infoc" and cov: "covered hmp infoc (be_bref e)"
    and sn: "\<And>d. seen (bf_dedup infoc) d \<Longrightarrow> seen (bf_dedup info) d \<or> d = br_data_off (be_bref e)"
  shows "quiet hmp v (size c') infoc"
  unfolding quiet_def
proof (intro allI impI)
  fix f
  assume f: "below v f" "data_off_lbase (br_data_off (be_bref f)) \<noteq> 0" "seen (bf_dedup infoc) (br_data_off (be_bref f))"
  show "covered hmp infoc (be_bref f) \<and> (\<forall>c. be_chain f = Some c \<longrightarrow> size c < size c' \<longrightarrow> good hmp infoc c)"
  proof (cases "seen (bf_dedup info) (br_data_off (be_bref f))")
    case True
    then have "covered hmp info (be_bref f)" "\<And>c. be_chain f = Some c \<Longrightarrow> size c < n \<Longrightarrow> good hmp info c"
      using q(1) f unfolding quiet_def by blast+
    then show ?thesis using covered_advance [OF adv] good_advance [OF adv] q(2) by auto
  next
    case False
    then have d: "br_data_off (be_bref f) = br_data_off (be_bref e)" using sn f(3) by blast
    then have "be_chain f = Some c'" using top f(1) unfolding topology_ok_def by metis
    then show ?thesis using cov covered_data_off [OF d, of hmp infoc] by simp
  qed
qed

text \<open>The state after the dedup test and the callback on a new block.\<close>

lemma enter_new:
  assumes inv: "scan_inv hmp v info" and s: "same_scan info a" and b: "b = a\<lparr> bf_dedup := dedup, bf_count_dedup_factor := k \<rparr>"
    and d: "dedup_clean dedup" and blk: "block_ok hmp bref" and sig: "\<forall>n. \<not> ev_signal env n"
  obtains infoc where "h2_bulkfree_callback env hmp (count_inode bref b) bref = Some (0, infoc)"
    "scan_inv hmp v infoc" "advance hmp info infoc" "covered hmp infoc bref" "bf_dedup infoc = dedup" "bf_next infoc = bf_next info"
    "bf_list infoc = bf_list info" "bf_backout infoc = bf_backout info" "mem_only {bref} info infoc"
proof -
  let ?b = "count_inode bref b"
  have f: "bf_dedup ?b = dedup" "bf_next ?b = bf_next info" "bf_list ?b = bf_list info" "bf_backout ?b = bf_backout info"
    "bf_sbase ?b = bf_sbase info" "bf_sstop ?b = bf_sstop info" "bf_bmap ?b = bf_bmap info"
    using s unfolding b count_inode_def same_scan_def by simp_all
  then have m: "mem_ok hmp ?b" "mem_grows info ?b" "mem_only {bref} info ?b" using inv by (simp_all add: scan_inv_def mem_ok_def mem_grows_def mem_marked_def mem_only_def)
  obtain bmap where c: "h2_bulkfree_callback env hmp ?b bref = Some (0, ?b\<lparr> bf_calls := Suc (bf_calls ?b), bf_bmap := bmap \<rparr>)"
    "mem_ok hmp (?b\<lparr> bf_calls := Suc (bf_calls ?b), bf_bmap := bmap \<rparr>)" "mem_grows ?b (?b\<lparr> bf_calls := Suc (bf_calls ?b), bf_bmap := bmap \<rparr>)"
    "covered hmp (?b\<lparr> bf_calls := Suc (bf_calls ?b), bf_bmap := bmap \<rparr>) bref"
    "mem_only {bref} ?b (?b\<lparr> bf_calls := Suc (bf_calls ?b), bf_bmap := bmap \<rparr>)"
    by (rule callback_spec [OF m(1) blk, of env]) (use sig in simp_all)
  let ?c = "?b\<lparr> bf_calls := Suc (bf_calls ?b), bf_bmap := bmap \<rparr>"
  have g: "mem_grows info ?c" using m(2) c(3) by (rule mem_grows_trans)
  show ?thesis
  proof (rule that [OF c(1) _ _ c(4)])
    show "mem_only {bref} info ?c" by (rule mem_only_trans [OF m(3) c(5)]) (rule f(5))
    show "advance hmp info ?c" using g f(3) by (simp add: advance_def pend_def)
    show "scan_inv hmp v ?c" using inv c(2) d f covered_grows [OF g] by (simp add: scan_inv_def)
  qed (use f in simp_all)
qed

text \<open>The step of the loop for a block found in the dedup table, and for a new one.\<close>

definition entry_result :: "hammer2_dev \<Rightarrow> bf_chain \<Rightarrow> bf_chain \<Rightarrow> bf_entry \<Rightarrow> hammer2_bulkfree_info \<Rightarrow> hammer2_bulkfree_info \<Rightarrow>
    hammer2_bulkfree_info \<Rightarrow> bool" where
  "entry_result hmp v c e info0 info info' \<longleftrightarrow> scan_inv hmp v info' \<and> progress hmp v info info' \<and> entry_done hmp info' e \<and>
     (\<exists>new'. fronts c info0 info' new')"

lemma entry_seen:
  assumes inv: "scan_inv hmp v info" and s: "same_scan info a" and t: "t = a\<lparr> bf_dedup := dedup, bf_count_dedup_factor := k \<rparr>"
    and d: "dedup_clean dedup" "\<And>d. seen dedup d \<Longrightarrow> seen (bf_dedup info) d" and dn: "entry_done hmp info e" and new: "fronts c info0 info new"
  shows "entry_result hmp v c e info0 info t"
proof -
  have g: "mem_grows info t" "mem_ok hmp t"
    using s inv unfolding t by (simp_all add: same_scan_def mem_grows_def mem_marked_def mem_ok_def scan_inv_def)
  then have adv: "advance hmp info t" using s unfolding t by (simp add: advance_def pend_def same_scan_def)
  have "scan_inv hmp v t" using inv g(2) d(1) s covered_grows [OF g(1)] unfolding t by (simp add: scan_inv_def same_scan_def)
  moreover have "progress hmp v info t" using adv d(2) s unfolding t progress_def by (auto simp: same_scan_def mem_only_def mem_marked_def)
  moreover have "fronts c info0 t new" using new s unfolding t by (simp add: fronts_def same_scan_def)
  ultimately show ?thesis using done_advance [OF adv dn] unfolding entry_result_def by blast
qed

lemma entry_chain:
  assumes top: "topology_ok hmp v" and c: "chain_of v c" and e: "e \<in> set (bc_entries c)" "be_chain e = Some c'"
    and q: "quiet hmp v (size c) info" and new: "fronts c info0 infoc new" "bf_next info0 \<le> bf_next infoc"
    and ent: "scan_inv hmp v infoc" "advance hmp info infoc" "covered hmp infoc (be_bref e)" "bf_next infoc = bf_next info" "mem_only {be_bref e} info infoc"
      "\<And>d. seen (bf_dedup infoc) d \<Longrightarrow> seen (bf_dedup info) d \<or> d = br_data_off (be_bref e)"
    and IH: "\<And>info. scan_pre hmp v c' info \<Longrightarrow>
      \<exists>info'. bulkfree_run env hmp (BF_SCAN c') info = Some (0, info') \<and> scan_post hmp v c' info info'"
  obtains info' where "bulkfree_visit env hmp c' (bulkfree_count_chain c' infoc) = Some (0, info')" "entry_result hmp v c e info0 info info'"
proof -
  have be: "below v e" using c e(1) by (rule chain_of_entry)
  then have "entry_sound hmp e" using top by (simp add: topology_ok_def)
  then have cok: "chain_ok c'" "bc_bref c' = be_bref e" using e(2) by (simp_all add: entry_sound_def)
  have sz: "size c' < size c" by (rule entry_size [OF e])
  have co: "chain_of v c'" using be e(2) by (auto simp: chain_of_def)
  let ?i = "bulkfree_count_chain c' infoc"
  have si: "same_scan infoc ?i" by simp
  have qi: "quiet hmp v (size c') ?i"
    by (rule same_quiet [OF si quiet_enter [OF top be e(2) q sz ent(2,3)]]) (use ent(6) in blast)
  have pre: "scan_inv hmp v ?i" "fronts c info0 ?i new" "bf_next info0 \<le> bf_next ?i" "covered hmp ?i (bc_bref c')"
    using ent(1,3) new si [unfolded same_scan_def] cok(2) by (simp_all add: same_inv [OF si] same_fronts [OF si] same_covered [OF si])
  obtain i3 where i3: "bulkfree_visit env hmp c' ?i = Some (0, i3)" "scan_inv hmp v i3" "progress hmp v ?i i3"
    "good hmp i3 c'" "\<exists>new'. fronts c info0 i3 new'"
    by (rule visit_spec [OF pre(1-3) co pre(4) sz cok(1) qi IH]) (assumption | rule that)+
  have p: "progress hmp v infoc i3" by (rule progress_trans [OF same_progress [OF si] i3(3)])
  have dn: "entry_done hmp i3 e"
    using i3(4) e(2) covered_advance [OF progress_advance [OF p] ent(3)] by (simp add: entry_done_def)
  have "progress hmp v info i3" by (rule progress_enter [OF top be ent(2,4,5) _ p dn]) (use ent(6) in blast)
  then show ?thesis using that [OF i3(1)] i3(2,5) dn by (simp add: entry_result_def)
qed

lemma entry_step:
  assumes top: "topology_ok hmp v" and c: "chain_of v c" and e: "e \<in> set (bc_entries c)" and sig: "\<forall>n. \<not> ev_signal env n"
    and inv: "scan_inv hmp v info" and q: "quiet hmp v (size c) info" and new: "fronts c info0 info new" "bf_next info0 \<le> bf_next info"
    and IH: "\<And>c' info. size c' < size c \<Longrightarrow> scan_pre hmp v c' info \<Longrightarrow>
      \<exists>info'. bulkfree_run env hmp (BF_SCAN c') info = Some (0, info') \<and> scan_post hmp v c' info info'"
  obtains info' where "bulkfree_run env hmp (BF_LOOP c (e # es) tl0 0 0) info = bulkfree_run env hmp (BF_LOOP c es tl0 0 0) info'"
    "entry_result hmp v c e info0 info info'"
proof -
  let ?b = "be_bref e"
  let ?a = "(count_dirent ?b info)\<lparr> bf_pri := bf_pri (count_dirent ?b info) + 1 \<rparr>"
  have be: "below v e" using c e by (rule chain_of_entry)
  then have ok: "entry_sound hmp e" using top by (simp add: topology_ok_def)
  have s: "same_scan info ?a" "same_scan info (count_dirent ?b info)" using count_same(1) [of info ?b] by (simp_all add: same_scan_def)
  have da: "bf_dedup ?a = bf_dedup info" using s by (simp add: same_scan_def)
  then have cl: "dedup_clean (bf_dedup ?a)" using inv by (simp add: scan_inv_def)
  show ?thesis
  proof (cases "data_off_lbase (br_data_off ?b) = 0")
    case True
    then have "entry_done hmp (count_dirent ?b info) e" using ok by (simp add: entry_done_def covered_def entry_sound_def)
    then show ?thesis
      using that [OF run_loop_skip [OF True]] inv same_inv [OF s(2)] same_progress [OF s(2)] same_fronts [OF s(2)] new
      unfolding entry_result_def by blast
  next
    case nz: False
    obtain e2 dedup k where t: "h2_bulkfree_test env ?a ?b 1 0 = (e2, ?a\<lparr> bf_dedup := dedup, bf_count_dedup_factor := k \<rparr>)"
      "dedup_clean dedup" "e2 = 0 \<or> e2 = HAMMER2_ERROR_EOF \<and> seen (bf_dedup info) (br_data_off ?b)"
      "\<And>d. seen dedup d \<Longrightarrow> seen (bf_dedup info) d \<or> d = br_data_off ?b"
      by (rule bulkfree_test_spec [OF cl, of env ?b 1, unfolded da]) (rule that)
    show ?thesis
    proof (cases "e2 = 0")
      case False
      then have eof: "e2 = HAMMER2_ERROR_EOF" and sn: "seen (bf_dedup info) (br_data_off ?b)" using t(3) by simp_all
      have dn: "entry_done hmp info e"
        using q be nz sn entry_size [OF e] unfolding quiet_def entry_done_def by blast
      have "entry_result hmp v c e info0 info (?a\<lparr> bf_dedup := dedup, bf_count_dedup_factor := k \<rparr>)"
        by (rule entry_seen [OF inv s(1) refl t(2) _ dn new(1)]) (use t(4) sn in blast)
      then show ?thesis by (rule that [OF run_loop_seen [OF nz t(1) [unfolded eof]]])
    next
      case True
      have blk: "block_ok hmp ?b" using ok nz by (simp add: entry_sound_def)
      obtain infoc where cb: "h2_bulkfree_callback env hmp (count_inode ?b (?a\<lparr> bf_dedup := dedup, bf_count_dedup_factor := k \<rparr>)) ?b = Some (0, infoc)"
        "scan_inv hmp v infoc" "advance hmp info infoc" "covered hmp infoc ?b" "bf_dedup infoc = dedup" "bf_next infoc = bf_next info"
        "bf_list infoc = bf_list info" "bf_backout infoc = bf_backout info" "mem_only {?b} info infoc"
        by (rule enter_new [OF inv s(1) refl t(2) blk sig]) (rule that)
      have sn: "\<And>d. seen (bf_dedup infoc) d \<Longrightarrow> seen (bf_dedup info) d \<or> d = br_data_off ?b" using t(4) cb(5) by simp
      have fr: "fronts c info0 infoc new" "bf_next info0 \<le> bf_next infoc" using new cb(6-8) by (simp_all add: fronts_def)
      note run = run_loop_new [OF nz t(1) [unfolded True] cb(1)]
      show ?thesis
      proof (cases "be_chain e")
        case None
        then have dn: "entry_done hmp infoc e" using cb(4) by (simp add: entry_done_def)
        have "progress hmp v info infoc" by (rule progress_enter [OF top be cb(3,6,9) _ _ dn]) (use sn in auto)
        then show ?thesis using that [OF run(1) [OF None]] cb(2) dn fr(1) unfolding entry_result_def by blast
      next
        case (Some c')
        have sz: "size c' < size c" by (rule entry_size [OF e Some])
        have "bc_seen_error c' = 0" using ok Some by (simp add: entry_sound_def chain_ok_def)
        moreover obtain i3 where "bulkfree_visit env hmp c' (bulkfree_count_chain c' infoc) = Some (0, i3)" "entry_result hmp v c e info0 info i3"
          by (rule entry_chain [OF top c e Some q fr cb(2-4) cb(6,9) _ IH [OF sz]]) (use sn in \<open>blast | assumption | rule that\<close>)+
        ultimately show ?thesis using that [OF run(2) [OF Some]] by blast
      qed
    qed
  qed
qed

subsection \<open>A whole scan\<close>

lemma entries_loop:
  assumes top: "topology_ok hmp v" and c: "chain_of v c" and sig: "\<forall>n. \<not> ev_signal env n"
    and IH: "\<And>c' info. size c' < size c \<Longrightarrow> scan_pre hmp v c' info \<Longrightarrow>
      \<exists>info'. bulkfree_run env hmp (BF_SCAN c') info = Some (0, info') \<and> scan_post hmp v c' info info'"
  shows "set es \<subseteq> set (bc_entries c) \<Longrightarrow> scan_inv hmp v info \<Longrightarrow> quiet hmp v (size c) info \<Longrightarrow> progress hmp v info0 info \<Longrightarrow>
    \<exists>new. fronts c info0 info new \<Longrightarrow>
    \<exists>info'. bulkfree_run env hmp (BF_LOOP c es tl0 0 0) info = bulkfree_run env hmp (BF_RERUN c tl0 HAMMER2_ERROR_EOF 0) info' \<and>
      scan_inv hmp v info' \<and> progress hmp v info info' \<and> (\<exists>new. fronts c info0 info' new) \<and> (\<forall>e \<in> set es. entry_done hmp info' e)"
proof (induction es arbitrary: info)
  case Nil
  have "bc_end c = HAMMER2_ERROR_EOF" using chain_of_chain_ok [OF top c] by (simp add: chain_ok_def)
  then have "bulkfree_run env hmp (BF_LOOP c [] tl0 0 0) info = bulkfree_run env hmp (BF_RERUN c tl0 HAMMER2_ERROR_EOF 0) info"
    by (subst bulkfree_run.simps) simp
  then show ?case using Nil by (intro exI [of _ info]) simp
next
  case (Cons e es)
  obtain new where new: "fronts c info0 info new" using Cons.prems(5) by blast
  have nx: "bf_next info0 \<le> bf_next info" using Cons.prems(4) by (simp add: progress_def)
  have e: "e \<in> set (bc_entries c)" using Cons.prems(1) by simp
  obtain i1 where i1: "bulkfree_run env hmp (BF_LOOP c (e # es) tl0 0 0) info = bulkfree_run env hmp (BF_LOOP c es tl0 0 0) i1"
    and r: "entry_result hmp v c e info0 info i1"
    by (rule entry_step [OF top c e sig Cons.prems(2,3) new nx IH]) (assumption | rule that)+
  have r: "scan_inv hmp v i1" "progress hmp v info i1" "entry_done hmp i1 e" "\<exists>new'. fronts c info0 i1 new'"
    using r unfolding entry_result_def by blast+
  obtain i2 where i2: "bulkfree_run env hmp (BF_LOOP c es tl0 0 0) i1 = bulkfree_run env hmp (BF_RERUN c tl0 HAMMER2_ERROR_EOF 0) i2"
      "scan_inv hmp v i2" "progress hmp v i1 i2" "\<exists>new. fronts c info0 i2 new" "\<forall>e \<in> set es. entry_done hmp i2 e"
    using Cons.IH [OF _ r(1) quiet_progress [OF r(2) Cons.prems(3)] progress_trans [OF Cons.prems(4) r(2)] r(4)] Cons.prems(1) by auto
  have "progress hmp v info i2" by (rule progress_trans [OF r(2) i2(3)])
  moreover have "entry_done hmp i2 e" by (rule done_advance [OF progress_advance [OF i2(3)] r(3)])
  ultimately show ?case using i1 i2 by (intro exI [of _ i2]) simp
qed

text \<open>Taking a saved chain from the list.\<close>

lemma pop_pre:
  assumes inv: "scan_inv hmp v info" and l: "bf_list info = s # l" and q: "quiet hmp v n info" "size (snd s) \<le> n"
    and i1: "info1 = info\<lparr> bf_list := l, bf_backout := None, bf_list_count := k, bf_pri := 0 \<rparr>"
  shows "scan_pre hmp v (snd s) info1"
proof -
  have g: "mem_grows info info1" "mem_grows info1 info" unfolding i1 by (simp_all add: mem_grows_def mem_marked_def)
  have cov: "covered hmp info1 b = covered hmp info b" for b using g covered_grows by blast
  have "mem_ok hmp info1 = mem_ok hmp info" unfolding i1 by (simp add: mem_ok_def)
  then have inv1: "scan_inv hmp v info1" using inv l unfolding scan_inv_def cov by (simp add: i1)
  have "good hmp info1 c" if "good hmp info c" "size c < size (snd s)" for c
    using that l unfolding good_def cov by (auto simp: i1 pend_def)
  then have "quiet hmp v (size (snd s)) info1" using q(1) q(2) unfolding quiet_def cov by (simp add: i1)
  then show ?thesis using inv1 inv l unfolding scan_pre_def cov by (simp add: scan_inv_def) (simp add: i1)
qed

lemma pop_post:
  assumes l: "bf_list info = s # l" and i1: "info1 = info\<lparr> bf_list := l, bf_backout := None, bf_list_count := k, bf_pri := 0 \<rparr>"
    and post: "scan_post hmp v (snd s) info1 info2"
  shows "progress hmp v info info2"
proof -
  have p: "progress hmp v info1 info2" "good hmp info2 (snd s)" using post by (simp_all add: scan_post_def)
  have "mem_grows info info1" unfolding i1 by (simp add: mem_grows_def mem_marked_def)
  moreover have "pend info = insert (snd s) (pend info1)" using l by (simp add: i1 pend_def)
  ultimately have "advance hmp info info2"
    using p mem_grows_trans [of info info1 info2] unfolding progress_def advance_def by simp
  then show ?thesis using p(1) unfolding progress_def by (simp add: i1 mem_only_def mem_marked_def)
qed

lemma rerun_pop:
  assumes inv: "scan_inv hmp v info" and q: "quiet hmp v (size c) info" and nx: "bf_next info0 \<le> bf_next info"
    and new: "fronts c info0 info (s # new)"
    and i1: "info1 = info\<lparr> bf_list := new @ bf_list info0, bf_backout := None, bf_list_count := k, bf_pri := 0 \<rparr>"
    and post: "scan_post hmp v (snd s) info1 info2"
  obtains new' where "fronts c info0 info2 (new' @ new)" "\<forall>t \<in> set new'. size (snd t) < size (snd s)"
proof -
  obtain new' where n: "fronts (snd s) info1 info2 new'" using post by (auto simp: scan_post_def)
  show ?thesis
  proof (rule that)
    show "\<forall>t \<in> set new'. size (snd t) < size (snd s)" using n by (simp add: fronts_def)
    have "fronts c info0 info1 new" using new by (simp add: fronts_def i1)
    then show "fronts c info0 info2 (new' @ new)"
      by (rule fronts_append [OF n]) (use nx new in \<open>simp_all add: i1 fronts_def\<close>)
  qed
qed

lemma scan_end_spec:
  assumes top: "topology_ok hmp v" and c: "chain_of v c" and inv: "scan_inv hmp v info" and g: "good hmp info c"
    and cov: "covered hmp info (bc_bref c)"
  obtains info' where "bf_scan_end env c (HAMMER2_ERROR_EOF OR 0) info = (0, info')" "scan_inv hmp v info'" "progress hmp v info info'"
    "bf_list info' = bf_list info" "bf_backout info' = bf_backout info"
proof -
  have cl: "dedup_clean (bf_dedup info)" using inv by (simp add: scan_inv_def)
  obtain e2 dedup k where t: "h2_bulkfree_test env info (bc_bref c) (bf_pri info + 1) 0 = (e2, info\<lparr> bf_dedup := dedup, bf_count_dedup_factor := k \<rparr>)"
    "dedup_clean dedup" "\<And>d. seen dedup d \<Longrightarrow> seen (bf_dedup info) d \<or> d = br_data_off (bc_bref c)"
    by (rule bulkfree_test_spec [OF cl, of env "bc_bref c" "bf_pri info + 1"]) (rule that)
  let ?i = "info\<lparr> bf_dedup := dedup, bf_count_dedup_factor := k \<rparr>"
  have m: "mem_grows info ?i" "mem_ok hmp ?i = mem_ok hmp info" by (simp_all add: mem_grows_def mem_marked_def mem_ok_def)
  then have adv: "advance hmp info ?i" by (simp add: advance_def pend_def)
  have st: "settled hmp v ?i (br_data_off (bc_bref c))" if "data_off_lbase (br_data_off (bc_bref c)) \<noteq> 0"
  proof -
    have "c \<noteq> v" using that top unfolding topology_ok_def by blast
    then obtain e where e: "below v e" "be_chain e = Some c" using c by (auto simp: chain_of_def)
    then have "entry_sound hmp e" using topology_entry [OF top] by blast
    then have "bc_bref c = be_bref e" using e(2) by (simp add: entry_sound_def)
    then show ?thesis
      using settledI [OF top e(1), of ?i] e(2) covered_advance [OF adv cov] good_advance [OF adv g] by (simp add: entry_done_def)
  qed
  have "seen (bf_dedup info) d \<or> settled hmp v ?i d" if "data_off_lbase d \<noteq> 0" "seen dedup d" for d
    using t(3) [OF that(2)] st that(1) by auto
  then have "progress hmp v info ?i" using adv unfolding progress_def by (simp add: mem_only_def mem_marked_def)
  moreover have "scan_inv hmp v ?i" using inv m t(2) covered_grows [OF m(1)] by (simp add: scan_inv_def)
  moreover have "bf_scan_end env c (HAMMER2_ERROR_EOF OR 0) info = (0, ?i)" using t(1) by (simp add: bf_scan_end_def)
  ultimately show ?thesis using that by simp
qed

abbreviation (input) scan_runs :: "bulkfree_env \<Rightarrow> hammer2_dev \<Rightarrow> bf_chain \<Rightarrow> bf_chain \<Rightarrow> bool" where
  "scan_runs env hmp v c \<equiv> \<forall>info. scan_pre hmp v c info \<longrightarrow>
     (\<exists>info'. bulkfree_run env hmp (BF_SCAN c) info = Some (0, info') \<and> scan_post hmp v c info info')"

text \<open>The loop below the root of a PFS ends: every chain taken from the list is replaced by smaller ones.\<close>

lemma pending_decrease:
  assumes "\<forall>t \<in> set new'. size (snd t) < size (snd s)"
  shows "(mset (map (size \<circ> snd) (new' @ new)), mset (map (size \<circ> snd) (s # new))) \<in> mult (less_than :: (nat \<times> nat) set)"
proof -
  have "(mset (map (size \<circ> snd) new) + mset (map (size \<circ> snd) new'), mset (map (size \<circ> snd) new) + {# size (snd s) #}) \<in> mult less_than"
    using assms by (intro one_step_implies_mult) auto
  then show ?thesis by (simp add: union_commute)
qed

lemma first_fresh:
  assumes "fronts c info0 info (s # new)" "scan_inv hmp v info0" shows "list_first (bf_list info) \<noteq> list_first (bf_list info0)"
  using assms by (cases "bf_list info0") (auto simp: fronts_def list_first_def scan_inv_def)

lemma rerun_loop:
  assumes top: "topology_ok hmp v" and c: "chain_of v c" and inv0: "scan_inv hmp v info0"
    and IH: "\<And>c'. size c' < size c \<Longrightarrow> scan_runs env hmp v c'"
  shows "scan_inv hmp v info \<Longrightarrow> quiet hmp v (size c) info \<Longrightarrow> progress hmp v info0 info \<Longrightarrow> fronts c info0 info new \<Longrightarrow>
    good hmp info c \<Longrightarrow> covered hmp info (bc_bref c) \<Longrightarrow>
    \<exists>info'. bulkfree_run env hmp (BF_RERUN c (list_first (bf_list info0)) HAMMER2_ERROR_EOF 0) info = Some (0, info') \<and> scan_post hmp v c info0 info'"
proof (induction "mset (map (size \<circ> snd) new)" arbitrary: info new rule: wf_induct_rule [OF wf_mult [OF wf_less_than]])
  case 1
  note p = "1.prems"
  show ?case
  proof (cases "bf_pfsroot c \<and> list_first (bf_list info) \<noteq> list_first (bf_list info0)")
    case False
    obtain i where i: "bf_scan_end env c (HAMMER2_ERROR_EOF OR 0) info = (0, i)" "scan_inv hmp v i" "progress hmp v info i"
      "bf_list i = bf_list info" "bf_backout i = bf_backout info"
      by (rule scan_end_spec [OF top c p(1,5,6), where env = env]) (rule that)
    have "new = []" if "bf_pfsroot c" using False that first_fresh [OF _ inv0] p(4) by (cases new) blast+
    moreover have "fronts c info0 i new" using p(4) i(4,5) by (simp add: fronts_def)
    ultimately have "scan_post hmp v c info0 i"
      using i(2) progress_trans [OF p(3) i(3)] good_advance [OF progress_advance [OF i(3)] p(5)] by (auto simp: scan_post_def)
    moreover have "bulkfree_run env hmp (BF_RERUN c (list_first (bf_list info0)) HAMMER2_ERROR_EOF 0) info = Some (0, i)"
      using False i(1) by (subst bulkfree_run.simps) auto
    ultimately show ?thesis by blast
  next
    case True
    then obtain s new1 where n: "new = s # new1" using p(4) by (cases new) (auto simp: fronts_def)
    let ?l = "new1 @ bf_list info0"
    have l: "bf_list info = s # ?l" using p(4) n by (simp add: fronts_def)
    have sz: "size (snd s) < size c" using p(4) n by (simp add: fronts_def)
    define i1 where "i1 = info\<lparr> bf_list := ?l, bf_backout := None, bf_list_count := bf_list_count info - 1, bf_pri := 0 \<rparr>"
    have "scan_pre hmp v (snd s) i1" by (rule pop_pre [OF p(1) l p(2) less_imp_le [OF sz] i1_def])
    then obtain i2 where r: "bulkfree_run env hmp (BF_SCAN (snd s)) i1 = Some (0, i2)" and post: "scan_post hmp v (snd s) i1 i2"
      using IH [OF sz] by blast
    have nx: "bf_next info0 \<le> bf_next info" using p(3) by (simp add: progress_def)
    obtain new' where n': "fronts c info0 i2 (new' @ new1)" "\<forall>t \<in> set new'. size (snd t) < size (snd s)"
      by (rule rerun_pop [OF p(1,2) nx p(4) [unfolded n] i1_def post])
    have pr: "progress hmp v info i2" by (rule pop_post [OF l i1_def post])
    let ?i3 = "i2\<lparr> bf_pri := bf_pri info \<rparr>"
    have s3: "same_scan i2 ?i3" by (simp add: same_scan_def)
    have pr3: "progress hmp v info ?i3" by (rule progress_trans [OF pr same_progress [OF s3]])
    have "\<exists>info'. bulkfree_run env hmp (BF_RERUN c (list_first (bf_list info0)) HAMMER2_ERROR_EOF 0) ?i3 = Some (0, info') \<and> scan_post hmp v c info0 info'"
    proof (rule "1.hyps")
      show "(mset (map (size \<circ> snd) (new' @ new1)), mset (map (size \<circ> snd) new)) \<in> mult less_than"
        unfolding n by (rule pending_decrease [OF n'(2)])
      show "scan_inv hmp v ?i3" using post same_inv [OF s3] by (simp add: scan_post_def)
      show "fronts c info0 ?i3 (new' @ new1)" using n'(1) same_fronts [OF s3] by simp
    qed (use p pr3 progress_advance [OF pr3] in \<open>blast intro: quiet_progress progress_trans good_advance covered_advance\<close>)+
    moreover have "bulkfree_run env hmp (BF_RERUN c (list_first (bf_list info0)) HAMMER2_ERROR_EOF 0) info =
        bulkfree_run env hmp (BF_RERUN c (list_first (bf_list info0)) HAMMER2_ERROR_EOF 0) ?i3"
      using True l r unfolding i1_def by (subst bulkfree_run.simps) simp
    ultimately show ?thesis by simp
  qed
qed

lemma scan_main:
  assumes top: "topology_ok hmp v" and sig: "\<forall>n. \<not> ev_signal env n"
  shows "scan_runs env hmp v c"
proof (induction "size c" arbitrary: c rule: less_induct)
  case less
  have IH: "scan_runs env hmp v c'" if "size c' < size c" for c' by (rule less [OF that])
  show ?case
  proof (intro allI impI)
    fix info
    assume pre: "scan_pre hmp v c info"
    let ?i = "info\<lparr> bf_pri := bf_pri info + 1 \<rparr>"
    have s: "same_scan info ?i" by (simp add: same_scan_def)
    have c: "chain_of v c" and inv: "scan_inv hmp v ?i" and cov: "covered hmp ?i (bc_bref c)"
      using pre same_inv [OF s] same_covered [OF s] by (simp_all add: scan_pre_def)
    have q: "quiet hmp v (size c) ?i" using pre same_quiet [OF s] by (simp add: scan_pre_def)
    have fr: "fronts c ?i ?i []" using pre by (simp add: fronts_def scan_pre_def)
    let ?t = "list_first (bf_list ?i)"
    obtain i1 where i1: "bulkfree_run env hmp (BF_LOOP c (bc_entries c) ?t 0 0) ?i = bulkfree_run env hmp (BF_RERUN c ?t HAMMER2_ERROR_EOF 0) i1"
      "scan_inv hmp v i1" "progress hmp v ?i i1" "\<exists>new. fronts c ?i i1 new" "\<forall>e \<in> set (bc_entries c). entry_done hmp i1 e"
      using entries_loop [OF top c sig _ subset_refl inv q progress_refl, of ?t] fr IH by blast
    obtain new where new: "fronts c ?i i1 new" using i1(4) by blast
    have "good hmp i1 c" using i1(5) by (intro goodI) blast
    then obtain i2 where i2: "bulkfree_run env hmp (BF_RERUN c ?t HAMMER2_ERROR_EOF 0) i1 = Some (0, i2)" "scan_post hmp v c ?i i2"
      using rerun_loop [OF top c inv IH i1(2) quiet_progress [OF i1(3) q] i1(3) new _ covered_advance [OF progress_advance [OF i1(3)] cov]] by blast
    have "bc_error c = 0" using chain_of_chain_ok [OF top c] by (simp add: chain_ok_def)
    then have "bulkfree_run env hmp (BF_SCAN c) info = Some (0, i2)"
      using i1(1) i2(1) by (subst bulkfree_run.simps) (simp add: Let_def)
    moreover have "scan_post hmp v c info i2"
      using i2(2) progress_trans [OF same_progress [OF s], of hmp v i2] by (simp add: scan_post_def fronts_def)
    ultimately show "\<exists>info'. bulkfree_run env hmp (BF_SCAN c) info = Some (0, info') \<and> scan_post hmp v c info info'" by blast
  qed
qed

text \<open>The loop over the saved chains of a window, by the same argument.\<close>

lemma drain_pop:
  assumes inv: "scan_inv hmp v info" and l: "bf_list info = s # l" and q: "\<And>n. quiet hmp v n info" and run: "scan_runs env hmp v (snd s)"
  obtains info2 new' where "bulkfree_drain env hmp 0 info = bulkfree_drain env hmp 0 info2" "scan_inv hmp v info2" "progress hmp v info info2"
    "bf_list info2 = new' @ l" "\<forall>t \<in> set new'. size (snd t) < size (snd s)"
proof -
  define i1 where "i1 = info\<lparr> bf_list := l, bf_backout := None, bf_list_count := bf_list_count info - 1, bf_pri := 0 \<rparr>"
  have "scan_pre hmp v (snd s) i1" by (rule pop_pre [OF inv l q order_refl i1_def])
  then obtain i2 where r: "bulkfree_run env hmp (BF_SCAN (snd s)) i1 = Some (0, i2)" and post: "scan_post hmp v (snd s) i1 i2"
    using run by blast
  then obtain new' where new: "fronts (snd s) i1 i2 new'" and inv2: "scan_inv hmp v i2" by (auto simp: scan_post_def)
  have "info\<lparr> bf_list := l, bf_list_count := bf_list_count info - 1, bf_pri := 0, bf_backout := None \<rparr> = i1" unfolding i1_def by simp
  then have "bulkfree_drain env hmp 0 info = bulkfree_drain env hmp 0 i2"
    using l r by (subst bulkfree_drain.simps) (simp add: hammer2_bulkfree_scan_def)
  then show ?thesis
    using that [OF _ inv2 pop_post [OF l i1_def post], of new'] new by (simp add: fronts_def) (simp add: i1_def)
qed

lemma drain_ends:
  assumes top: "topology_ok hmp v" and sig: "\<forall>n. \<not> ev_signal env n"
  shows "scan_inv hmp v info \<Longrightarrow> (\<And>n. quiet hmp v n info) \<Longrightarrow>
    \<exists>info'. bulkfree_drain env hmp 0 info = Some (0, info') \<and> scan_inv hmp v info' \<and> progress hmp v info info' \<and> bf_list info' = []"
proof (induction "mset (map (size \<circ> snd) (bf_list info))" arbitrary: info rule: wf_induct_rule [OF wf_mult [OF wf_less_than]])
  case 1
  show ?case
  proof (cases "bf_list info")
    case Nil
    then have "bulkfree_drain env hmp 0 info = Some (0, info)" by (subst bulkfree_drain.simps) simp
    then show ?thesis using Nil "1.prems" by auto
  next
    case (Cons s l)
    obtain i2 new' where i2: "bulkfree_drain env hmp 0 info = bulkfree_drain env hmp 0 i2" "scan_inv hmp v i2" "progress hmp v info i2"
      "bf_list i2 = new' @ l" "\<forall>t \<in> set new'. size (snd t) < size (snd s)"
      by (rule drain_pop [OF "1.prems"(1) Cons "1.prems"(2) scan_main [OF top sig]]) (rule that)
    have "\<exists>info'. bulkfree_drain env hmp 0 i2 = Some (0, info') \<and> scan_inv hmp v info' \<and> progress hmp v i2 info' \<and> bf_list info' = []"
    proof (rule "1.hyps")
      show "(mset (map (size \<circ> snd) (bf_list i2)), mset (map (size \<circ> snd) (bf_list info))) \<in> mult less_than"
        unfolding i2(4) Cons by (rule pending_decrease [OF i2(5)])
      show "quiet hmp v n i2" for n by (rule quiet_progress [OF i2(3) "1.prems"(2)])
    qed (rule i2(2))
    then show ?thesis using i2(1) progress_trans [OF i2(3)] by auto
  qed
qed

lemma start_pre:
  assumes top: "topology_ok hmp v" and mem: "mem_ok hmp info"
    and start: "bf_list info = []" "bf_backout info = None" "bf_dedup info = (\<lambda>_. dedup_zero)"
  shows "quiet hmp v n info" "scan_pre hmp v v info"
proof -
  have sz: "seen (bf_dedup info) d \<Longrightarrow> d = 0" "dedup_clean (bf_dedup info)" for d using start(3) by (simp_all add: seen_def dedup_clean_def dedup_zero_def)
  have inv: "scan_inv hmp v info" using mem start(1) sz(2) by (simp add: scan_inv_def)
  show q: "quiet hmp v n info" for n
  proof -
    have "\<not> seen (bf_dedup info) d" if "data_off_lbase d \<noteq> 0" for d using that sz(1) [of d] by (auto simp: data_off_lbase_def)
    then show ?thesis unfolding quiet_def by blast
  qed
  show "scan_pre hmp v v info"
    using inv q start(2) top by (simp add: scan_pre_def chain_of_def topology_ok_def covered_def)
qed

lemma gather_ends:
  assumes top: "topology_ok hmp v" and sig: "\<forall>n. \<not> ev_signal env n" and mem: "mem_ok hmp info"
    and start: "bf_list info = []" "bf_backout info = None" "bf_dedup info = (\<lambda>_. dedup_zero)"
  obtains info' where "bulkfree_gather env hmp v 0 info = Some (0, info')" "mem_ok hmp info'" "mem_grows info info'" "mem_only (reached v) info info'"
    "bf_list info' = []" "bf_backout info' = None" "\<And>e. below v e \<Longrightarrow> covered hmp info' (be_bref e)"
proof -
  let ?i = "info\<lparr> bf_pri := 0 \<rparr>"
  have s: "same_scan info ?i" by (simp add: same_scan_def)
  have q: "quiet hmp v n ?i" and pre: "scan_pre hmp v v ?i" for n
    using start_pre [OF top, of ?i] mem start by (simp_all add: mem_ok_def)
  obtain i1 where r1: "bulkfree_run env hmp (BF_SCAN v) ?i = Some (0, i1)" and p1: "scan_post hmp v v ?i i1" using scan_main [OF top sig] pre by blast
  then have i1: "scan_inv hmp v i1" "progress hmp v ?i i1" "good hmp i1 v" by (simp_all add: scan_post_def)
  obtain i2 where r2: "bulkfree_drain env hmp 0 i1 = Some (0, i2)" and i2: "scan_inv hmp v i2" "progress hmp v i1 i2" "bf_list i2 = []"
    using drain_ends [OF top sig i1(1) quiet_progress [OF i1(2) q]] by blast
  let ?f = "i2\<lparr> bf_list_count := bf_list_count i2 - int (length (bf_list i2)), bf_list := [], bf_backout := None \<rparr>"
  have g: "mem_grows i2 ?f" "mem_ok hmp ?f = mem_ok hmp i2" by (simp_all add: mem_grows_def mem_marked_def mem_ok_def)
  have "good hmp i2 v" by (rule good_advance [OF progress_advance [OF i2(2)] i1(3)])
  then have cov: "covered hmp i2 (be_bref e)" if "below v e" for e using that i2(3) by (auto simp: good_def pend_def)
  have "mem_only (reached v) ?i i2" using progress_trans [OF i1(2) i2(2)] by (simp add: progress_def)
  then have only: "mem_only (reached v) info ?f" by (simp add: mem_only_def mem_marked_def)
  show ?thesis
  proof (rule that [OF _ _ _ only])
    show "bulkfree_gather env hmp v 0 info = Some (0, ?f)"
      using r1 r2 by (simp add: bulkfree_gather_def hammer2_bulkfree_scan_def)
    show "mem_ok hmp ?f" using i2(1) g(2) by (simp add: scan_inv_def)
    have "mem_grows ?i i1" "mem_grows i1 i2" using i1(2) i2(2) by (simp_all add: progress_def advance_def)
    then show "mem_grows info ?f" using same_grows [OF s] g(1) by (blast intro: mem_grows_trans)
    show "covered hmp ?f (be_bref e)" if "below v e" for e by (rule covered_grows [OF g(1) cov [OF that]])
  qed simp_all
qed

subsection \<open>The start of a window\<close>

lemma bmap_init_length [simp]: "length (bmap_init_loop n key lo hi) = n"
  by (induction n key lo hi rule: bmap_init_loop.induct) (simp_all add: Let_def)

lemma bmap_zero_full: "bmap_zero\<lparr> bm_bitmapq := replicate 8 (-1), bm_avail := 0, bm_linear := 4194304 \<rparr> = bmap_full"
  by (simp add: bmap_zero_def bmap_full_def)

lemma bmap_init_entries:
  "set (bmap_init_loop n key lo hi) \<subseteq> {bmap_full, bmap_zero\<lparr> bm_avail := 4194304 \<rparr>}"
proof (induction n arbitrary: key lo)
  case (Suc n)
  let ?l = "if lo < H2FMBASE key HAMMER2_FREEMAP_LEVEL1_RADIX then H2FMBASE key HAMMER2_FREEMAP_LEVEL1_RADIX else lo"
  let ?l' = "if ?l < H2FMZONEBASE key + HAMMER2_ZONE_SEG then H2FMZONEBASE key + HAMMER2_ZONE_SEG else ?l"
  have "bmap_init_loop (Suc n) key lo hi = (if key < ?l' \<or> hi \<le> key then bmap_full else bmap_zero\<lparr> bm_avail := 4194304 \<rparr>) #
      bmap_init_loop n (key + 4194304) ?l' hi"
    by (simp only: bmap_init_loop.simps Let_def bmap_zero_full)
  then show ?case using Suc.IH [of "key + 4194304" ?l'] by auto
qed simp

lemma init_entry_ok:
  "mem_entry_ok bmap_full" "mem_linear_ok bmap_full"
  "mem_entry_ok (bmap_zero\<lparr> bm_avail := a \<rparr>)" "mem_linear_ok (bmap_zero\<lparr> bm_avail := a \<rparr>)" "c < 256 \<Longrightarrow> chunk_full bmap_full c"
proof -
  have d: "c div 32 < 8" if "c < 256" for c :: nat using that by (simp add: less_mult_imp_div_less)
  have full: "chunk_full bmap_full c" if "c < 256" for c
    using d [OF that] by (simp add: chunk_full_def bmap_full_def)
  then show "mem_entry_ok bmap_full" by (simp add: mem_entry_ok_def) (simp add: bmap_full_def)
  show "mem_linear_ok bmap_full" by (simp add: mem_linear_ok_def bmap_full_def)
  show "mem_entry_ok (bmap_zero\<lparr> bm_avail := a \<rparr>)"
    using d by (simp add: mem_entry_ok_def chunk_free_def pair_free_def bmap_zero_def)
  show "mem_linear_ok (bmap_zero\<lparr> bm_avail := a \<rparr>)" by (simp add: mem_linear_ok_def bmap_zero_def)
  show "c < 256 \<Longrightarrow> chunk_full bmap_full c" by (rule full)
qed

text \<open>The size of the buffer fits the media, and the window starts on 1GB.\<close>

definition window_ok :: "hammer2_dev \<Rightarrow> u64 \<Rightarrow> hammer2_bulkfree_info \<Rightarrow> bool" where
  "window_ok hmp nbytes info \<longleftrightarrow> unat (bf_sbase info) mod 2 ^ 30 = 0 \<and> bf_sbase info < hmp_total_size hmp \<and>
     unat (hmp_total_size hmp) < 2 ^ 63 \<and> unat nbytes mod 32768 = 0 \<and> 32768 \<le> unat nbytes \<and> unat nbytes \<le> 2 ^ 48"

lemma window_incr:
  assumes "unat (nbytes :: u64) mod 32768 = 0" "unat nbytes \<le> 2 ^ 48"
  shows "unat (nbytes div HAMMER2_FREEMAP_LEVELN_PSIZE * HAMMER2_FREEMAP_LEVEL1_SIZE) = 32768 * unat nbytes"
    "4194304 * (unat nbytes div 128) = 32768 * unat nbytes"
proof -
  obtain k where k: "unat nbytes = 32768 * k" using assms(1) by auto
  have k33: "k \<le> 2 ^ 33" using assms(2) k by simp
  have "unat (nbytes div 32768) = k" by (simp add: unat_div k)
  then show "unat (nbytes div HAMMER2_FREEMAP_LEVELN_PSIZE * HAMMER2_FREEMAP_LEVEL1_SIZE) = 32768 * unat nbytes"
    using k33 k by (simp add: unat_word_ariths)
  have "32768 * k = 128 * (256 * k)" by simp
  then have "unat nbytes div 128 = 256 * k" unfolding k by (metis nonzero_mult_div_cancel_left zero_neq_numeral)
  then show "4194304 * (unat nbytes div 128) = 32768 * unat nbytes" unfolding k by simp
qed

definition window_started :: "hammer2_dev \<Rightarrow> hammer2_bulkfree_info \<Rightarrow> hammer2_bulkfree_info \<Rightarrow> bool" where
  "window_started hmp info info' \<longleftrightarrow> mem_ok hmp info' \<and> bf_sbase info' = bf_sbase info \<and> bf_sbase info < bf_sstop info' \<and>
     (bf_sstop info' = hmp_total_size hmp \<or> unat (bf_sstop info') mod 2 ^ 30 = 0 \<and> bf_sstop info' < hmp_total_size hmp) \<and>
     bf_dedup info' = (\<lambda>_. dedup_zero) \<and> bf_list info' = bf_list info \<and> bf_backout info' = bf_backout info \<and>
     bf_adj_free info' = bf_adj_free info"

lemma window_start_ok:
  assumes ok: "window_ok hmp nbytes info" shows "window_started hmp info (bulkfree_window_start hmp nbytes info)"
proof -
  let ?i = "bulkfree_window_start hmp nbytes info" and ?t = "hmp_total_size hmp" and ?b = "bf_sbase info"
  let ?incr = "nbytes div HAMMER2_FREEMAP_LEVELN_PSIZE * HAMMER2_FREEMAP_LEVEL1_SIZE"
  have w: "unat ?b mod 2 ^ 30 = 0" "?b < ?t" "unat ?t < 2 ^ 63" "unat nbytes mod 32768 = 0" "32768 \<le> unat nbytes" "unat nbytes \<le> 2 ^ 48"
    using ok by (simp_all add: window_ok_def)
  note inc = window_incr [OF w(4,6)]
  have lt: "unat ?b < unat ?t" using w(2) by (simp add: word_less_nat_alt)
  have f: "bf_sbase ?i = ?b" "bf_sstop ?i = (if ?t - ?b \<le> ?incr then ?t else ?b + ?incr)"
    "bf_bmap ?i = bmap_init_loop (unat nbytes div 128) ?b
       ((vd_allocator_beg (hmp_voldata hmp) + HAMMER2_SEGMASK) AND NOT HAMMER2_SEGMASK) (?t AND NOT HAMMER2_SEGMASK)"
    "bf_dedup ?i = (\<lambda>_. dedup_zero)" "bf_list ?i = bf_list info" "bf_backout ?i = bf_backout info" "bf_adj_free ?i = bf_adj_free info"
    by (simp_all add: bulkfree_window_start_def cbinfo_bmap_init_def Let_def)
  have s: "unat (bf_sstop ?i) - unat ?b \<le> 32768 * unat nbytes" "unat ?b < unat (bf_sstop ?i)" "unat (bf_sstop ?i) \<le> unat ?t"
    "bf_sstop ?i = ?t \<or> unat (bf_sstop ?i) mod 2 ^ 30 = 0 \<and> unat (bf_sstop ?i) < unat ?t"
  proof -
    have d: "unat (?t - ?b) = unat ?t - unat ?b" using lt by (simp add: unat_sub word_le_nat_alt)
    have "unat (bf_sstop ?i) - unat ?b \<le> 32768 * unat nbytes \<and> unat ?b < unat (bf_sstop ?i) \<and> unat (bf_sstop ?i) \<le> unat ?t \<and>
      (bf_sstop ?i = ?t \<or> unat (bf_sstop ?i) mod 2 ^ 30 = 0 \<and> unat (bf_sstop ?i) < unat ?t)"
    proof (cases "?t - ?b \<le> ?incr")
      case True
      then have "unat ?t - unat ?b \<le> 32768 * unat nbytes" using d inc(1) by (simp only: word_le_nat_alt)
      then show ?thesis using f(2) True lt by simp
    next
      case False
      then have "32768 * unat nbytes < unat ?t - unat ?b" using d inc(1) by (simp only: word_le_nat_alt)
      then have lt2: "unat ?b + 32768 * unat nbytes < unat ?t" by simp
      then have u: "unat (?b + ?incr) = unat ?b + 32768 * unat nbytes" using inc(1) w(3) by (simp add: unat_word_ariths)
      obtain k where k: "unat nbytes = 32768 * k" using w(4) by auto
      obtain j where j: "unat ?b = 2 ^ 30 * j" using w(1) by auto
      have "unat ?b + 32768 * unat nbytes = 2 ^ 30 * (j + k)" unfolding j k by simp
      then have "(unat ?b + 32768 * unat nbytes) mod 2 ^ 30 = 0" by (simp only: mod_mult_self1_is_0)
      then show ?thesis using f(2) False u lt2 w(5) by simp
    qed
    then show "unat (bf_sstop ?i) - unat ?b \<le> 32768 * unat nbytes" "unat ?b < unat (bf_sstop ?i)" "unat (bf_sstop ?i) \<le> unat ?t"
      "bf_sstop ?i = ?t \<or> unat (bf_sstop ?i) mod 2 ^ 30 = 0 \<and> unat (bf_sstop ?i) < unat ?t" by blast+
  qed
  have m22: "n mod 4194304 = 0" if "n mod 2 ^ 30 = 0" for n :: nat
  proof -
    have "n mod 2 ^ 30 mod 4194304 = n mod 4194304" by (rule mod_mod_cancel) simp
    then show ?thesis using that by simp
  qed
  have "mem_entry_ok b \<and> mem_linear_ok b" if "b \<in> set (bf_bmap ?i)" for b
    using that bmap_init_entries init_entry_ok(1-4) unfolding f(3) by blast
  then have "mem_ok hmp ?i"
    using s w(1,3) m22 unfolding mem_ok_def f(1) by (auto simp: f(3) inc(2) word_le_nat_alt)
  then show ?thesis using f s(2,4) unfolding window_started_def word_less_nat_alt by blast
qed

section \<open>Properties of the scan\<close>

text \<open>C19: A block the scan meets is entered in the in-memory freemap in full: when no signal is pending,
  \<open>h2_bulkfree_callback\<close> returns 0, every byte of the block that lies in the window of the pass is marked in use, nothing
  that was marked is lost, and no chunk the block does not touch is marked.\<close>

theorem bulkfree_callback_marks:
  assumes "mem_ok hmp info" "block_ok hmp bref" "\<not> ev_signal env (bf_calls info)"
  shows "\<exists>info'. h2_bulkfree_callback env hmp info bref = Some (0, info') \<and> mem_ok hmp info' \<and> mem_grows info info' \<and>
    mem_only {bref} info info' \<and>
    (in_window hmp info bref \<longrightarrow> data_off_lbase (br_data_off bref) \<noteq> 0 \<longrightarrow> (\<forall>x \<in> bref_bytes bref (bref_radix bref). mem_marked info' x))"
proof -
  obtain bmap where c: "h2_bulkfree_callback env hmp info bref = Some (0, info\<lparr> bf_calls := Suc (bf_calls info), bf_bmap := bmap \<rparr>)"
    "mem_ok hmp (info\<lparr> bf_calls := Suc (bf_calls info), bf_bmap := bmap \<rparr>)"
    "mem_grows info (info\<lparr> bf_calls := Suc (bf_calls info), bf_bmap := bmap \<rparr>)"
    "covered hmp (info\<lparr> bf_calls := Suc (bf_calls info), bf_bmap := bmap \<rparr>) bref"
    "mem_only {bref} info (info\<lparr> bf_calls := Suc (bf_calls info), bf_bmap := bmap \<rparr>)"
    by (rule callback_spec [OF assms]) (rule that)
  moreover have "in_window hmp (info\<lparr> bf_calls := Suc (bf_calls info), bf_bmap := bmap \<rparr>) bref = in_window hmp info bref" by (simp add: in_window_def)
  ultimately show ?thesis unfolding covered_def by blast
qed

text \<open>C2: The scan of one window ends and misses nothing: over a healthy topology and without signals,
  \<open>hammer2_bulkfree_scan\<close> and the loop over the chains it deferred return with no error and an empty list, and every block
  below the volume that lies in the window is marked in use, whatever the dedup heuristic skipped and whatever was
  deferred at the depth limit.\<close>

theorem bulkfree_gather_complete:
  assumes "topology_ok hmp v" "\<forall>n. \<not> ev_signal env n" "window_ok hmp nbytes info" "bf_list info = []" "bf_backout info = None"
  shows "\<exists>info'. bulkfree_gather env hmp v 0 (bulkfree_window_start hmp nbytes info) = Some (0, info') \<and> bf_list info' = [] \<and>
    mem_grows (bulkfree_window_start hmp nbytes info) info' \<and>
    (\<forall>e. below v e \<and> in_window hmp info' (be_bref e) \<and> data_off_lbase (br_data_off (be_bref e)) \<noteq> 0 \<longrightarrow>
       (\<forall>x \<in> bref_bytes (be_bref e) (bref_radix (be_bref e)). mem_marked info' x))"
proof -
  have w: "window_started hmp info (bulkfree_window_start hmp nbytes info)" by (rule window_start_ok [OF assms(3)])
  obtain info' where "bulkfree_gather env hmp v 0 (bulkfree_window_start hmp nbytes info) = Some (0, info')" "bf_list info' = []"
    "mem_grows (bulkfree_window_start hmp nbytes info) info'" "\<And>e. below v e \<Longrightarrow> covered hmp info' (be_bref e)"
    by (rule gather_ends [OF assms(1,2), of "bulkfree_window_start hmp nbytes info"])
      (use w assms(4,5) in \<open>auto simp: window_started_def intro: that\<close>)
  then show ?thesis unfolding covered_def by blast
qed

text \<open>C9: The scan of one window marks nothing else: a byte that is marked after it lies in a segment that the
  window reserves from the start, or in a 16KB chunk that a block below the volume touches.\<close>

theorem bulkfree_gather_exact:
  assumes "topology_ok hmp v" "\<forall>n. \<not> ev_signal env n" "window_ok hmp nbytes info" "bf_list info = []" "bf_backout info = None"
    "bulkfree_gather env hmp v 0 (bulkfree_window_start hmp nbytes info) = Some (error, info')" "unat (bf_sbase info) \<le> x" "mem_marked info' x"
  shows "mem_marked (bulkfree_window_start hmp nbytes info) x \<or> (\<exists>e. below v e \<and> x \<in> block_chunks (be_bref e))"
proof -
  let ?w = "bulkfree_window_start hmp nbytes info"
  have w: "window_started hmp info ?w" by (rule window_start_ok [OF assms(3)])
  obtain info2 where g: "bulkfree_gather env hmp v 0 ?w = Some (0, info2)" "mem_only (reached v) ?w info2"
    by (rule gather_ends [OF assms(1,2), of ?w])
      (use w assms(4,5) in \<open>auto simp: window_started_def intro: that\<close>)
  have "unat (bf_sbase ?w) \<le> x" using w assms(7) by (simp add: window_started_def)
  then show ?thesis using g(2) g(1) assms(6,8) unfolding mem_only_def by auto
qed

text \<open>C10: A scan of any chain of the topology returns, without an error, from every state the pass can be in; the scan of the
  root of a PFS runs the chains that were deferred below it itself and leaves the list as it found it.\<close>

theorem bulkfree_scan_returns:
  assumes "topology_ok hmp v" "\<forall>n. \<not> ev_signal env n" "scan_pre hmp v c info"
  shows "\<exists>info'. hammer2_bulkfree_scan env hmp c info = Some (0, info') \<and> mem_grows info info' \<and> good hmp info' c \<and>
    (bf_pfsroot c \<longrightarrow> bf_list info' = bf_list info)"
proof -
  obtain info' where i: "bulkfree_run env hmp (BF_SCAN c) info = Some (0, info')" "scan_post hmp v c info info'"
    using scan_main [OF assms(1,2), of c] assms(3) by blast
  have "bf_list info' = bf_list info" if "bf_pfsroot c" using i(2) that by (auto simp: scan_post_def fronts_def)
  moreover have "mem_grows info info'" "good hmp info' c" using i(2) by (simp_all add: scan_post_def progress_def advance_def)
  ultimately show ?thesis using i(1) by (auto simp: hammer2_bulkfree_scan_def)
qed

subsection \<open>An example topology\<close>

definition ex_block :: "u8 \<Rightarrow> hammer2_off_t \<Rightarrow> hammer2_blockref" where
  "ex_block t off = blockref_zero\<lparr> br_type := t, br_data_off := off \<rparr>"

abbreviation ex_data_block :: hammer2_blockref where
  "ex_data_block \<equiv> ex_block HAMMER2_BREF_TYPE_DATA (8454144 OR 14)"

definition ex_inode_chain :: bf_chain where
  "ex_inode_chain = BfChain (ex_block HAMMER2_BREF_TYPE_INODE (8388608 OR 10)) 1024 0 0
     [BfEntry ex_data_block None] HAMMER2_ERROR_EOF"

definition ex_topology :: bf_chain where
  "ex_topology = BfChain (ex_block HAMMER2_BREF_TYPE_VOLUME 0) 0 0 0
     [BfEntry (ex_block HAMMER2_BREF_TYPE_INODE (8388608 OR 10)) (Some ex_inode_chain)] HAMMER2_ERROR_EOF"

definition ex_bulk_env :: bulkfree_env where
  "ex_bulk_env = \<lparr> ev_signal = (\<lambda>_. False), ev_lookup = (\<lambda>_. 0), ev_modify = (\<lambda>_. 0), ev_crc32c = (\<lambda>_ _. 0),
     ev_limit_scan_depth = 10, ev_limit_saved_chains = 1000 \<rparr>"

lemma ex_below:
  "below ex_inode_chain e \<longleftrightarrow> e = BfEntry ex_data_block None"
  "below ex_topology e \<longleftrightarrow> e = BfEntry (ex_block HAMMER2_BREF_TYPE_INODE (8388608 OR 10)) (Some ex_inode_chain) \<or> e = BfEntry ex_data_block None"
proof -
  show 1: "below ex_inode_chain e \<longleftrightarrow> e = BfEntry ex_data_block None" for e
    by (subst below_simps) (auto simp: ex_inode_chain_def)
  show "below ex_topology e \<longleftrightarrow> e = BfEntry (ex_block HAMMER2_BREF_TYPE_INODE (8388608 OR 10)) (Some ex_inode_chain) \<or> e = BfEntry ex_data_block None"
    by (subst below_simps) (auto simp: ex_topology_def 1)
qed

lemma ex_block_ok: "block_ok ex_dev (ex_block t (8388608 OR 10))" "block_ok ex_dev (ex_block t (8454144 OR 14))"
  by (simp_all add: block_ok_def bref_radix_def ex_block_def data_off_lbase_def ex_dev_def)

lemma ex_topology_ok: "topology_ok ex_dev ex_topology"
proof -
  have s: "entry_sound ex_dev (BfEntry ex_data_block None)"
    "entry_sound ex_dev (BfEntry (ex_block HAMMER2_BREF_TYPE_INODE (8388608 OR 10)) (Some ex_inode_chain))"
    using ex_block_ok by (simp_all add: entry_sound_def chain_ok_def ex_inode_chain_def bf_recurses_def ex_block_def data_off_lbase_def)
  have "chain_ok ex_topology" "data_off_lbase (br_data_off (bc_bref ex_topology)) = 0"
    by (simp_all add: chain_ok_def ex_topology_def bf_recurses_def ex_block_def data_off_lbase_def)
  then show ?thesis unfolding topology_ok_def ex_below using s by (auto simp: ex_block_def)
qed

abbreviation ex_window :: hammer2_bulkfree_info where
  "ex_window \<equiv> bulkfree_window_start ex_dev 1048576 bulkfree_info_zero"

lemma ex_window_ok: "window_ok ex_dev 1048576 bulkfree_info_zero" "mem_ok ex_dev ex_window" "bf_list bulkfree_info_zero = []"
  "bf_backout bulkfree_info_zero = None" "\<forall>n. \<not> ev_signal ex_bulk_env n"
proof -
  show w: "window_ok ex_dev 1048576 bulkfree_info_zero"
    by (simp add: window_ok_def bulkfree_info_zero_def ex_dev_def)
  show "mem_ok ex_dev ex_window" using window_start_ok [OF w] by (simp add: window_started_def)
qed (simp_all add: bulkfree_info_zero_def ex_bulk_env_def)

lemma ex_window_fields: "bf_sbase ex_window = 0" "bf_sstop ex_window = 1082130432"
  by (simp_all add: bulkfree_window_start_def cbinfo_bmap_init_def bulkfree_info_zero_def ex_dev_def Let_def)

lemma ex_data_in: "in_window ex_dev info ex_data_block" if "bf_sbase info = 0" "bf_sstop info = 1082130432"
  using that by (simp add: in_window_def ex_block_def data_off_lbase_def ex_dev_def)

lemma ex_data_bytes: "8454144 \<in> bref_bytes ex_data_block (bref_radix ex_data_block)" "data_off_lbase (br_data_off ex_data_block) \<noteq> 0"
  by (simp_all add: bref_bytes_def ex_block_def data_off_lbase_def bref_radix_def)

theorem bulkfree_callback_marks_witness:
  "\<exists>info'. h2_bulkfree_callback ex_bulk_env ex_dev ex_window ex_data_block = Some (0, info') \<and> mem_marked info' 8454144"
  using bulkfree_callback_marks [OF ex_window_ok(2) ex_block_ok(2), of ex_bulk_env HAMMER2_BREF_TYPE_DATA] ex_window_ok(5)
    ex_data_in [OF ex_window_fields] ex_data_bytes by blast

theorem bulkfree_gather_complete_witness:
  "\<exists>info'. bulkfree_gather ex_bulk_env ex_dev ex_topology 0 ex_window = Some (0, info') \<and> bf_list info' = [] \<and> mem_marked info' 8454144"
proof -
  obtain info' where i: "bulkfree_gather ex_bulk_env ex_dev ex_topology 0 ex_window = Some (0, info')" "bf_list info' = []"
    "mem_grows ex_window info'"
    "\<And>e. below ex_topology e \<Longrightarrow> in_window ex_dev info' (be_bref e) \<Longrightarrow> data_off_lbase (br_data_off (be_bref e)) \<noteq> 0 \<Longrightarrow>
       \<forall>x \<in> bref_bytes (be_bref e) (bref_radix (be_bref e)). mem_marked info' x"
    using bulkfree_gather_complete [OF ex_topology_ok ex_window_ok(5,1,3,4)] by blast
  have "in_window ex_dev info' ex_data_block" by (rule ex_data_in) (use i(3) ex_window_fields in \<open>simp_all add: mem_grows_def\<close>)
  then have "mem_marked info' 8454144" using i(4) [of "BfEntry ex_data_block None"] ex_data_bytes by (simp add: ex_below)
  then show ?thesis using i(1,2) by blast
qed

lemma ex_gathered:
  "\<exists>info'. bulkfree_gather ex_bulk_env ex_dev ex_topology 0 ex_window = Some (0, info') \<and> mem_marked info' 8454144"
proof -
  obtain info' where i: "bulkfree_gather ex_bulk_env ex_dev ex_topology 0 ex_window = Some (0, info')" "mem_grows ex_window info'"
    "\<And>e. below ex_topology e \<Longrightarrow> covered ex_dev info' (be_bref e)"
    by (rule gather_ends [OF ex_topology_ok ex_window_ok(5), of ex_window])
      (use window_start_ok [OF ex_window_ok(1)] ex_window_ok(3,4) in \<open>auto simp: window_started_def intro: that\<close>)
  have "in_window ex_dev info' ex_data_block" by (rule ex_data_in) (use i(2) ex_window_fields in \<open>simp_all add: mem_grows_def\<close>)
  then have "mem_marked info' 8454144" using i(3) [of "BfEntry ex_data_block None"] ex_data_bytes by (simp add: ex_below covered_def)
  then show ?thesis using i(1) by blast
qed

theorem bulkfree_gather_exact_witness:
  "\<exists>info'. bulkfree_gather ex_bulk_env ex_dev ex_topology 0 ex_window = Some (0, info') \<and> mem_marked info' 8454144 \<and>
     (mem_marked ex_window 8454144 \<or> (\<exists>e. below ex_topology e \<and> 8454144 \<in> block_chunks (be_bref e)))"
proof -
  obtain info' where i: "bulkfree_gather ex_bulk_env ex_dev ex_topology 0 ex_window = Some (0, info')" "mem_marked info' 8454144"
    using ex_gathered by blast
  moreover have "unat (bf_sbase bulkfree_info_zero) \<le> 8454144" by (simp add: bulkfree_info_zero_def)
  ultimately show ?thesis using bulkfree_gather_exact [OF ex_topology_ok ex_window_ok(5,1,3,4) i(1), of 8454144] by blast
qed

theorem bulkfree_scan_returns_witness:
  "\<exists>info'. hammer2_bulkfree_scan ex_bulk_env ex_dev ex_topology ex_window = Some (0, info') \<and> good ex_dev info' ex_topology"
proof -
  have "scan_pre ex_dev ex_topology ex_topology ex_window"
    by (rule start_pre(2) [OF ex_topology_ok ex_window_ok(2)])
      (use window_start_ok [OF ex_window_ok(1)] ex_window_ok(3,4) in \<open>simp_all add: window_started_def\<close>)
  then show ?thesis using bulkfree_scan_returns [OF ex_topology_ok ex_window_ok(5)] by blast
qed

end
