(* ===== verification/Hammer2_Sync.thy ===== *)
theory Hammer2_Sync
  imports Hammer2_Scan
begin

text \<open>
  The reconciliation of one segment by \<^verbatim>\<open>hammer2_bulkfree.c\<close>: the table of transitions of the two bits of a chunk, the
  count of free space, the linear iterator and the dedup bits of the device buffers.
\<close>

unbundle bit_operations_syntax

section \<open>Reconciling one segment\<close>

text \<open>The two bits of a chunk, and what the reconciliation makes of them: \<open>m\<close> of the scan, \<open>l\<close> of the live freemap.\<close>

definition pair_val :: "hammer2_bitmap_t \<Rightarrow> nat \<Rightarrow> u64" where
  "pair_val q p = drop_bit (2 * p) q AND 3"

definition chunk_state :: "hammer2_bmap_data \<Rightarrow> nat \<Rightarrow> u64" where
  "chunk_state b c = pair_val (bm_bitmapq b ! (c div 32)) (c mod 32)"

definition sync_state_of :: "u64 \<Rightarrow> u64 \<Rightarrow> u64" where
  "sync_state_of m l = (if m = 0 then (if l = 2 then 0 else if l = 3 then 2 else l) else if m = 3 then 3 else l)"

lemma pair_val_bits: "pair_val q p = (if bit q (2 * p) then 1 else 0) + (if bit q (2 * p + 1) then 2 else 0)"
proof -
  have 3: "(3 :: u64) = mask 2" by (simp add: mask_eq_exp_minus_1)
  have "drop_bit (2 * p) q AND 3 = take_bit 2 (drop_bit (2 * p) q)" unfolding 3 take_bit_eq_mask by simp
  also have "\<dots> = (if bit q (2 * p) then 1 else 0) + (if bit q (2 * p + 1) then 2 else 0)"
  proof -
    let ?w = "drop_bit (2 * p) q"
    have "odd ?w \<longleftrightarrow> bit q (2 * p)" by (simp add: bit_iff_odd_drop_bit)
    moreover have "odd (?w div 2) \<longleftrightarrow> bit q (2 * p + 1)"
    proof -
      have "bit ?w 1 \<longleftrightarrow> odd (?w div 2)" unfolding One_nat_def bit_Suc bit_0 by (rule refl)
      then show ?thesis by (simp add: bit_drop_bit_eq)
    qed
    ultimately show ?thesis by (simp add: take_bit_Suc numeral_2_eq_2 mod_2_eq_odd)
  qed
  finally show ?thesis unfolding pair_val_def .
qed

lemma pair_val_iff:
  "pair_val q p = 0 \<longleftrightarrow> \<not> bit q (2 * p) \<and> \<not> bit q (2 * p + 1)" "pair_val q p = 1 \<longleftrightarrow> bit q (2 * p) \<and> \<not> bit q (2 * p + 1)"
  "pair_val q p = 2 \<longleftrightarrow> \<not> bit q (2 * p) \<and> bit q (2 * p + 1)" "pair_val q p = 3 \<longleftrightarrow> bit q (2 * p) \<and> bit q (2 * p + 1)"
  by (simp_all add: pair_val_bits)

lemma pair_val_eqI:
  "bit q (2 * p) = bit r (2 * s) \<Longrightarrow> bit q (2 * p + 1) = bit r (2 * s + 1) \<Longrightarrow> pair_val q p = pair_val r s"
  by (simp add: pair_val_bits)

lemma chunk_state_free: "chunk_state b c = 0 \<longleftrightarrow> chunk_free b c"
  by (auto simp: chunk_state_def pair_val_iff chunk_free_def pair_free_def)

lemma chunk_state_full: "chunk_state b c = 3 \<longleftrightarrow> chunk_full b c"
  by (auto simp: chunk_state_def pair_val_iff chunk_full_def)

text \<open>What one pair does to the bits.\<close>

lemma pair_val_change:
  assumes "p < 32" "r < 32"
  shows "pair_val (q AND NOT (push_bit (2 * p) 2)) r = (if r = p then (if bit q (2 * p) then 1 else 0) else pair_val q r)"
    "pair_val (q AND NOT (push_bit (2 * p) 1)) r = (if r = p then (if bit q (2 * p + 1) then 2 else 0) else pair_val q r)"
    "pair_val (q OR push_bit (2 * p) 3) r = (if r = p then 3 else pair_val q r)"
proof -
  have 1: "bit (push_bit (2 * p) (1 :: u64)) n \<longleftrightarrow> n = 2 * p" and 2: "bit (push_bit (2 * p) (2 :: u64)) n \<longleftrightarrow> n = 2 * p + 1"
    and 3: "bit (push_bit (2 * p) (3 :: u64)) n \<longleftrightarrow> n = 2 * p \<or> n = 2 * p + 1" if "n < 64" for n
  proof -
    have e: "bit (2 ^ k :: u64) n \<longleftrightarrow> n = k" for k using that by (auto simp: bit_exp_iff)
    have "push_bit (2 * p) (2 :: u64) = 2 ^ (2 * p + 1)" by (simp add: push_bit_eq_mult)
    then    show "bit (push_bit (2 * p) (1 :: u64)) n \<longleftrightarrow> n = 2 * p" "bit (push_bit (2 * p) (2 :: u64)) n \<longleftrightarrow> n = 2 * p + 1"
      using e by (simp_all only: push_bit_of_1)
    show "bit (push_bit (2 * p) (3 :: u64)) n \<longleftrightarrow> n = 2 * p \<or> n = 2 * p + 1"
      using that unfolding bitrun_2 bit_bitrun by auto
  qed
  have nb: "bit (NOT w) n \<longleftrightarrow> \<not> bit w n" if "n < 64" for w :: u64 and n using that by (simp add: bit_not_iff)
  have lt: "2 * r < 64" "2 * r + 1 < 64" using assms by simp_all
  have ne: "r = p \<longleftrightarrow> 2 * r = 2 * p" "2 * r \<noteq> 2 * p + 1" "2 * r + 1 \<noteq> 2 * p" by presburger+
  show "pair_val (q AND NOT (push_bit (2 * p) 2)) r = (if r = p then (if bit q (2 * p) then 1 else 0) else pair_val q r)"
    "pair_val (q AND NOT (push_bit (2 * p) 1)) r = (if r = p then (if bit q (2 * p + 1) then 2 else 0) else pair_val q r)"
    "pair_val (q OR push_bit (2 * p) 3) r = (if r = p then 3 else pair_val q r)"
    using ne unfolding pair_val_bits bit_and_iff bit_or_iff nb [OF lt(1)] nb [OF lt(2)]
      1 [OF lt(1)] 1 [OF lt(2)] 2 [OF lt(1)] 2 [OF lt(2)] 3 [OF lt(1)] 3 [OF lt(2)] by simp_all
qed

text \<open>The dedup bits of a chunk, and an operation on the device buffers that only takes bits away.\<close>

definition chunk_off :: "hammer2_off_t \<Rightarrow> nat \<Rightarrow> hammer2_off_t" where
  "chunk_off base c = (base + of_nat (16384 * c)) OR 14"

definition dedup_clear :: "hammer2_dev \<Rightarrow> hammer2_off_t \<Rightarrow> bool" where
  "dedup_clear hmp x \<longleftrightarrow> fst (dedup_of hmp (data_off_pbase x)) AND hammer2_dedup_mask (data_off_pbase x) x 16384 = 0"

definition io_shrinks :: "hammer2_dev \<Rightarrow> hammer2_dev \<Rightarrow> bool" where
  "io_shrinks hmp hmp' \<longleftrightarrow> io_inv hmp' \<and> io_room hmp' \<and> io_frame hmp hmp' \<and>
     (\<forall>q. fst (dedup_of hmp' q) AND fst (dedup_of hmp q) = fst (dedup_of hmp' q))"

lemma io_shrinks_refl: "io_inv hmp \<Longrightarrow> io_room hmp \<Longrightarrow> io_shrinks hmp hmp"
  by (simp add: io_shrinks_def io_frame_def)

lemma io_shrinks_trans:
  assumes "io_shrinks a b" "io_shrinks b c" shows "io_shrinks a c"
proof -
  have "fst (dedup_of c q) AND fst (dedup_of a q) = fst (dedup_of c q)" for q
  proof -
    have b: "fst (dedup_of b q) AND fst (dedup_of a q) = fst (dedup_of b q)" and c: "fst (dedup_of c q) AND fst (dedup_of b q) = fst (dedup_of c q)"
      using assms by (simp_all add: io_shrinks_def)
    have "fst (dedup_of c q) AND fst (dedup_of a q) = fst (dedup_of c q) AND (fst (dedup_of b q) AND fst (dedup_of a q))"
      by (subst c [symmetric]) (rule and.assoc)
    then show ?thesis unfolding b c .
  qed
  then show ?thesis using assms by (simp add: io_shrinks_def io_frame_def)
qed

lemma dedup_clear_shrinks:
  assumes "io_shrinks hmp hmp'" "dedup_clear hmp x" shows "dedup_clear hmp' x"
proof -
  let ?q = "data_off_pbase x"
  have s: "fst (dedup_of hmp' ?q) AND fst (dedup_of hmp ?q) = fst (dedup_of hmp' ?q)" using assms(1) by (simp add: io_shrinks_def)
  have "(fst (dedup_of hmp' ?q) AND fst (dedup_of hmp ?q)) AND hammer2_dedup_mask ?q x 16384 =
      fst (dedup_of hmp' ?q) AND (fst (dedup_of hmp ?q) AND hammer2_dedup_mask ?q x 16384)" by (rule and.assoc)
  then show ?thesis using assms(2) unfolding s dedup_clear_def by simp
qed

lemma effect_shrinks:
  assumes "io_effect f hmp hmp'" "io_inv hmp" "io_room hmp" and f: "\<And>q b. fst (f q b) AND fst b = fst (f q b)"
  shows "io_shrinks hmp hmp'"
proof -
  have "fst (dedup_of hmp' q) AND fst (dedup_of hmp q) = fst (dedup_of hmp' q)" for q
  proof -
    have "dedup_of hmp' q = (0, 0) \<or> dedup_of hmp' q = f q (dedup_of hmp q)" using assms(1) by (simp add: io_effect_def)
    then show ?thesis using f [of q "dedup_of hmp q"] by (elim disjE) (simp_all only: fst_conv and_zero_eq bit.conj_zero_left)
  qed
  then show ?thesis using assms(1) io_effect_room [OF assms(1-3)] by (simp add: io_shrinks_def io_effect_def)
qed

lemma word_and_not_mask_le: "(x :: u64) AND NOT (mask n) \<le> x"
  unfolding word_le_nat_alt unat_and_not_mask by simp

lemma chunk_range_ok:
  assumes seg: "seg_backed hmp base" and fit: "unat base + 4194304 < 2 ^ 64" and c: "c < 256"
  shows "dedup_range_ok (chunk_off base c) 16384"
proof -
  let ?B = "base + of_nat (16384 * c)" and ?x = "chunk_off base c"
  have "16384 * c mod 65536 = 16384 * (c mod 4)" using mult_mod_right [of 16384 c 4] by simp
  then have m: "16384 * c mod 65536 + 16384 \<le> 65536" using mod_less_divisor [of 4 c] by linarith
  have "16384 * c = 1024 * (16 * c)" by simp
  then have "16384 * c mod 1024 = 0" by (simp only: mod_mult_self1_is_0)
  then have pl: "block_placed 14 (16384 * c)" using m by (simp add: block_placed_def)
  have b: "data_off_backed (?B OR of_nat 14) hmp" "unat ?B = unat base + 16384 * c" "unat ?B mod 1024 = 0"
    by (rule block_backed [OF seg pl]; use c in simp)+
  have x: "?x = ?B OR of_nat 14" by (simp add: chunk_off_def)
  have l: "data_off_lbase ?x = ?B" unfolding x by (rule or_radix(2) [OF b(3)]) simp
  have k: "(65535 :: u64) = mask 16" "(63 :: u64) = mask 6" by (simp_all add: mask_eq_exp_minus_1)
  have le: "data_off_pbase ?x \<le> data_off_lbase ?x" "data_off_lbase ?x \<le> ?x"
    unfolding data_off_pbase_def data_off_lbase_def k by (rule word_and_not_mask_le)+
  have p: "unat (data_off_pbase ?x) = unat ?B div 65536 * 65536"
    unfolding data_off_pbase_def l k by (simp only: unat_and_not_mask) simp
  have "unat base mod 2 ^ 22 = 0" using seg unat_and_mask [of base 22] unfolding seg_backed_def mask_22 by simp
  then obtain q' where "unat base = 2 ^ 22 * q'" by auto
  then obtain q where q: "unat base = 65536 * (64 * q)" using that [of q'] by simp
  have "unat ?B mod 65536 = 16384 * c mod 65536" unfolding b(2) q by (simp only: mod_mult_self4)
  then have e: "unat ?B + 16384 \<le> unat (data_off_pbase ?x) + 65536"
    unfolding p using m div_mult_mod_eq [of "unat ?B" 65536] by linarith
  have u: "unat (?B + of_nat 16384) = unat ?B + 16384" "unat (data_off_pbase ?x + 65536) = unat (data_off_pbase ?x) + 65536"
  proof -
    have "16384 * c \<le> 16384 * 255" using c by (intro mult_le_mono) simp_all
    then have B: "unat ?B + 16384 \<le> unat base + 4194304" using b(2) by simp
    have "unat ?B div 65536 < 64 * q + 64" using B by (intro less_mult_imp_div_less) (simp add: q)
    then have "unat (data_off_pbase ?x) + 65536 \<le> unat base + 4194304" unfolding p q by linarith
    then show "unat (?B + of_nat 16384) = unat ?B + 16384" "unat (data_off_pbase ?x + 65536) = unat (data_off_pbase ?x) + 65536"
      using B fit by (simp_all add: unat_word_ariths)
  qed
  have "?B + of_nat 16384 \<le> data_off_pbase ?x + 65536" unfolding word_le_nat_alt u by (rule e)
  moreover have "data_off_ok ?x" using b(1) by (simp only: x data_off_backed_def)
  ultimately show ?thesis unfolding dedup_range_ok_def l using order_trans [OF le] by simp
qed

text \<open>The bits of one pair changed.\<close>

lemma chunk_index: "i < 8 \<Longrightarrow> p < 32 \<Longrightarrow> (32 * i + p) div 32 = i \<and> (32 * i + p) mod 32 = p \<and> 32 * i + p < (256 :: nat)"
  by simp

lemma chunk_state_update:
  assumes len: "length (bm_bitmapq b) = 8" and i: "i < 8" "p < 32" and q: "bm_bitmapq b' = (bm_bitmapq b)[i := q']"
    and p: "\<And>r. r < 32 \<Longrightarrow> pair_val q' r = (if r = p then s else pair_val (bm_bitmapq b ! i) r)" and d: "d < 256"
  shows "chunk_state b' d = (if d = 32 * i + p then s else chunk_state b d)"
proof -
  have "d div 32 < 8" using d by (simp add: less_mult_imp_div_less)
  moreover have "d = 32 * i + p \<longleftrightarrow> d div 32 = i \<and> d mod 32 = p" using i div_mult_mod_eq [of d 32] by auto
  ultimately show ?thesis using len i p [of "d mod 32"] by (cases "d div 32 = i") (simp_all add: chunk_state_def q)
qed

lemma pair_val_le: "pair_val q p = 0 \<or> pair_val q p = 1 \<or> pair_val q p = 2 \<or> pair_val q p = 3"
  by (simp add: pair_val_bits)

text \<open>The effect of reconciling chunk \<open>c\<close>.\<close>

definition sync_avail :: "u64 \<Rightarrow> u64 \<Rightarrow> u32 \<Rightarrow> u32" where
  "sync_avail m l avail =
     (if m = 0 \<and> l = 2 then (if avail + 16384 > 4194304 then 4194304 else avail + 16384)
      else if m = 3 \<and> l = 0 then (if sint (avail - 16384) < 0 then 0 else avail - 16384) else avail)"

definition sync_adj :: "u64 \<Rightarrow> u64 \<Rightarrow> u64" where
  "sync_adj m l = (if m = 0 \<and> l = 2 then 16384 else if m = 3 \<and> l = 0 then - 16384 else 0)"

definition sync_frame :: "hammer2_bulkfree_info \<Rightarrow> hammer2_bulkfree_info \<Rightarrow> bool" where
  "sync_frame info info' \<longleftrightarrow> bf_sbase info' = bf_sbase info \<and> bf_sstop info' = bf_sstop info \<and> bf_bmap info' = bf_bmap info \<and>
     bf_list info' = bf_list info \<and> bf_backout info' = bf_backout info"

definition pair_result :: "hammer2_off_t \<Rightarrow> nat \<Rightarrow> u64 \<Rightarrow> sync_state \<Rightarrow> sync_state \<Rightarrow> bool" where
  "pair_result base c m s s' \<longleftrightarrow> (case (s, s') of ((hmp, info, live), (hmp', info', live')) \<Rightarrow>
     io_shrinks hmp hmp' \<and> sync_frame info info' \<and> length (bm_bitmapq live') = 8 \<and>
     (\<forall>d < 256. chunk_state live' d = (if d = c then sync_state_of m (chunk_state live c) else chunk_state live d)) \<and>
     (chunk_state live' c = 2 \<longrightarrow> dedup_clear hmp' (chunk_off base c)) \<and>
     bm_linear live' = bm_linear live \<and> bm_class live' = bm_class live \<and>
     bm_avail live' = sync_avail m (chunk_state live c) (bm_avail live) \<and>
     bf_adj_free info' = bf_adj_free info + sync_adj m (chunk_state live c))"

lemma delete_clears:
  assumes "io_inv hmp" "io_room hmp" "dedup_range_ok x 16384"
  obtains hmp' where "hammer2_io_dedup_delete hmp HAMMER2_BREF_TYPE_DATA x 16384 = Some hmp'" "io_shrinks hmp hmp'" "dedup_clear hmp' x"
proof -
  obtain hmp' where h: "hammer2_io_dedup_delete hmp HAMMER2_BREF_TYPE_DATA x 16384 = Some hmp'" "io_effect (dedup_bits_clear x 16384) hmp hmp'"
    using dedup_delete_effect [OF assms] by blast
  have "fst (dedup_bits_clear x 16384 q b) AND fst b = fst (dedup_bits_clear x 16384 q b)" for q b
    by (simp add: dedup_bits_clear_def and.assoc and.commute and.left_commute)
  then have "io_shrinks hmp hmp'" by (rule effect_shrinks [OF h(2) assms(1,2)])
  moreover have "dedup_clear hmp' x"
  proof -
    let ?q = "data_off_pbase x"
    have "dedup_of hmp' ?q = (0, 0) \<or> dedup_of hmp' ?q = dedup_bits_clear x 16384 ?q (dedup_of hmp ?q)"
      using h(2) by (simp add: io_effect_def)
    then show ?thesis by (auto simp: dedup_clear_def dedup_bits_clear_def and.assoc)
  qed
  ultimately show ?thesis using that h(1) by blast
qed

lemma assert_passes:
  assumes "io_inv hmp" "io_room hmp" "dedup_range_ok x 16384" "dedup_clear hmp x"
  obtains hmp' where "hammer2_io_dedup_assert hmp x 16384 = Some hmp'" "io_shrinks hmp hmp'"
proof -
  have "\<exists>hmp'. hammer2_io_dedup_assert hmp x 16384 = Some hmp' \<and> io_effect (\<lambda>_ b. b) hmp hmp'"
    by (rule io_assert_pass [OF assms(1,2)]) (use assms(3,4) in \<open>simp_all add: dedup_range_ok_def dedup_clear_def\<close>)
  then obtain hmp' where h: "hammer2_io_dedup_assert hmp x 16384 = Some hmp'" "io_effect (\<lambda>_ b. b) hmp hmp'" by blast
  have "io_shrinks hmp hmp'" by (rule effect_shrinks [OF h(2) assms(1,2)]) simp
  then show ?thesis using that h(1) by blast
qed

lemma pair_val_set:
  assumes "p < 32" "r < 32"
  shows "\<not> bit q (2 * p) \<Longrightarrow> pair_val (q AND NOT (push_bit (2 * p) 2)) r = (if r = p then 0 else pair_val q r)"
    "bit q (2 * p + 1) \<Longrightarrow> pair_val (q AND NOT (push_bit (2 * p) 1)) r = (if r = p then 2 else pair_val q r)"
    "pair_val (q OR push_bit (2 * p) 3) r = (if r = p then 3 else pair_val q r)"
  unfolding pair_val_change [OF assms] by simp_all

lemma sync_pair_use:
  "\<exists>info' live'. sync_pair i scount off 3 l (hmp, info, live) = Some (hmp, info', live') \<and> sync_frame info info' \<and>
     bm_bitmapq live' = (bm_bitmapq live)[i := bm_bitmapq live ! i OR push_bit scount 3] \<and> bm_linear live' = bm_linear live \<and>
     bm_class live' = bm_class live \<and> bm_avail live' = sync_avail 3 l (bm_avail live) \<and>
     bf_adj_free info' = bf_adj_free info + sync_adj 3 l"
  by (cases "l = 0"; cases "l = 1"; cases "l = 2") (simp_all add: sync_pair_def Let_def sync_frame_def sync_avail_def sync_adj_def)

lemma sync_pair_spec:
  assumes len: "length (bm_bitmapq live) = 8" and i: "i < 8" "p < 32" and c: "c = 32 * i + p" and l: "l = chunk_state live c"
    and io: "io_inv hmp" "io_room hmp" "dedup_range_ok (chunk_off base c) 16384" and off: "off = base + of_nat (16384 * c)"
    and clear: "l = 2 \<Longrightarrow> dedup_clear hmp (chunk_off base c)"
  obtains s' where "sync_pair i (2 * p) off m l (hmp, info, live) = Some s'" "pair_result base c m (hmp, info, live) s'"
proof -
  let ?q = "bm_bitmapq live ! i"
  have lv: "l = pair_val ?q p" using l chunk_index [OF i] c by (simp add: chunk_state_def)
  have x: "off OR 14 = chunk_off base c" by (simp add: off chunk_off_def)
  note upd = chunk_state_update [OF len i, folded c]
  note chg = pair_val_set [OF i(2)]
  have c256: "c < 256" using i c by simp
  consider (free) "m = 0" "l = 2" | (stage) "m = 0" "l = 3" | (use) "m = 3" | (none) "m = 0" "l \<noteq> 2" "l \<noteq> 3" | (odd) "m \<noteq> 0" "m \<noteq> 3" by blast
  then show ?thesis
  proof cases
    case free
    obtain hmp' where h: "hammer2_io_dedup_assert hmp (chunk_off base c) 16384 = Some hmp'" "io_shrinks hmp hmp'"
      by (rule assert_passes [OF io clear [OF free(2)]])
    let ?b = "live\<lparr> bm_bitmapq := (bm_bitmapq live)[i := ?q AND NOT (push_bit (2 * p) 2)], bm_avail := sync_avail 0 2 (bm_avail live) \<rparr>"
    let ?i = "info\<lparr> bf_adj_free := bf_adj_free info + 16384, bf_count_10_00 := bf_count_10_00 info + 1 \<rparr>"
    have b: "\<not> bit ?q (2 * p)" using lv free(2) pair_val_iff(3) by metis
    have "chunk_state ?b d = (if d = c then 0 else chunk_state live d)" if "d < 256" for d
      by (rule upd [OF _ chg(1) [OF _ b] that]) simp_all
    then have "pair_result base c m (hmp, info, live) (hmp', ?i, ?b)"
      using h(2) len free l c256 by (simp add: pair_result_def sync_frame_def sync_state_of_def sync_adj_def)
    moreover have "sync_pair i (2 * p) off m l (hmp, info, live) = Some (hmp', ?i, ?b)"
      using free h(1) unfolding sync_pair_def by (simp add: x sync_avail_def Let_def)
    ultimately show ?thesis using that by blast
  next
    case stage
    obtain hmp' where h: "hammer2_io_dedup_delete hmp HAMMER2_BREF_TYPE_DATA (chunk_off base c) 16384 = Some hmp'" "io_shrinks hmp hmp'"
      "dedup_clear hmp' (chunk_off base c)"
      by (rule delete_clears [OF io])
    let ?b = "live\<lparr> bm_bitmapq := (bm_bitmapq live)[i := ?q AND NOT (push_bit (2 * p) 1)] \<rparr>"
    let ?i = "info\<lparr> bf_count_11_10 := bf_count_11_10 info + 1 \<rparr>"
    have b: "bit ?q (2 * p + 1)" using lv stage(2) pair_val_iff(4) by metis
    have "chunk_state ?b d = (if d = c then 2 else chunk_state live d)" if "d < 256" for d
      by (rule upd [OF _ chg(2) [OF _ b] that]) simp_all
    then have "pair_result base c m (hmp, info, live) (hmp', ?i, ?b)"
      using h len stage l c256 by (simp add: pair_result_def sync_frame_def sync_state_of_def sync_avail_def sync_adj_def)
    moreover have "sync_pair i (2 * p) off m l (hmp, info, live) = Some (hmp', ?i, ?b)"
      using stage h(1) unfolding sync_pair_def by (simp add: x Let_def)
    ultimately show ?thesis using that by blast
  next
    case use
    obtain info' live' where s: "sync_pair i (2 * p) off m l (hmp, info, live) = Some (hmp, info', live')"
      and f: "sync_frame info info'" "bm_bitmapq live' = (bm_bitmapq live)[i := ?q OR push_bit (2 * p) 3]"
        "bm_linear live' = bm_linear live" "bm_class live' = bm_class live" "bm_avail live' = sync_avail m l (bm_avail live)"
        "bf_adj_free info' = bf_adj_free info + sync_adj m l"
      using sync_pair_use [of i "2 * p" off l hmp info live] unfolding use by blast
    have "chunk_state live' d = (if d = c then 3 else chunk_state live d)" if "d < 256" for d
      by (rule upd [OF f(2) chg(3) that])
    then have "pair_result base c m (hmp, info, live) (hmp, info', live')"
      using f len use l c256 io_shrinks_refl [OF io(1,2)] by (simp add: pair_result_def sync_state_of_def)
    then show ?thesis using that s by blast
  next
    case none
    then show ?thesis
      using that [of "(hmp, info, live)"] len l clear io_shrinks_refl [OF io(1,2)] unfolding sync_pair_def
      by (auto simp: pair_result_def Let_def sync_frame_def sync_state_of_def sync_avail_def sync_adj_def)
  next
    case odd
    then show ?thesis
      using that [of "(hmp, info, live)"] len l clear io_shrinks_refl [OF io(1,2)] unfolding sync_pair_def
      by (auto simp: pair_result_def Let_def sync_frame_def sync_state_of_def sync_avail_def sync_adj_def)
  qed
qed

definition staged_clear :: "hammer2_dev \<Rightarrow> hammer2_off_t \<Rightarrow> hammer2_bmap_data \<Rightarrow> bool" where
  "staged_clear hmp base b \<longleftrightarrow> (\<forall>c < 256. chunk_state b c = 2 \<longrightarrow> dedup_clear hmp (chunk_off base c))"

definition avail_exact :: "hammer2_bmap_data \<Rightarrow> bool" where
  "avail_exact b \<longleftrightarrow> unat (bm_avail b) = 16384 * card (free_chunks b)"

definition seg_pre :: "hammer2_off_t \<Rightarrow> sync_state \<Rightarrow> bool" where
  "seg_pre base s \<longleftrightarrow> (case s of (hmp, info, live) \<Rightarrow> io_inv hmp \<and> io_room hmp \<and> length (bm_bitmapq live) = 8 \<and>
     staged_clear hmp base live \<and> avail_exact live)"

text \<open>The chunks in \<open>C\<close> reconciled.\<close>

definition seg_step :: "hammer2_off_t \<Rightarrow> hammer2_bmap_data \<Rightarrow> nat set \<Rightarrow> sync_state \<Rightarrow> sync_state \<Rightarrow> bool" where
  "seg_step base bmap C s s' \<longleftrightarrow> seg_pre base s' \<and> (case (s, s') of ((hmp, info, live), (hmp', info', live')) \<Rightarrow>
     io_shrinks hmp hmp' \<and> sync_frame info info' \<and>
     (\<forall>d < 256. chunk_state live' d = (if d \<in> C then sync_state_of (chunk_state bmap d) (chunk_state live d) else chunk_state live d)) \<and>
     bm_linear live' = bm_linear live \<and> bm_class live' = bm_class live \<and>
     bf_adj_free info' = bf_adj_free info + 16384 * (of_nat (card (free_chunks live')) - of_nat (card (free_chunks live))))"

lemma seg_step_empty: "seg_pre base s \<Longrightarrow> seg_step base bmap {} s s"
  by (auto simp: seg_step_def seg_pre_def sync_frame_def io_shrinks_refl)

lemma seg_step_trans:
  assumes "seg_step base bmap C s s'" "seg_step base bmap D s' s''" "C \<inter> D = {}"
  shows "seg_step base bmap (C \<union> D) s s''"
proof -
  obtain hmp info live where s: "s = (hmp, info, live)" by (cases s)
  obtain hmp' info' live' where s': "s' = (hmp', info', live')" by (cases s')
  obtain hmp'' info'' live'' where s'': "s'' = (hmp'', info'', live'')" by (cases s'')
  have "io_shrinks hmp hmp''" using assms io_shrinks_trans [of hmp hmp' hmp''] by (simp add: seg_step_def s s' s'')
  moreover have "chunk_state live'' d = (if d \<in> C \<union> D then sync_state_of (chunk_state bmap d) (chunk_state live d) else chunk_state live d)"
    if "d < 256" for d using assms that by (auto simp: seg_step_def s s' s'')
  moreover have "bf_adj_free info'' = bf_adj_free info + 16384 * (of_nat (card (free_chunks live'')) - of_nat (card (free_chunks live)))"
  proof -
    have "bf_adj_free info'' = bf_adj_free info' + 16384 * (of_nat (card (free_chunks live'')) - of_nat (card (free_chunks live')))"
      "bf_adj_free info' = bf_adj_free info + 16384 * (of_nat (card (free_chunks live')) - of_nat (card (free_chunks live)))"
      using assms by (simp_all add: seg_step_def s s' s'')
    then show ?thesis by (simp only: right_diff_distrib) simp
  qed
  ultimately show ?thesis using assms by (simp add: seg_step_def s s' s'' sync_frame_def)
qed

lemma free_chunks_state: "free_chunks b = {c. c < 256 \<and> chunk_state b c = 0}"
  by (simp add: free_chunks_def chunk_state_free)

lemma free_chunks_256: "finite (free_chunks b)" "card (free_chunks b) \<le> 256" "c < 256 \<Longrightarrow> c \<notin> free_chunks b \<Longrightarrow> card (free_chunks b) < 256"
proof -
  have f: "free_chunks b \<subseteq> {..<256}" by (auto simp: free_chunks_def)
  then show "finite (free_chunks b)" by (rule finite_subset) simp
  show "card (free_chunks b) \<le> 256" using card_mono [OF _ f] by simp
  assume "c < 256" "c \<notin> free_chunks b"
  then have "free_chunks b \<subset> {..<256}" using f by auto
  then show "card (free_chunks b) < 256" using psubset_card_mono [of "{..<256 :: nat}" "free_chunks b"] by simp
qed

lemma sync_state_of_zero: "\<not> (m = 0 \<and> l = 2) \<Longrightarrow> \<not> (m = 3 \<and> l = 0) \<Longrightarrow> sync_state_of m l = 0 \<longleftrightarrow> l = 0"
  by (simp add: sync_state_of_def)

text \<open>The count of free space follows the chunks.\<close>

lemma avail_up:
  assumes "unat (a :: u32) = 16384 * k" "k < 256" shows "unat (if a + 16384 > 4194304 then 4194304 else a + 16384) = 16384 * Suc k"
proof -
  have u: "unat (a + 16384) = 16384 * Suc k" using assms by (simp add: unat_word_ariths)
  then have "\<not> a + 16384 > 4194304" using assms(2) unfolding word_less_nat_alt by simp
  then show ?thesis using u by simp
qed

lemma avail_down:
  assumes "unat (a :: u32) = 16384 * Suc k" "k < 256" shows "unat (if sint (a - 16384) < 0 then 0 else a - 16384) = 16384 * k"
proof -
  have u: "unat (a - 16384) = 16384 * k" using assms by (subst unat_sub) (simp_all add: word_le_nat_alt)
  then have "\<not> sint (a - 16384) < 0" using assms(2) sint_small [of "a - 16384"] by simp
  then show ?thesis using u by simp
qed

lemma pair_avail:
  assumes c: "c < 256" and a: "avail_exact live"
    and st: "\<And>d. d < 256 \<Longrightarrow> chunk_state live' d = (if d = c then sync_state_of m (chunk_state live c) else chunk_state live d)"
    and av: "bm_avail live' = sync_avail m (chunk_state live c) (bm_avail live)"
  shows "avail_exact live' \<and> sync_adj m (chunk_state live c) = 16384 * (of_nat (card (free_chunks live')) - of_nat (card (free_chunks live)))"
proof -
  let ?F = "free_chunks live" and ?F' = "free_chunks live'" and ?l = "chunk_state live c"
  have F': "d \<in> ?F' \<longleftrightarrow> (if d = c then sync_state_of m ?l = 0 else d \<in> ?F)" for d
    using st [of d] c by (cases "d < 256"; cases "d = c") (simp_all add: free_chunks_state)
  have Fc: "c \<in> ?F \<longleftrightarrow> ?l = 0" using c by (simp add: free_chunks_state)
  note u = a [unfolded avail_exact_def]
  consider (free) "m = 0" "?l = 2" | (use) "m = 3" "?l = 0" | (same) "\<not> (m = 0 \<and> ?l = 2)" "\<not> (m = 3 \<and> ?l = 0)" by blast
  then show ?thesis
  proof cases
    case free
    then have n: "c \<notin> ?F" using Fc by simp
    have "?F' = insert c ?F" by (rule set_eqI) (simp add: F' free sync_state_of_def)
    then have k: "card ?F' = Suc (card ?F)" using n free_chunks_256(1) by simp
    have av': "bm_avail live' = (if bm_avail live + 16384 > 4194304 then 4194304 else bm_avail live + 16384)"
      unfolding av sync_avail_def free by (simp only: simp_thms if_True)
    have "unat (bm_avail live') = 16384 * card ?F'" unfolding av' k by (rule avail_up [OF u free_chunks_256(3) [OF c n]])
    moreover have "sync_adj m ?l = 16384" unfolding free sync_adj_def by (simp only: simp_thms if_True)
    ultimately show ?thesis unfolding avail_exact_def k of_nat_Suc by (simp only: add_diff_cancel_right' mult_1_right simp_thms)
  next
    case use
    then have n: "c \<in> ?F" using Fc by simp
    have "?F' = ?F - {c}" by (rule set_eqI) (simp add: F' use sync_state_of_def)
    then have k: "card ?F = Suc (card ?F')" using card_Suc_Diff1 [OF free_chunks_256(1) n] by simp
    have "card ?F' < 256" using k free_chunks_256(2) [of live] by simp
    moreover have av': "bm_avail live' = (if sint (bm_avail live - 16384) < 0 then 0 else bm_avail live - 16384)"
      unfolding av sync_avail_def use by simp
    ultimately have "unat (bm_avail live') = 16384 * card ?F'" unfolding av' using avail_down [OF u [unfolded k]] by (simp only:)
    moreover have "sync_adj m ?l = - 16384" unfolding use sync_adj_def by simp
    ultimately show ?thesis unfolding avail_exact_def k of_nat_Suc by simp
  next
    case same
    have "?F' = ?F" by (rule set_eqI) (simp add: F' Fc sync_state_of_zero [OF same])
    moreover have "bm_avail live' = bm_avail live" "sync_adj m ?l = 0" using same unfolding av sync_avail_def sync_adj_def by (simp_all only: if_False)
    ultimately show ?thesis using u unfolding avail_exact_def by simp
  qed
qed

lemma pair_seg_step:
  assumes pre: "seg_pre base s" and c: "c < 256" and r: "pair_result base c (chunk_state bmap c) s s'"
  shows "seg_step base bmap {c} s s'"
proof -
  obtain hmp info live where s: "s = (hmp, info, live)" by (cases s)
  obtain hmp' info' live' where s': "s' = (hmp', info', live')" by (cases s')
  have p: "avail_exact live" "staged_clear hmp base live" using pre by (simp_all add: seg_pre_def s)
  have r: "io_shrinks hmp hmp'" "sync_frame info info'" "length (bm_bitmapq live') = 8"
     "\<And>d. d < 256 \<Longrightarrow> chunk_state live' d = (if d = c then sync_state_of (chunk_state bmap c) (chunk_state live c) else chunk_state live d)"
     "chunk_state live' c = 2 \<Longrightarrow> dedup_clear hmp' (chunk_off base c)"
     "bm_linear live' = bm_linear live" "bm_class live' = bm_class live"
     "bm_avail live' = sync_avail (chunk_state bmap c) (chunk_state live c) (bm_avail live)"
     "bf_adj_free info' = bf_adj_free info + sync_adj (chunk_state bmap c) (chunk_state live c)"
    using r by (simp_all add: pair_result_def s s')
  have "staged_clear hmp' base live'"
    unfolding staged_clear_def
  proof (intro allI impI)
    fix d :: nat
    assume d: "d < 256" "chunk_state live' d = 2"
    show "dedup_clear hmp' (chunk_off base d)"
    proof (cases "d = c")
      case False
      then have "dedup_clear hmp (chunk_off base d)" using d r(4) p(2) by (simp add: staged_clear_def)
      then show ?thesis by (rule dedup_clear_shrinks [OF r(1)])
    qed (use d r(5) in simp)
  qed
  then show ?thesis
    using r pair_avail [OF c p(1), of live' "chunk_state bmap c"] by (simp add: seg_step_def s s' seg_pre_def io_shrinks_def)
qed

abbreviation (input) seg_ok :: "hammer2_off_t \<Rightarrow> bool" where
  "seg_ok base \<equiv> \<forall>c < 256. dedup_range_ok (chunk_off base c) 16384"

lemma seg_pre_live: "seg_pre base s \<Longrightarrow> length (bm_bitmapq (snd (snd s))) = 8"
  by (cases s) (simp add: seg_pre_def)

text \<open>The pairs from \<open>p\<close> on of element \<open>i\<close>; \<open>ll\<close> is the live element as it was at the start.\<close>

lemma sync_pairs_spec:
  assumes seg: "seg_ok base" and i: "i < 8"
  shows "n + p = 32 \<Longrightarrow> seg_pre base s \<Longrightarrow> (\<And>r. p \<le> r \<Longrightarrow> r < 32 \<Longrightarrow> pair_val (bm_bitmapq (snd (snd s)) ! i) r = pair_val ll r) \<Longrightarrow>
    \<exists>s'. sync_pairs n i (2 * p) (base + of_nat (16384 * (32 * i + p))) (drop_bit (2 * p) (bm_bitmapq bmap ! i)) (drop_bit (2 * p) ll) s =
        Some (base + of_nat (16384 * (32 * i + 32)), s') \<and>
      seg_step base bmap {32 * i + p ..< 32 * i + 32} s s'"
proof (induction n arbitrary: p s)
  case 0
  then show ?case using seg_step_empty by auto
next
  case (Suc n)
  let ?c = "32 * i + p"
  have p: "p < 32" using Suc.prems(1) by simp
  obtain hmp info live where s: "s = (hmp, info, live)" by (cases s)
  note ix = chunk_index [OF i p]
  have ll: "drop_bit (2 * p) ll AND 3 = chunk_state live ?c" "drop_bit (2 * p) (bm_bitmapq bmap ! i) AND 3 = chunk_state bmap ?c"
    using Suc.prems(3) [of p] p ix by (simp_all add: s chunk_state_def pair_val_def)
  have pre: "length (bm_bitmapq live) = 8" "io_inv hmp" "io_room hmp" "staged_clear hmp base live" using Suc.prems(2) by (simp_all add: s seg_pre_def)
  have rng: "dedup_range_ok (chunk_off base ?c) 16384" using seg ix by blast
  obtain s1 where s1: "sync_pair i (2 * p) (base + of_nat (16384 * ?c)) (chunk_state bmap ?c) (chunk_state live ?c) (hmp, info, live) = Some s1"
    "pair_result base ?c (chunk_state bmap ?c) (hmp, info, live) s1"
    by (rule sync_pair_spec [OF pre(1) i p refl refl pre(2,3) rng refl, where m = "chunk_state bmap ?c" and info = info])
      (use pre(4) ix in \<open>simp add: staged_clear_def\<close>)
  have st: "seg_step base bmap {?c} s s1" using pair_seg_step [OF Suc.prems(2)] ix s1(2) by (simp add: s)
  then have pre1: "seg_pre base s1" by (simp add: seg_step_def)
  have "pair_val (bm_bitmapq (snd (snd s1)) ! i) r = pair_val ll r" if "Suc p \<le> r" "r < 32" for r
  proof -
    have "chunk_state (snd (snd s1)) (32 * i + r) = chunk_state live (32 * i + r)"
      using st that i by (simp add: seg_step_def s split: prod.splits)
    then show ?thesis using chunk_index [OF i that(2)] Suc.prems(3) [of r] that by (simp add: chunk_state_def s)
  qed
  then obtain s2 where s2: "sync_pairs n i (2 * Suc p) (base + of_nat (16384 * (32 * i + Suc p))) (drop_bit (2 * Suc p) (bm_bitmapq bmap ! i))
      (drop_bit (2 * Suc p) ll) s1 = Some (base + of_nat (16384 * (32 * i + 32)), s2)"
    "seg_step base bmap {32 * i + Suc p ..< 32 * i + 32} s1 s2"
    using Suc.IH [OF _ pre1, of "Suc p"] Suc.prems(1) by auto
  have "seg_step base bmap ({?c} \<union> {32 * i + Suc p ..< 32 * i + 32}) s s2" by (rule seg_step_trans [OF st s2(2)]) simp
  moreover have "{?c} \<union> {32 * i + Suc p ..< 32 * i + 32} = {?c ..< 32 * i + 32}" using p by auto
  ultimately have "seg_step base bmap {?c ..< 32 * i + 32} s s2" by simp
  moreover have "sync_pairs (Suc n) i (2 * p) (base + of_nat (16384 * ?c)) (drop_bit (2 * p) (bm_bitmapq bmap ! i)) (drop_bit (2 * p) ll) s =
      Some (base + of_nat (16384 * (32 * i + 32)), s2)"
  proof -
    have "base + of_nat (16384 * ?c) + 16384 = base + of_nat (16384 * (32 * i + Suc p))" "2 * p + 2 = 2 * Suc p" by (simp_all add: algebra_simps)
    moreover have "drop_bit 2 (drop_bit (2 * p) w) = drop_bit (2 * Suc p) w" for w :: u64 by (simp add: drop_bit_drop_bit add.commute)
    ultimately show ?thesis using s1(1) s2(1) unfolding s sync_pairs.simps ll by (simp only: Option.bind.bind_lunit)
  qed
  ultimately show ?case by blast
qed

lemma sync_state_of_same: "sync_state_of x x = x"
  by (simp add: sync_state_of_def)

lemma sync_elements_spec:
  assumes seg: "seg_ok base"
  shows "i \<le> 8 \<Longrightarrow> seg_pre base s \<Longrightarrow>
    \<exists>s'. sync_elements [i..<8] (base + of_nat (524288 * i)) bmap s = Some s' \<and> seg_step base bmap {32 * i ..< 256} s s'"
proof (induction "8 - i" arbitrary: i s)
  case 0
  then show ?case using seg_step_empty by simp
next
  case (Suc n)
  then have i: "i < 8" and up: "[i..<8] = i # [Suc i..<8]" by (simp_all add: upt_conv_Cons)
  have n: "n = 8 - Suc i" "Suc i \<le> 8" using Suc.hyps(2) by simp_all
  obtain hmp info live where s: "s = (hmp, info, live)" by (cases s)
  have off: "base + of_nat (524288 * i) = base + of_nat (16384 * (32 * i + 0))" "base + of_nat (16384 * (32 * i + 32)) = base + of_nat (524288 * Suc i)"
    "base + of_nat (524288 * i) + 524288 = base + of_nat (524288 * Suc i)" by (simp_all add: algebra_simps)
  have un: "{32 * i ..< 32 * i + 32} \<union> {32 * Suc i ..< 256} = {32 * i ..< 256}" "{32 * i ..< 32 * i + 32} \<inter> {32 * Suc i ..< 256} = {}" using i by auto
  show ?case
  proof (cases "bm_bitmapq live ! i = bm_bitmapq bmap ! i")
    case True
    have same: "chunk_state live d = chunk_state bmap d" if "d \<in> {32 * i ..< 32 * i + 32}" for d
    proof -
      have "d div 32 = i" using that by (intro div_nat_eqI) auto
      then show ?thesis using True by (simp add: chunk_state_def)
    qed
    have "seg_step base bmap {32 * i ..< 32 * i + 32} s s"
      using seg_step_empty [OF Suc.prems(2), of bmap] same unfolding s seg_step_def by (auto simp: sync_state_of_same)
    moreover obtain s2 where s2: "sync_elements [Suc i..<8] (base + of_nat (524288 * Suc i)) bmap s = Some s2" "seg_step base bmap {32 * Suc i ..< 256} s s2"
      using Suc.hyps(1) [OF n Suc.prems(2)] by blast
    ultimately have "seg_step base bmap {32 * i ..< 256} s s2" using seg_step_trans un by metis
    moreover have "sync_elements [i..<8] (base + of_nat (524288 * i)) bmap s = Some s2"
      using True s2(1) unfolding up s sync_elements.simps Let_def off(3) by simp
    ultimately show ?thesis by blast
  next
    case False
    obtain s1 where s1: "sync_pairs 32 i (2 * 0) (base + of_nat (16384 * (32 * i + 0))) (drop_bit (2 * 0) (bm_bitmapq bmap ! i))
        (drop_bit (2 * 0) (bm_bitmapq live ! i)) s = Some (base + of_nat (16384 * (32 * i + 32)), s1)"
      "seg_step base bmap {32 * i + 0 ..< 32 * i + 32} s s1"
      using sync_pairs_spec [OF seg i, of 32 0 s "bm_bitmapq live ! i" bmap] Suc.prems(2) by (auto simp: s)
    then have p1: "seg_pre base s1" by (simp add: seg_step_def)
    obtain s2 where s2: "sync_elements [Suc i..<8] (base + of_nat (524288 * Suc i)) bmap s1 = Some s2" "seg_step base bmap {32 * Suc i ..< 256} s1 s2"
      using Suc.hyps(1) [OF n p1] by blast
    have "seg_step base bmap {32 * i ..< 256} s s2" using seg_step_trans [OF _ s2(2), of "{32 * i ..< 32 * i + 32}" s] s1(2) un by simp
    moreover have "sync_elements [i..<8] (base + of_nat (524288 * i)) bmap s = Some s2"
      using False s1(1) s2(1) unfolding up s sync_elements.simps Let_def off by simp
    ultimately show ?thesis by blast
  qed
qed

lemma last_used_None: "last_used b = None \<Longrightarrow> length (bm_bitmapq b) = 8 \<Longrightarrow> c < 256 \<Longrightarrow> chunk_state b c = 0"
proof -
  assume n: "last_used b = None" and len: "length (bm_bitmapq b) = 8" and c: "c < 256"
  have "c div 32 < 8" using c by (simp add: less_mult_imp_div_less)
  then have "bm_bitmapq b ! (c div 32) = 0" using n unfolding last_used_def find_None_iff by auto
  then show ?thesis by (simp add: chunk_state_def pair_val_def)
qed

lemma int_round_up: "(y :: int) AND NOT 16383 = 16384 * (y div 16384)"
proof -
  define a b c d where "a = y AND 16383" and "b = y AND NOT 16383" and "c = y div 16384" and "d = y mod 16384"
  have "a = d" unfolding a_def d_def by (rule int_and_16383)
  moreover have "a + b = y" unfolding a_def b_def by (rule int_and_split)
  moreover have "16384 * c + d = y" unfolding c_def d_def by (rule mult_div_mod_eq)
  ultimately have "b = 16384 * c" by linarith
  then show ?thesis unfolding b_def c_def .
qed

lemma round_up_ok:
  assumes "0 \<le> (x :: int)" "x \<le> 4194304"
  shows "0 \<le> (x + 16383) AND NOT 16383" "(x + 16383) AND NOT 16383 \<le> 4194304" "((x + 16383) AND NOT 16383) mod 1024 = 0"
    "((x + 16383) AND NOT 16383) mod 16384 = 0"
proof -
  let ?k = "(x + 16383) div 16384"
  have "0 \<le> ?k" using assms(1) by (simp add: pos_imp_zdiv_nonneg_iff)
  moreover have "?k \<le> (4194304 + 16383) div 16384" using assms(2) by (intro zdiv_mono1) simp_all
  ultimately have "0 \<le> ?k" "?k \<le> 256" by simp_all
  then show "0 \<le> (x + 16383) AND NOT 16383" "(x + 16383) AND NOT 16383 \<le> 4194304" unfolding int_round_up by simp_all
  show "((x + 16383) AND NOT 16383) mod 16384 = 0" unfolding int_round_up by simp
  have "16384 * ?k = 1024 * (16 * ?k)" by simp
  then show "((x + 16383) AND NOT 16383) mod 1024 = 0" unfolding int_round_up by (simp only: mod_mult_self1_is_0)
qed

text \<open>The linear iterator set after the reconciliation.\<close>

lemma sync_linear_cases:
  assumes "sync_linear bmap (info, live) = (info', live')"
  shows "sync_frame info info' \<and> bf_adj_free info' = bf_adj_free info"
    "last_used live = None \<Longrightarrow> live' = live\<lparr> bm_avail := 4194304, bm_class := 0, bm_linear := 0 \<rparr>"
    "last_used live = Some b \<Longrightarrow> \<exists>x. live' = live\<lparr> bm_linear := x \<rparr> \<and>
       (x = bm_linear bmap \<or> x = (bm_linear bmap + 16383) AND NOT 16383 \<or> x = 4194304)"
proof -
  define cond where "cond \<longleftrightarrow> bm_linear live < bm_linear bmap \<and> (bm_linear live XOR bm_linear bmap) AND NOT 16383 = 0"
  define up where "up = (bm_linear bmap + 16383) AND NOT 16383"
  note r = assms [unfolded sync_linear_def prod.case cond_def [symmetric] up_def [symmetric]]
  show "sync_frame info info' \<and> bf_adj_free info' = bf_adj_free info"
    using r by (cases "last_used live") (auto simp: sync_frame_def split: if_splits)
  show "live' = live\<lparr> bm_avail := 4194304, bm_class := 0, bm_linear := 0 \<rparr>" if "last_used live = None"
    using r that by simp
  show "\<exists>x. live' = live\<lparr> bm_linear := x \<rparr> \<and> (x = bm_linear bmap \<or> x = (bm_linear bmap + 16383) AND NOT 16383 \<or> x = 4194304)"
    if "last_used live = Some b"
    unfolding up_def [symmetric] using r that by (cases "b < 7"; cases cond) auto
qed

lemma sync_linear_ok:
  assumes len: "length (bm_bitmapq live) = 8" and av: "avail_exact live" and lin: "mem_linear_ok bmap"
    and full: "\<And>c. c < 256 \<Longrightarrow> chunk_full bmap c \<Longrightarrow> \<not> chunk_free live c"
    and r: "sync_linear bmap (info, live) = (info', live')"
  shows "bmap_ok live'" "bm_bitmapq live' = bm_bitmapq live"
proof -
  have lin: "0 \<le> bm_linear bmap" "bm_linear bmap \<le> 4194304" "bm_linear bmap mod 1024 = 0"
    "bm_linear bmap mod 16384 \<noteq> 0 \<Longrightarrow> chunk_full bmap (nat (bm_linear bmap div 16384))"
    using lin by (simp_all add: mem_linear_ok_def)
  have "bmap_ok live' \<and> bm_bitmapq live' = bm_bitmapq live"
  proof (cases "last_used live")
    case None
    have "free_chunks live = {..<256}" using last_used_None [OF None len] by (auto simp: free_chunks_state)
    moreover have l: "live' = live\<lparr> bm_avail := 4194304, bm_class := 0, bm_linear := 0 \<rparr>" by (rule sync_linear_cases(2) [OF r None])
    moreover have "free_chunks live' = free_chunks live" unfolding l by (simp add: free_chunks_def chunk_free_def)
    ultimately show ?thesis using len by (simp add: bmap_ok_def)
  next
    case (Some b)
    obtain x where l: "live' = live\<lparr> bm_linear := x \<rparr>" and x: "x = bm_linear bmap \<or> x = (bm_linear bmap + 16383) AND NOT 16383 \<or> x = 4194304"
      using sync_linear_cases(3) [OF r Some] by blast
    have same: "free_chunks live' = free_chunks live" "chunk_free live' = chunk_free live" unfolding l by (simp_all add: free_chunks_def chunk_free_def fun_eq_iff)
    have "0 \<le> x \<and> x \<le> 4194304 \<and> x mod 1024 = 0 \<and> (x mod 16384 \<noteq> 0 \<longrightarrow> \<not> chunk_free live (nat (x div 16384)))"
      using x
    proof (elim disjE)
      assume x: "x = bm_linear bmap"
      have "\<not> chunk_free live (nat (x div 16384))" if nz: "x mod 16384 \<noteq> 0"
        using full [OF linear_chunk_less] lin(2,4) nz unfolding x by blast
      then show ?thesis using lin(1-3) unfolding x by blast
    next
      assume x: "x = (bm_linear bmap + 16383) AND NOT 16383"
      show ?thesis using round_up_ok [OF lin(1,2)] unfolding x by blast
    qed simp
    then show ?thesis using len av unfolding bmap_ok_def same avail_exact_def by (simp add: l)
  qed
  then show "bmap_ok live'" "bm_bitmapq live' = bm_bitmapq live" by simp_all
qed

lemma bmap_ok_avail: "bmap_ok b \<Longrightarrow> avail_exact b \<and> length (bm_bitmapq b) = 8"
  by (simp add: bmap_ok_def avail_exact_def)

lemma chunk_state_bitmap: "bm_bitmapq a = bm_bitmapq b \<Longrightarrow> chunk_state a = chunk_state b"
  by (simp add: chunk_state_def fun_eq_iff)

text \<open>A segment reconciled with its scan: every chunk by the table, the entry and the counts right, and the
  staged chunks without dedup bits.\<close>

definition seg_synced :: "hammer2_off_t \<Rightarrow> hammer2_bmap_data \<Rightarrow> sync_state \<Rightarrow> sync_state \<Rightarrow> bool" where
  "seg_synced base bmap s s' \<longleftrightarrow> (case (s, s') of ((hmp, info, live), (hmp', info', live')) \<Rightarrow>
     io_shrinks hmp hmp' \<and> sync_frame info info' \<and> bmap_ok live' \<and> staged_clear hmp' base live' \<and>
     (\<forall>c < 256. chunk_state live' c = sync_state_of (chunk_state bmap c) (chunk_state live c)) \<and>
     bf_adj_free info' = bf_adj_free info + 16384 * (of_nat (card (free_chunks live')) - of_nat (card (free_chunks live))))"

lemma sync_adjust_spec:
  assumes seg: "seg_backed hmp base" "unat base + 4194304 < 2 ^ 64" and io: "io_inv hmp" "io_room hmp"
    and live: "bmap_ok live" "staged_clear hmp base live" and mem: "mem_linear_ok bmap"
  shows "\<exists>s'. h2_bulkfree_sync_adjust base bmap (hmp, info, live) = Some s' \<and> seg_synced base bmap (hmp, info, live) s'"
proof -
  have ok: "seg_ok base" using chunk_range_ok [OF seg] by blast
  have "seg_pre base (hmp, info, live)" using io live bmap_ok_avail by (simp add: seg_pre_def)
  then obtain s1 where r: "sync_elements [0..<8] (base + of_nat (524288 * 0)) bmap (hmp, info, live) = Some s1"
    and st: "seg_step base bmap {32 * 0 ..< 256} (hmp, info, live) s1"
    using sync_elements_spec [OF ok, of 0] by blast
  obtain hmp1 info1 live1 where s1: "s1 = (hmp1, info1, live1)" by (cases s1)
  have st: "seg_pre base (hmp1, info1, live1)" "io_shrinks hmp hmp1" "sync_frame info info1"
    "\<And>d. d < 256 \<Longrightarrow> chunk_state live1 d = sync_state_of (chunk_state bmap d) (chunk_state live d)"
    "bf_adj_free info1 = bf_adj_free info + 16384 * (of_nat (card (free_chunks live1)) - of_nat (card (free_chunks live)))"
    using st by (simp_all add: seg_step_def s1)
  obtain info2 live2 where l: "sync_linear bmap (info1, live1) = (info2, live2)" by (cases "sync_linear bmap (info1, live1)")
  have "\<not> chunk_free live1 c" if "c < 256" "chunk_full bmap c" for c
    using st(4) [OF that(1)] that(2) unfolding chunk_state_free [symmetric] chunk_state_full [symmetric] by (simp add: sync_state_of_def)
  note fin = sync_linear_ok [OF _ _ mem this l]
  have pre1: "length (bm_bitmapq live1) = 8" "avail_exact live1" "staged_clear hmp1 base live1" using st(1) by (simp_all add: seg_pre_def)
  have b: "bmap_ok live2" "bm_bitmapq live2 = bm_bitmapq live1" by (rule fin [OF pre1(1,2)]; assumption)+
  have cs: "chunk_state live2 = chunk_state live1" by (rule chunk_state_bitmap [OF b(2)])
  then have "free_chunks live2 = free_chunks live1" "staged_clear hmp1 base live2" using pre1(3) by (simp_all add: free_chunks_state staged_clear_def)
  moreover have "sync_frame info info2" "bf_adj_free info2 = bf_adj_free info1"
    using sync_linear_cases(1) [OF l] st(3) by (simp_all add: sync_frame_def)
  ultimately have "seg_synced base bmap (hmp, info, live) (hmp1, info2, live2)"
    using st b(1) by (simp add: seg_synced_def cs)
  moreover have "h2_bulkfree_sync_adjust base bmap (hmp, info, live) = Some (hmp1, info2, live2)"
    using r l by (simp add: h2_bulkfree_sync_adjust_def s1)
  ultimately show ?thesis by blast
qed

section \<open>Properties of the reconciliation\<close>

text \<open>C5: The reconciliation of one segment does not fail and does what the transition table says: a chunk the scan found in
  use ends allocated (11); one it did not find goes from allocated to staged (10), and from staged to free (00); nothing
  else changes.  The entry stays well formed, with its count of free space and its linear iterator right; the adjustment of the
  volume's free space is the change in free chunks; and every staged chunk has no dedup bits left in the device buffers,
  which is why the assertion made when a staged chunk is freed holds.\<close>

theorem bulkfree_sync_adjust_correct:
  assumes "seg_backed hmp base" "unat base + 4194304 < 2 ^ 64" "io_inv hmp" "io_room hmp"
    "bmap_ok live" "staged_clear hmp base live" "mem_linear_ok bmap"
  shows "\<exists>hmp' info' live'. h2_bulkfree_sync_adjust base bmap (hmp, info, live) = Some (hmp', info', live') \<and>
    (\<forall>c < 256. chunk_state live' c = sync_state_of (chunk_state bmap c) (chunk_state live c)) \<and>
    bmap_ok live' \<and> staged_clear hmp' base live' \<and> io_inv hmp' \<and> io_room hmp' \<and>
    bf_adj_free info' = bf_adj_free info + 16384 * (of_nat (card (free_chunks live')) - of_nat (card (free_chunks live)))"
  using sync_adjust_spec [OF assms, of info] by (auto simp: seg_synced_def io_shrinks_def)

text \<open>C3: Blocks are released in two stages: a chunk that is allocated before two successive reconciliations of its
  segment is free after them exactly if neither scan found it in use.  One pass alone never frees it.\<close>

theorem bulkfree_two_stages:
  assumes "seg_backed hmp base" "unat base + 4194304 < 2 ^ 64" "io_inv hmp" "io_room hmp"
    "bmap_ok live" "staged_clear hmp base live" "mem_linear_ok bmap1" "mem_linear_ok bmap2" "mem_entry_ok bmap1" "mem_entry_ok bmap2"
    and "c < 256" "chunk_full live c"
  shows "\<exists>hmp1 info1 live1 s2. h2_bulkfree_sync_adjust base bmap1 (hmp, info, live) = Some (hmp1, info1, live1) \<and> \<not> chunk_free live1 c \<and>
    h2_bulkfree_sync_adjust base bmap2 (hmp1, info1, live1) = Some s2 \<and>
    (chunk_free (snd (snd s2)) c \<longleftrightarrow> chunk_free bmap1 c \<and> chunk_free bmap2 c)"
proof -
  obtain hmp1 info1 live1 where r1: "h2_bulkfree_sync_adjust base bmap1 (hmp, info, live) = Some (hmp1, info1, live1)"
    and s1: "seg_synced base bmap1 (hmp, info, live) (hmp1, info1, live1)"
    using sync_adjust_spec [OF assms(1-7), of info] by (metis prod_cases3)
  have st1: "io_shrinks hmp hmp1" "bmap_ok live1" "staged_clear hmp1 base live1"
    "chunk_state live1 c = sync_state_of (chunk_state bmap1 c) (chunk_state live c)" using s1 assms(11) by (simp_all add: seg_synced_def)
  have "seg_backed hmp1 base" "io_inv hmp1" "io_room hmp1" using st1(1) assms(1) seg_backed_frame by (auto simp: io_shrinks_def)
  then obtain hmp2 info2 live2 where r2: "h2_bulkfree_sync_adjust base bmap2 (hmp1, info1, live1) = Some (hmp2, info2, live2)"
    and s2: "seg_synced base bmap2 (hmp1, info1, live1) (hmp2, info2, live2)"
    using sync_adjust_spec [OF _ assms(2) _ _ st1(2,3) assms(8), of info1] by (metis prod_cases3)
  have st2: "chunk_state live2 c = sync_state_of (chunk_state bmap2 c) (chunk_state live1 c)" using s2 assms(11) by (simp add: seg_synced_def)
  have m: "chunk_state bmap1 c = 0 \<or> chunk_state bmap1 c = 3" "chunk_state bmap2 c = 0 \<or> chunk_state bmap2 c = 3"
    using assms(9-11) by (auto simp: mem_entry_ok_def chunk_state_free chunk_state_full)
  have l: "chunk_state live c = 3" using assms(12) by (simp add: chunk_state_full)
  have "\<not> chunk_free live1 c" using m l st1(4) unfolding chunk_state_free [symmetric] by (auto simp: sync_state_of_def)
  moreover have "chunk_free live2 c \<longleftrightarrow> chunk_free bmap1 c \<and> chunk_free bmap2 c"
    using m l st1(4) st2 unfolding chunk_state_free [symmetric] by (auto simp: sync_state_of_def)
  ultimately show ?thesis using r1 r2 by auto
qed


subsection \<open>Witnesses\<close>

lemma ex_sync_entry: "bmap_ok bmap_full" "staged_clear hmp base bmap_full" "c < 256 \<Longrightarrow> chunk_state bmap_full c = 3"
proof -
  have s: "chunk_state bmap_full c = 3" if "c < 256" for c using init_entry_ok(5) [OF that] by (simp add: chunk_state_full)
  show "bmap_ok bmap_full" by (rule bmap_full_ok)
  show "staged_clear hmp base bmap_full" using s by (simp add: staged_clear_def)
qed (use init_entry_ok(5) in \<open>simp add: chunk_state_full\<close>)

abbreviation ex_none_used :: hammer2_bmap_data where
  "ex_none_used \<equiv> bmap_zero\<lparr> bm_avail := 4194304 \<rparr>"

lemma ex_none_state: "chunk_state ex_none_used 5 = 0"
  by (simp add: chunk_state_def pair_val_def bmap_zero_def)

theorem bulkfree_sync_adjust_correct_witness:
  "\<exists>hmp' info' live'. h2_bulkfree_sync_adjust 4194304 ex_none_used (ex_dev, bulkfree_info_zero, bmap_full) = Some (hmp', info', live') \<and>
     chunk_state live' 5 = 2 \<and> bmap_ok live'"
proof -
  have b: "unat (4194304 :: u64) + 4194304 < 2 ^ 64" by simp
  obtain hmp' info' live' where r: "h2_bulkfree_sync_adjust 4194304 ex_none_used (ex_dev, bulkfree_info_zero, bmap_full) = Some (hmp', info', live')"
    "\<forall>c < 256. chunk_state live' c = sync_state_of (chunk_state ex_none_used c) (chunk_state bmap_full c)" "bmap_ok live'"
    using bulkfree_sync_adjust_correct [OF ex_dev_seg b ex_dev_inv ex_sync_entry(1,2) init_entry_ok(4), where info = bulkfree_info_zero] by blast
  have "chunk_state live' 5 = 2" using r(2) [rule_format, of 5] ex_none_state ex_sync_entry(3) [of 5] by (simp add: sync_state_of_def)
  then show ?thesis using r by blast
qed

theorem bulkfree_two_stages_witness:
  "\<exists>hmp1 info1 live1 s2. h2_bulkfree_sync_adjust 4194304 ex_none_used (ex_dev, bulkfree_info_zero, bmap_full) = Some (hmp1, info1, live1) \<and>
     \<not> chunk_free live1 5 \<and> h2_bulkfree_sync_adjust 4194304 ex_none_used (hmp1, info1, live1) = Some s2 \<and> chunk_free (snd (snd s2)) 5"
proof -
  have b: "unat (4194304 :: u64) + 4194304 < 2 ^ 64" by simp
  have "chunk_free ex_none_used 5" using ex_none_state by (simp add: chunk_state_free)
  moreover have "chunk_full bmap_full 5" by (rule init_entry_ok(5)) simp
  ultimately show ?thesis
    using bulkfree_two_stages [where ?bmap1.0 = ex_none_used and ?bmap2.0 = ex_none_used and info = bulkfree_info_zero and c = 5,
        OF ex_dev_seg b ex_dev_inv ex_sync_entry(1,2) init_entry_ok(4,4,3,3)] by auto
qed


end
