(* ===== verification/Spec2Isabelle.thy ===== *)
theory Spec2Isabelle
  imports Hammer2_Sync
begin

text \<open>
  A verification development for the Linux port of HAMMER2
  (\<^verbatim>\<open>src/src/sys/fs/hammer2\<close>).
\<close>

end
